(* ===== verification/Prelude.thy ===== *)
theory Prelude
  imports Main "HOL-Library.Word"
begin

text \<open>
  Shared vocabulary of the development: Python byte strings, exceptions as values, lazily
  consumed chunk iterables, big-endian packing as the struct module does it, and the few
  string operations (ASCII upper-casing, stripping, decimal printing) the program uses.
  Everything here models Python's language and standard library, never a file of src/.
\<close>

unbundle bit_operations_syntax

named_theorems bytes_simps \<open>rewrites for packing and unpacking fixed-width fields\<close>

type_synonym byte = "8 word"
type_synonym bytes = "byte list"

section \<open>Exceptions as values\<close>

text \<open>
  The subclasses of OSError the program tells apart, and the exception classes it raises or
  catches. Both ModeCodecError and TransferCancelledError are instances of
  FilesystemOperationError(operation, reply_code, message), and every handler treats them as such.
\<close>

datatype os_kind = FileNotFound | FileExists | IsADirectory | NotADirectory
  | PermissionDenied | OtherOS

datatype exn =
    ValueError string
  | RuntimeError string
  | TypeError string
  | AttributeError string
  | IndexError string
  | StructError
  | OSErr os_kind string
  | FsError string int string

text \<open>\<open>str(error)\<close>. The text of struct.error is not used by the program.\<close>

fun exn_text :: "exn \<Rightarrow> string" where
  "exn_text (ValueError m) = m"
| "exn_text (RuntimeError m) = m"
| "exn_text (TypeError m) = m"
| "exn_text (AttributeError m) = m"
| "exn_text (IndexError m) = m"
| "exn_text StructError = ''struct.error''"
| "exn_text (OSErr k m) = m"
| "exn_text (FsError op code m) = m"

section \<open>Iterables of chunks\<close>

text \<open>
  A generator of byte chunks, when it is consumed to its end, is the list of the chunks it yields
  and the way it ends: None for StopIteration, Some e when pulling the next chunk raises e.
\<close>

type_synonym source = "bytes list \<times> exn option"

text \<open>
  The inner loop of every codec, \<open>while len(buffer) < needed: buffer += next(source)\<close>:
  the flag says whether enough bytes arrived before the source ended.
\<close>

fun pull :: "nat \<Rightarrow> bytes \<Rightarrow> bytes list \<Rightarrow> bool \<times> bytes \<times> bytes list" where
  "pull n buf [] = (n \<le> length buf, buf, [])"
| "pull n buf (c # cs) =
     (if n \<le> length buf then (True, buf, c # cs) else pull n (buf @ c) cs)"

lemma pull_concat: "pull n buf cs = (ok, buf', cs') \<Longrightarrow> buf' @ concat cs' = buf @ concat cs"
  by (induction n buf cs rule: pull.induct) (auto split: if_splits)

lemma pull_enough: "pull n buf cs = (True, buf', cs') \<Longrightarrow> n \<le> length buf'"
  by (induction n buf cs rule: pull.induct) (auto split: if_splits)

lemma pull_short: "pull n buf cs = (False, buf', cs') \<Longrightarrow>
    length buf' < n \<and> cs' = [] \<and> buf' = buf @ concat cs"
  by (induction n buf cs rule: pull.induct) (auto split: if_splits)

lemma pull_ok_iff:
  "pull n buf cs = (ok, buf', cs') \<Longrightarrow> ok \<longleftrightarrow> n \<le> length (buf @ concat cs)"
  by (induction n buf cs rule: pull.induct) (auto split: if_splits)

lemma pull_prefix: "pull n buf cs = (ok, buf', cs') \<Longrightarrow> \<exists>ys. buf' = buf @ ys"
  by (induction n buf cs rule: pull.induct) (auto split: if_splits)

lemma pull_suffix: "pull n buf cs = (ok, buf', cs') \<Longrightarrow> set cs' \<subseteq> set cs"
  by (induction n buf cs rule: pull.induct) (auto split: if_splits)

lemma pull_length: "pull n buf cs = (ok, buf', cs') \<Longrightarrow>
    length buf' + length (concat cs') = length buf + length (concat cs)"
  by (drule pull_concat) (metis length_append)

section \<open>Big-endian fields\<close>

text \<open>
  \<open>be_bytes n v\<close> is the n-byte big-endian encoding of v, \<open>be_int\<close> reads it back.
  \<open>pack_be\<close> adds the range check of struct.pack, which raises struct.error outside it.
\<close>

fun be_bytes :: "nat \<Rightarrow> int \<Rightarrow> bytes" where
  "be_bytes 0 v = []"
| "be_bytes (Suc n) v = word_of_int (v div 256 ^ n) # be_bytes n v"

fun be_int :: "bytes \<Rightarrow> int" where
  "be_int [] = 0"
| "be_int (b # bs) = uint b * 256 ^ length bs + be_int bs"

definition pack_be :: "nat \<Rightarrow> int \<Rightarrow> exn + bytes" where
  "pack_be n v = (if 0 \<le> v \<and> v < 256 ^ n then Inr (be_bytes n v) else Inl StructError)"

lemma length_be_bytes [simp, bytes_simps]: "length (be_bytes n v) = n"
  by (induction n) auto

lemma uint_byte_of_int: "uint (word_of_int v :: byte) = v mod 256"
  by (simp add: uint_word_of_int)

lemma be_int_be_bytes_mod: "be_int (be_bytes n v) = v mod 256 ^ n"
proof (induction n)
  case 0
  then show ?case by simp
next
  case (Suc n)
  have "v mod (256 ^ n * 256) = 256 ^ n * (v div 256 ^ n mod 256) + v mod 256 ^ n"
    by (rule zmod_zmult2_eq) simp
  then show ?case
    by (simp only: be_bytes.simps be_int.simps length_be_bytes uint_byte_of_int Suc.IH
        power_Suc2 mult.commute [of "v div 256 ^ n mod 256"])
qed

lemma be_int_be_bytes [bytes_simps]:
  "0 \<le> v \<Longrightarrow> v < 256 ^ n \<Longrightarrow> be_int (be_bytes n v) = v"
  by (simp add: be_int_be_bytes_mod)

lemma be_int_nonneg [simp]: "0 \<le> be_int bs"
  by (induction bs) auto

lemma uint_byte_less: "uint (b :: byte) < 256"
  using uint_lt2p [of b] by simp

lemma be_int_less: "be_int bs < 256 ^ length bs"
proof (induction bs)
  case Nil
  then show ?case by simp
next
  case (Cons b bs)
  have "uint b + 1 \<le> 256" using uint_byte_less [of b] by simp
  then have "(uint b + 1) * 256 ^ length bs \<le> (256::int) * 256 ^ length bs"
    by (rule mult_right_mono) simp
  then have "uint b * 256 ^ length bs + 256 ^ length bs \<le> 256 * 256 ^ length bs"
    by (simp only: distrib_right mult_1)
  with Cons have "uint b * 256 ^ length bs + be_int bs < 256 * 256 ^ length bs"
    by linarith
  then show ?case by (simp only: be_int.simps length_Cons power_Suc)
qed

lemma be_int_take_less: "be_int (take n bs) < 256 ^ n"
proof -
  have "be_int (take n bs) < 256 ^ length (take n bs)" by (rule be_int_less)
  also have "(256::int) ^ length (take n bs) \<le> 256 ^ n"
    by (rule power_increasing) auto
  finally show ?thesis .
qed

lemma be_bytes_mod: "be_bytes n (v mod 256 ^ m) = be_bytes n v" if "n \<le> m"
  using that
proof (induction n)
  case 0
  then show ?case by simp
next
  case (Suc n)
  obtain k where k: "m = n + Suc k"
    using Suc.prems by (metis add_Suc_right less_eq_Suc_le less_imp_Suc_add)
  have "v = 256 ^ m * (v div 256 ^ m) + v mod 256 ^ m" by simp
  also have "256 ^ m * (v div 256 ^ m) = 256 ^ n * (256 * (256 ^ k * (v div 256 ^ m)))"
    by (simp only: k power_add power_Suc mult.assoc)
  finally have "v div 256 ^ n = (v mod 256 ^ m + 256 ^ n * (256 * (256 ^ k * (v div 256 ^ m)))) div 256 ^ n"
    by (simp only: add.commute)
  also have "\<dots> = 256 * (256 ^ k * (v div 256 ^ m)) + v mod 256 ^ m div 256 ^ n"
    by (rule div_mult_self2) simp
  finally have "v mod 256 ^ m div 256 ^ n mod 256 = v div 256 ^ n mod 256"
    by (simp only: mod_mult_self4)
  then have "(word_of_int (v mod 256 ^ m div 256 ^ n) :: byte) = word_of_int (v div 256 ^ n)"
    by (simp add: word_of_int_eq_iff take_bit_eq_mod)
  with Suc show ?case by simp
qed

lemma be_bytes_be_int [bytes_simps]: "be_bytes (length bs) (be_int bs) = bs"
proof (induction bs)
  case Nil
  then show ?case by simp
next
  case (Cons b bs)
  have r: "be_int bs < 256 ^ length bs" "0 \<le> be_int bs" by (simp_all add: be_int_less)
  then have d: "(uint b * 256 ^ length bs + be_int bs) div 256 ^ length bs = uint b"
    by simp
  have "be_bytes (length bs) (uint b * 256 ^ length bs + be_int bs) = be_bytes (length bs) (be_int bs)"
    using be_bytes_mod [of "length bs" "length bs" "uint b * 256 ^ length bs + be_int bs"]
      be_bytes_mod [of "length bs" "length bs" "be_int bs"] by simp
  with Cons d show ?case by simp
qed

lemma be_int_inject: "length xs = length ys \<Longrightarrow> be_int xs = be_int ys \<longleftrightarrow> xs = ys"
  by (metis be_bytes_be_int)

lemma pack_be_Inr: "pack_be n v = Inr bs \<longleftrightarrow> 0 \<le> v \<and> v < 256 ^ n \<and> bs = be_bytes n v"
  by (auto simp: pack_be_def)

text \<open>A format string of several big-endian unsigned fields is the list of their widths.\<close>

fun pack_fields :: "(nat \<times> int) list \<Rightarrow> exn + bytes" where
  "pack_fields [] = Inr []"
| "pack_fields ((n, v) # fs) =
     (case pack_be n v of
        Inl e \<Rightarrow> Inl e
      | Inr bs \<Rightarrow> (case pack_fields fs of Inl e \<Rightarrow> Inl e | Inr rest \<Rightarrow> Inr (bs @ rest)))"

declare pack_fields.simps(2) [simp del]

lemma pack_fields_Inr [bytes_simps]:
  "pack_fields ((n, v) # fs) = Inr bs \<longleftrightarrow>
     0 \<le> v \<and> v < 256 ^ n \<and> (\<exists>rest. pack_fields fs = Inr rest \<and> bs = be_bytes n v @ rest)"
  by (auto simp: pack_fields.simps(2) pack_be_def split: sum.splits)

lemma pack_fields_Inl: "pack_fields fs = Inl e \<Longrightarrow> e = StructError"
  by (induction fs rule: pack_fields.induct) (auto simp: pack_fields.simps(2) pack_be_def split: sum.splits if_splits)

section \<open>Python text\<close>

text \<open>
  str values are char lists: the commands, replies and tokens of the program are ASCII, and
  case mapping and white space are modelled for ASCII.
\<close>

definition ord_char :: "char \<Rightarrow> nat" where
  "ord_char c = of_char c"

definition upper_char :: "char \<Rightarrow> char" where
  "upper_char c = (if 97 \<le> ord_char c \<and> ord_char c \<le> 122 then char_of (ord_char c - 32) else c)"

definition ascii_upper :: "string \<Rightarrow> string" where
  "ascii_upper s = map upper_char s"

definition is_space :: "char \<Rightarrow> bool" where
  "is_space c \<longleftrightarrow> ord_char c = 32 \<or> (9 \<le> ord_char c \<and> ord_char c \<le> 13)
     \<or> (28 \<le> ord_char c \<and> ord_char c \<le> 31)"

definition strip :: "string \<Rightarrow> string" where
  "strip s = rev (dropWhile is_space (rev (dropWhile is_space s)))"

definition digit_char :: "nat \<Rightarrow> char" where
  "digit_char d = char_of (48 + d)"

fun show_nat :: "nat \<Rightarrow> string" where
  "show_nat n = (if n < 10 then [digit_char n] else show_nat (n div 10) @ [digit_char (n mod 10)])"

declare show_nat.simps [simp del]

definition hex_char :: "nat \<Rightarrow> char" where
  "hex_char d = (if d < 10 then digit_char d else char_of (87 + d))"

fun show_hex :: "nat \<Rightarrow> string" where
  "show_hex n = (if n < 16 then [hex_char n] else show_hex (n div 16) @ [hex_char (n mod 16)])"

declare show_hex.simps [simp del]

definition show_hex_int :: "int \<Rightarrow> string" where
  "show_hex_int i = (if i < 0 then ''-0x'' @ show_hex (nat (- i)) else ''0x'' @ show_hex (nat i))"

definition show_int :: "int \<Rightarrow> string" where
  "show_int i = (if i < 0 then CHR ''-'' # show_nat (nat (- i)) else show_nat (nat i))"

text \<open>\<open>repr\<close> of a str of code points below 256, as \<open>!r\<close> interpolates it into messages.\<close>

definition printable :: "char \<Rightarrow> bool" where
  "printable c \<longleftrightarrow> (32 \<le> ord_char c \<and> ord_char c < 127) \<or> (160 < ord_char c \<and> ord_char c \<noteq> 173)"

definition hex2 :: "nat \<Rightarrow> string" where
  "hex2 n = [hex_char (n div 16 mod 16), hex_char (n mod 16)]"

definition repr_char :: "char \<Rightarrow> char \<Rightarrow> string" where
  "repr_char quote c =
     (if c = quote \<or> ord_char c = 92 then [char_of (92::nat), c]
      else if ord_char c = 9 then [char_of (92::nat), CHR ''t'']
      else if ord_char c = 10 then [char_of (92::nat), CHR ''n'']
      else if ord_char c = 13 then [char_of (92::nat), CHR ''r'']
      else if printable c then [c]
      else [char_of (92::nat), CHR ''x''] @ hex2 (ord_char c))"

definition py_repr :: "string \<Rightarrow> string" where
  "py_repr s =
     (let single = char_of (39::nat); double = char_of (34::nat);
          quote = (if single \<in> set s \<and> double \<notin> set s then double else single)
      in [quote] @ concat (map (repr_char quote) s) @ [quote])"

end
