(* ===== verification/Sha256.thy ===== *)
theory Sha256
  imports Prelude
begin

text \<open>
  SHA-256 as Python's hashlib computes it (FIPS 180-4). The program uses it to turn a textual
  transfer identifier into the 32-bit wire value and to answer the HASH command. Strings are
  encoded in UTF-8 first; the char model covers code points below 256.
\<close>

type_synonym w32 = "32 word"

definition ror :: "nat \<Rightarrow> w32 \<Rightarrow> w32" where
  "ror n x = word_rotr n x"

text \<open>The round constants and initial state, in decimal.\<close>

definition sha_k :: "w32 list" where
  "sha_k = [
     1116352408, 1899447441, 3049323471, 3921009573, 961987163, 1508970993,
     2453635748, 2870763221, 3624381080, 310598401, 607225278, 1426881987,
     1925078388, 2162078206, 2614888103, 3248222580, 3835390401, 4022224774,
     264347078, 604807628, 770255983, 1249150122, 1555081692, 1996064986,
     2554220882, 2821834349, 2952996808, 3210313671, 3336571891, 3584528711,
     113926993, 338241895, 666307205, 773529912, 1294757372, 1396182291,
     1695183700, 1986661051, 2177026350, 2456956037, 2730485921, 2820302411,
     3259730800, 3345764771, 3516065817, 3600352804, 4094571909, 275423344,
     430227734, 506948616, 659060556, 883997877, 958139571, 1322822218,
     1537002063, 1747873779, 1955562222, 2024104815, 2227730452, 2361852424,
     2428436474, 2756734187, 3204031479, 3329325298]"

definition sha_h0 :: "w32 list" where
  "sha_h0 = [
     1779033703, 3144134277, 1013904242, 2773480762, 1359893119, 2600822924,
     528734635, 1541459225]"

definition sig0 :: "w32 \<Rightarrow> w32" where
  "sig0 x = ror 7 x XOR ror 18 x XOR drop_bit 3 x"

definition sig1 :: "w32 \<Rightarrow> w32" where
  "sig1 x = ror 17 x XOR ror 19 x XOR drop_bit 10 x"

text \<open>The message schedule: n more words after the ones in w.\<close>

fun sha_schedule :: "nat \<Rightarrow> w32 list \<Rightarrow> w32 list" where
  "sha_schedule 0 w = w"
| "sha_schedule (Suc n) w =
     (let t = length w
      in sha_schedule n (w @ [sig1 (w ! (t - 2)) + w ! (t - 7) + sig0 (w ! (t - 15)) + w ! (t - 16)]))"

fun sha_round :: "w32 list \<Rightarrow> w32 \<times> w32 \<Rightarrow> w32 list" where
  "sha_round [a, b, c, d, e, f, g, h] (k, w) =
     (let t1 = h + (ror 6 e XOR ror 11 e XOR ror 25 e) + ((e AND f) XOR (NOT e AND g)) + k + w;
          t2 = (ror 2 a XOR ror 13 a XOR ror 22 a) + ((a AND b) XOR (a AND c) XOR (b AND c))
      in [t1 + t2, a, b, c, d + t1, e, f, g])"
| "sha_round st kw = st"

fun words_be :: "nat \<Rightarrow> bytes \<Rightarrow> w32 list" where
  "words_be 0 bs = []"
| "words_be (Suc n) bs = word_of_int (be_int (take 4 bs)) # words_be n (drop 4 bs)"

definition sha_block :: "w32 list \<Rightarrow> bytes \<Rightarrow> w32 list" where
  "sha_block st block =
     map2 (+) st (foldl sha_round st (zip sha_k (sha_schedule 48 (words_be 16 block))))"

definition sha_pad :: "bytes \<Rightarrow> bytes" where
  "sha_pad bs = bs @ [0x80] @ replicate ((119 - length bs mod 64) mod 64) 0
                 @ be_bytes 8 (8 * int (length bs))"

fun sha_blocks :: "nat \<Rightarrow> w32 list \<Rightarrow> bytes \<Rightarrow> w32 list" where
  "sha_blocks 0 st bs = st"
| "sha_blocks (Suc n) st bs = sha_blocks n (sha_block st (take 64 bs)) (drop 64 bs)"

definition sha256 :: "bytes \<Rightarrow> bytes" where
  "sha256 bs = (let p = sha_pad bs
     in concat (map (\<lambda>w. be_bytes 4 (uint w)) (sha_blocks (length p div 64) sha_h0 p)))"

text \<open>str.encode("utf-8") and digest.hexdigest().\<close>

definition utf8_char :: "char \<Rightarrow> bytes" where
  "utf8_char c = (let n = int (ord_char c)
     in if n < 128 then [word_of_int n]
        else [word_of_int (192 + n div 64), word_of_int (128 + n mod 64)])"

definition utf8_encode :: "string \<Rightarrow> bytes" where
  "utf8_encode s = concat (map utf8_char s)"

definition hex_byte :: "byte \<Rightarrow> string" where
  "hex_byte b = [hex_char (unat b div 16), hex_char (unat b mod 16)]"

definition hexdigest :: "bytes \<Rightarrow> string" where
  "hexdigest bs = concat (map hex_byte bs)"

section \<open>Shape of the digest\<close>

lemma length_sha_round: "length (sha_round st kw) = length st"
  by (cases "(st, kw)" rule: sha_round.cases) (simp_all add: Let_def)

lemma length_sha_rounds: "length (foldl sha_round st kws) = length st"
  by (induction kws arbitrary: st) (simp_all add: length_sha_round)

lemma length_sha_block [simp]: "length (sha_block st block) = length st"
  by (simp add: sha_block_def length_sha_rounds)

lemma length_sha_blocks: "length (sha_blocks n st bs) = length st"
  by (induction n arbitrary: st bs) simp_all

lemma concat_be4: "length (concat (map (\<lambda>w. be_bytes 4 (f w)) ws)) = 4 * length ws"
  by (induction ws) simp_all

lemma length_sha256: "length (sha256 bs) = 32"
  by (simp add: sha256_def Let_def concat_be4 length_sha_blocks sha_h0_def)

lemma length_sha_pad: "64 dvd length (sha_pad bs)"
proof -
  define q r where "q = length bs div 64" and "r = length bs mod 64"
  have len: "length bs = 64 * q + r" and r: "r < 64" by (simp_all add: q_def r_def)
  have z: "(119 - r) mod 64 = (if r \<le> 55 then 55 - r else 119 - r)"
    using r by (simp add: mod_if)
  have "length (sha_pad bs) = length bs + 1 + (119 - r) mod 64 + 8"
    by (simp add: sha_pad_def r_def)
  also have "\<dots> = 64 * (q + (if r \<le> 55 then 1 else 2))"
    unfolding z len using r by simp
  finally show ?thesis by simp
qed

section \<open>Hexadecimal digits\<close>

definition hex_value :: "char \<Rightarrow> int" where
  "hex_value c = (if ord_char c < 58 then int (ord_char c) - 48 else int (ord_char c) - 87)"

text \<open>int(s, 16) on lower-case hexadecimal digits.\<close>

definition int_base16 :: "string \<Rightarrow> int" where
  "int_base16 s = foldl (\<lambda>a c. a * 16 + hex_value c) 0 s"

lemma hex_value_char: "d < 16 \<Longrightarrow> hex_value (hex_char d) = int d"
  by (simp add: hex_value_def hex_char_def digit_char_def ord_char_def)

lemma foldl_hexdigest:
  "foldl (\<lambda>a c. a * 16 + hex_value c) i (hexdigest bs) = i * 256 ^ length bs + be_int bs"
proof (induction bs arbitrary: i)
  case Nil
  then show ?case by (simp add: hexdigest_def)
next
  case (Cons b bs)
  have n: "unat b div 16 < 16" "unat b mod 16 < 16"
    using unsigned_less [of b, where 'a=nat] by (simp_all add: less_mult_imp_div_less)
  have v: "(i * 16 + int (unat b div 16)) * 16 + int (unat b mod 16) = i * 256 + uint b"
    by (simp add: zdiv_int zmod_int flip: uint_nat)
  have "foldl (\<lambda>a c. a * 16 + hex_value c) i (hexdigest (b # bs)) =
      foldl (\<lambda>a c. a * 16 + hex_value c)
        ((i * 16 + int (unat b div 16)) * 16 + int (unat b mod 16)) (hexdigest bs)"
    by (simp only: hexdigest_def hex_byte_def list.map concat.simps append_Cons append_Nil
        foldl_Cons hex_value_char n)
  then show ?case
    unfolding v Cons.IH by (simp add: algebra_simps)
qed

lemma int_base16_hexdigest: "int_base16 (hexdigest bs) = be_int bs"
  by (simp add: int_base16_def foldl_hexdigest)

lemma take_hexdigest: "take (2 * n) (hexdigest bs) = hexdigest (take n bs)"
proof (induction bs arbitrary: n)
  case Nil
  then show ?case by (simp add: hexdigest_def)
next
  case (Cons b bs)
  then show ?case by (cases n) (simp_all add: hexdigest_def hex_byte_def)
qed

end
