(* ===== verification/Crc32.thy ===== *)
theory Crc32
  imports Prelude
begin

text \<open>
  The CRC-32 of Python's zlib module: reflected polynomial 0xEDB88320, initial register and final
  complement 0xFFFFFFFF. zlib.crc32 is the only integrity check of the data channel, so its model
  is the real function and the detection lemma below is what the packet layer rests on: two
  messages that differ only inside a window of at most four consecutive bytes never collide.
\<close>

definition crc_poly :: "32 word" where
  "crc_poly = 0xEDB88320"

definition crc_bit :: "32 word \<Rightarrow> 32 word" where
  "crc_bit s = (if bit s 0 then drop_bit 1 s XOR crc_poly else drop_bit 1 s)"

definition crc_byte :: "32 word \<Rightarrow> byte \<Rightarrow> 32 word" where
  "crc_byte s b = (crc_bit ^^ 8) (s XOR ucast b)"

definition crc32 :: "bytes \<Rightarrow> 32 word" where
  "crc32 bs = NOT (foldl crc_byte 0xFFFFFFFF bs)"

section \<open>The register update is a bijection\<close>

lemma bit_crc_poly_31: "bit crc_poly 31"
  by (simp add: crc_poly_def)

lemma bit_crc_bit_31: "bit (crc_bit s) 31 \<longleftrightarrow> bit s 0"
  using bit_imp_le_length [of s 32] by (auto simp: crc_bit_def bit_simps bit_crc_poly_31)

lemma xor_cancel: "(a :: 'a::len word) XOR b = c XOR b \<longleftrightarrow> a = c"
  by (metis xor.assoc xor_self_eq xor.right_neutral)

lemma crc_bit_inject: "crc_bit s = crc_bit t \<longleftrightarrow> s = t"
proof
  assume eq: "crc_bit s = crc_bit t"
  then have b0: "bit s 0 \<longleftrightarrow> bit t 0"
    using bit_crc_bit_31 [of s] bit_crc_bit_31 [of t] by simp
  with eq have d: "drop_bit 1 s = drop_bit 1 t"
    by (auto simp: crc_bit_def xor_cancel split: if_splits)
  show "s = t"
  proof (rule bit_word_eqI)
    fix n :: nat
    assume "n < LENGTH(32)"
    show "bit s n \<longleftrightarrow> bit t n"
    proof (cases n)
      case 0
      with b0 show ?thesis by simp
    next
      case (Suc m)
      with d have "bit (drop_bit 1 s) m \<longleftrightarrow> bit (drop_bit 1 t) m" by simp
      with Suc show ?thesis by (simp add: bit_drop_bit_eq)
    qed
  qed
qed simp

lemma crc_bits_inject: "(crc_bit ^^ n) s = (crc_bit ^^ n) t \<longleftrightarrow> s = t"
  by (induction n) (simp_all add: crc_bit_inject)

lemma crc_byte_inject: "crc_byte s b = crc_byte t b \<longleftrightarrow> s = t"
  by (simp add: crc_byte_def crc_bits_inject xor_cancel)

lemma crc_fold_inject: "foldl crc_byte s bs = foldl crc_byte t bs \<longleftrightarrow> s = t"
  by (induction bs arbitrary: s t) (simp_all add: crc_byte_inject)

section \<open>Absorbing up to four bytes is one XOR\<close>

fun le_word :: "bytes \<Rightarrow> 32 word" where
  "le_word [] = 0"
| "le_word (b # bs) = ucast b XOR push_bit 8 (le_word bs)"

lemma crc_bit_xor_even: "\<not> bit y 0 \<Longrightarrow> crc_bit (s XOR y) = crc_bit s XOR drop_bit 1 y"
  by (auto simp: crc_bit_def bit_simps drop_bit_xor xor.assoc xor.commute xor.left_commute)

lemma crc_bits_xor:
  "(\<And>i. i < n \<Longrightarrow> \<not> bit y i) \<Longrightarrow> (crc_bit ^^ n) (s XOR y) = (crc_bit ^^ n) s XOR drop_bit n y"
proof (induction n arbitrary: s y)
  case 0
  then show ?case by simp
next
  case (Suc n)
  have e: "crc_bit (s XOR y) = crc_bit s XOR drop_bit 1 y"
    using Suc.prems [of 0] by (simp add: crc_bit_xor_even)
  have "\<And>i. i < n \<Longrightarrow> \<not> bit (drop_bit 1 y) i"
    using Suc.prems by (simp add: bit_drop_bit_eq)
  from Suc.IH [OF this, of "crc_bit s"] show ?case
    by (simp add: funpow_Suc_right e del: funpow.simps)
qed

lemma bit_le_word_high: "bit (le_word bs) i \<Longrightarrow> i < 8 * length bs"
proof (induction bs arbitrary: i)
  case Nil
  then show ?case by simp
next
  case (Cons b bs)
  from Cons.prems have "bit (ucast b :: 32 word) i \<or> (8 \<le> i \<and> bit (le_word bs) (i - 8))"
    by (auto simp: bit_simps)
  then show ?case
  proof
    assume "bit (ucast b :: 32 word) i"
    then have "i < 8" using bit_imp_le_length [of b i] by (simp add: bit_simps)
    then show ?thesis by simp
  next
    assume "8 \<le> i \<and> bit (le_word bs) (i - 8)"
    then show ?thesis using Cons.IH [of "i - 8"] by simp
  qed
qed

lemma drop_push_le_word: "length bs \<le> 3 \<Longrightarrow> drop_bit 8 (push_bit 8 (le_word bs)) = le_word bs"
  using bit_le_word_high [of bs] by (intro bit_word_eqI) (fastforce simp: bit_simps)

lemma crc_fold_le_word:
  "length bs \<le> 4 \<Longrightarrow> foldl crc_byte s bs = (crc_bit ^^ (8 * length bs)) (s XOR le_word bs)"
proof (induction bs arbitrary: s)
  case Nil
  then show ?case by simp
next
  case (Cons b bs)
  let ?y = "push_bit 8 (le_word bs)"
  have "(crc_bit ^^ 8) ((s XOR ucast b) XOR ?y) = crc_byte s b XOR le_word bs"
    using crc_bits_xor [of 8 ?y "s XOR ucast b"] Cons.prems
    by (simp add: crc_byte_def drop_push_le_word bit_simps)
  moreover have "foldl crc_byte s (b # bs) =
      (crc_bit ^^ (8 * length bs)) (crc_byte s b XOR le_word bs)"
    using Cons by simp
  ultimately show ?case
    by (simp add: funpow_add funpow_swap1 xor.assoc add.commute [of 8])
qed

lemma le_word_inject:
  "length xs = length ys \<Longrightarrow> length xs \<le> 4 \<Longrightarrow> le_word xs = le_word ys \<Longrightarrow> xs = ys"
proof (induction xs ys rule: list_induct2)
  case Nil
  then show ?case by simp
next
  case (Cons x xs y ys)
  have low: "ucast (ucast (b::byte) XOR push_bit 8 (w :: 32 word)) = b" for b w
    by (rule bit_word_eqI) (auto simp: bit_simps)
  have high: "drop_bit 8 (ucast (b::byte) XOR push_bit 8 (w :: 32 word)) = drop_bit 8 (push_bit 8 w)"
    for b w
    by (rule bit_word_eqI) (use bit_imp_le_length [of b] in \<open>fastforce simp: bit_simps\<close>)
  have "x = y"
    using Cons.prems(2) low [of x "le_word xs"] low [of y "le_word ys"] by simp
  moreover have "le_word xs = le_word ys"
    using Cons.prems Cons.hyps high [of x "le_word xs"] high [of y "le_word ys"]
    by (simp add: drop_push_le_word)
  ultimately show ?case using Cons by simp
qed

section \<open>Detection of short bursts\<close>

lemma crc32_burst:
  assumes "length m = length m'" and "length m \<le> 4" and "m \<noteq> m'"
  shows "crc32 (pre @ m @ post) \<noteq> crc32 (pre @ m' @ post)"
proof
  let ?s = "foldl crc_byte 0xFFFFFFFF pre"
  assume "crc32 (pre @ m @ post) = crc32 (pre @ m' @ post)"
  then have "foldl crc_byte (foldl crc_byte ?s m) post = foldl crc_byte (foldl crc_byte ?s m') post"
    by (simp add: crc32_def)
  then have "?s XOR le_word m = ?s XOR le_word m'"
    using assms by (simp add: crc_fold_inject crc_fold_le_word crc_bits_inject)
  then have "le_word m = le_word m'"
    using xor_cancel [of "le_word m" ?s "le_word m'"] by (simp add: xor.commute)
  with le_word_inject assms show False by blast
qed

section \<open>The contract the packet layer uses\<close>

text \<open>
  What the packet layer needs of its checksum: any change confined to four consecutive bytes of the
  checked text changes the value. The consequences for a stored checksum are proved here once.
\<close>

locale burst_checksum =
  fixes crc :: "bytes \<Rightarrow> 32 word"
  assumes burst: "length m = length m' \<Longrightarrow> length m \<le> 4 \<Longrightarrow> m \<noteq> m' \<Longrightarrow>
    crc (pre @ m @ post) \<noteq> crc (pre @ m' @ post)"
begin

lemma stored_mismatch:
  assumes "stored = uint (crc (pre @ m @ post))"
    and "length m = length m'" and "length m \<le> 4" and "m \<noteq> m'"
  shows "stored \<noteq> uint (crc (pre @ m' @ post))"
  using burst [OF assms(2-4), of pre post] assms(1) by (simp add: word_uint_eq_iff)

lemma one_byte_mismatch:
  assumes "stored = uint (crc (pre @ b # post))" and "b \<noteq> b'"
  shows "stored \<noteq> uint (crc (pre @ b' # post))"
  using stored_mismatch [of stored pre "[b]" post "[b']"] assms by simp

end

interpretation zlib: burst_checksum crc32
  by unfold_locales (rule crc32_burst)

section \<open>Published check values\<close>

lemma crc_byte_unroll:
  "crc_byte s b = (let t = s XOR ucast b in
     crc_bit (crc_bit (crc_bit (crc_bit (crc_bit (crc_bit (crc_bit (crc_bit t))))))))"
  by (simp add: crc_byte_def eval_nat_numeral)

lemma crc32_empty: "crc32 [] = 0"
  by (simp add: crc32_def)

lemma crc32_letter_a: "crc32 [0x61] = 0xE8B7BE43"
  by (simp add: crc_bit_def crc_poly_def crc_byte_unroll crc32_def)

end
