(* ===== verification/RDT_Header.thy ===== *)
theory RDT_Header
  imports Crc32
begin

text \<open>
  The canonical 20-byte RDT header of common/RDTHeader.py: its fields, wire format, flag sets and
  checksum. Header fields are Python integers, so packing may raise; the checksum covers every
  field but itself, with the payload length widened to four bytes, followed by the payload.
\<close>

section \<open>The header and its wire format\<close>

record rdt_header =
  h_transfer_id :: int
  h_seq_num :: int
  h_ack_num :: int
  h_flags :: int
  h_checksum :: int
  h_length :: int

definition header_size :: nat where
  "header_size = 20"

definition FLAG_DATA :: int where "FLAG_DATA = 1"
definition FLAG_ACK :: int where "FLAG_ACK = 2"
definition FLAG_FIN :: int where "FLAG_FIN = 4"
definition FLAG_START :: int where "FLAG_START = 8"
definition FLAG_ABORT :: int where "FLAG_ABORT = 16"

lemmas flag_defs = FLAG_DATA_def FLAG_ACK_def FLAG_FIN_def FLAG_START_def FLAG_ABORT_def

definition is_valid_flags :: "int \<Rightarrow> bool" where
  "is_valid_flags f \<longleftrightarrow> f \<in> {FLAG_DATA, FLAG_FIN, FLAG_DATA OR FLAG_FIN, FLAG_ACK, FLAG_START, FLAG_ABORT}"

definition has_flag :: "int \<Rightarrow> int \<Rightarrow> bool" where
  "has_flag f m \<longleftrightarrow> f AND m \<noteq> 0"

definition serialize :: "rdt_header \<Rightarrow> exn + bytes" where
  "serialize h =
     (if \<not> is_valid_flags (h_flags h) then Inl (ValueError (''Invalid RDT flags: '' @ show_hex_int (h_flags h)))
      else if \<not> (0 \<le> h_length h \<and> h_length h \<le> 0xFFFF)
        then Inl (ValueError ''RDT payload length out of range'')
      else pack_fields [(4, h_transfer_id h), (4, h_seq_num h), (4, h_ack_num h),
             (2, h_flags h), (4, h_checksum h), (2, h_length h)])"

definition deserialize :: "bytes \<Rightarrow> exn + rdt_header" where
  "deserialize data =
     (if length data < header_size then Inl (ValueError (''Data is too short: '' @ show_nat (length data) @ '' < 20''))
      else Inr \<lparr> h_transfer_id = be_int (take 4 data),
                 h_seq_num = be_int (take 4 (drop 4 data)),
                 h_ack_num = be_int (take 4 (drop 8 data)),
                 h_flags = be_int (take 2 (drop 12 data)),
                 h_checksum = be_int (take 4 (drop 14 data)),
                 h_length = be_int (take 2 (drop 18 data)) \<rparr>)"

definition validate_length :: "rdt_header \<Rightarrow> bytes \<Rightarrow> bool" where
  "validate_length h packet \<longleftrightarrow>
     (let available = int (length packet) - int header_size
      in 0 \<le> h_length h \<and> h_length h = available)"

definition compute_checksum :: "rdt_header \<Rightarrow> bytes \<Rightarrow> exn + int" where
  "compute_checksum h payload =
     (case pack_fields [(4, h_transfer_id h), (4, h_seq_num h), (4, h_ack_num h),
             (2, h_flags h), (4, h_length h)] of
        Inl e \<Rightarrow> Inl e
      | Inr header_fields \<Rightarrow> Inr (uint (crc32 (header_fields @ payload))))"

definition verify_checksum :: "rdt_header \<Rightarrow> bytes \<Rightarrow> exn + bool" where
  "verify_checksum h payload =
     (case compute_checksum h payload of Inl e \<Rightarrow> Inl e | Inr c \<Rightarrow> Inr (h_checksum h = c))"

text \<open>
  Every datagram of the program is built the same way: a header with the payload's length, its
  checksum computed over the payload, then the serialized header followed by the payload.
\<close>

definition make_packet :: "int \<Rightarrow> int \<Rightarrow> int \<Rightarrow> int \<Rightarrow> bytes \<Rightarrow> exn + bytes" where
  "make_packet tid seq ack flags payload =
     (let h = \<lparr> h_transfer_id = tid, h_seq_num = seq, h_ack_num = ack, h_flags = flags,
                h_checksum = 0, h_length = int (length payload) \<rparr>
      in case compute_checksum h payload of
           Inl e \<Rightarrow> Inl e
         | Inr c \<Rightarrow>
             (case serialize (h\<lparr>h_checksum := c\<rparr>) of
                Inl e \<Rightarrow> Inl e
              | Inr hb \<Rightarrow> Inr (hb @ payload)))"

section \<open>Round trips\<close>

lemma valid_flags_iff: "is_valid_flags f \<longleftrightarrow> f \<in> {1, 4, 5, 2, 8, 16}"
  by (simp add: is_valid_flags_def flag_defs)

lemma valid_flags_range: "is_valid_flags f \<Longrightarrow> 0 \<le> f \<and> f < 65536"
  by (auto simp: valid_flags_iff)

lemma serialize_fields:
  "serialize h = Inr bs \<longleftrightarrow>
     is_valid_flags (h_flags h) \<and> 0 \<le> h_length h \<and> h_length h \<le> 0xFFFF
     \<and> 0 \<le> h_transfer_id h \<and> h_transfer_id h < 256 ^ 4
     \<and> 0 \<le> h_seq_num h \<and> h_seq_num h < 256 ^ 4
     \<and> 0 \<le> h_ack_num h \<and> h_ack_num h < 256 ^ 4
     \<and> 0 \<le> h_checksum h \<and> h_checksum h < 256 ^ 4
     \<and> bs = be_bytes 4 (h_transfer_id h) @ be_bytes 4 (h_seq_num h) @ be_bytes 4 (h_ack_num h)
            @ be_bytes 2 (h_flags h) @ be_bytes 4 (h_checksum h) @ be_bytes 2 (h_length h)"
proof (cases "is_valid_flags (h_flags h) \<and> 0 \<le> h_length h \<and> h_length h \<le> 0xFFFF")
  case True
  then have "0 \<le> h_flags h \<and> h_flags h < 65536" "h_length h < 65536"
    using valid_flags_range by auto
  with True show ?thesis
    by (simp add: serialize_def pack_fields_Inr del: be_bytes.simps)
next
  case False
  then have "serialize h \<noteq> Inr bs" by (simp add: serialize_def)
  with False show ?thesis by blast
qed

lemma length_serialize: "serialize h = Inr bs \<Longrightarrow> length bs = header_size"
  by (auto simp: serialize_fields header_size_def)

lemma serialize_deserialize:
  assumes "serialize h = Inr bs"
  shows "deserialize (bs @ payload) = Inr h"
  using assms valid_flags_range [of "h_flags h"]
  by (auto simp: serialize_fields deserialize_def header_size_def be_int_be_bytes
      simp del: be_bytes.simps)

lemma deserialize_Inr_iff: "(\<exists>h. deserialize d = Inr h) \<longleftrightarrow> header_size \<le> length d"
  by (auto simp: deserialize_def)

lemma deserialize_Inr:
  "deserialize d = Inr h \<longleftrightarrow> header_size \<le> length d \<and>
     h = \<lparr> h_transfer_id = be_int (take 4 d), h_seq_num = be_int (take 4 (drop 4 d)),
           h_ack_num = be_int (take 4 (drop 8 d)), h_flags = be_int (take 2 (drop 12 d)),
           h_checksum = be_int (take 4 (drop 14 d)), h_length = be_int (take 2 (drop 18 d)) \<rparr>"
  by (auto simp: deserialize_def)

lemma deserialize_ranges:
  assumes "deserialize d = Inr h"
  shows "0 \<le> h_transfer_id h" "h_transfer_id h < 256 ^ 4"
    "0 \<le> h_seq_num h" "h_seq_num h < 256 ^ 4"
    "0 \<le> h_ack_num h" "h_ack_num h < 256 ^ 4"
    "0 \<le> h_flags h" "h_flags h < 256 ^ 2"
    "0 \<le> h_checksum h" "h_checksum h < 256 ^ 4"
    "0 \<le> h_length h" "h_length h < 256 ^ 2"
  using assms be_int_take_less [of 4 "d"] be_int_take_less [of 4 "drop 4 d"]
    be_int_take_less [of 4 "drop 8 d"] be_int_take_less [of 2 "drop 12 d"]
    be_int_take_less [of 4 "drop 14 d"] be_int_take_less [of 2 "drop 18 d"]
  by (simp_all add: deserialize_Inr)

text \<open>Splitting a datagram of header length or more into its six wire fields.\<close>

lemma wire_split:
  assumes "20 \<le> length d"
  shows "d = take 4 d @ take 4 (drop 4 d) @ take 4 (drop 8 d) @ take 2 (drop 12 d)
           @ take 4 (drop 14 d) @ take 2 (drop 18 d) @ drop 20 d"
proof -
  have "take 4 (drop n d) @ drop (n + 4) d = drop n d" "take 2 (drop n d) @ drop (n + 2) d = drop n d"
    for n
    by (metis append_take_drop_id drop_drop add.commute)+
  from this(1) [of 0] this(1) [of 4] this(1) [of 8] this(2) [of 12] this(1) [of 14] this(2) [of 18]
  show ?thesis by simp
qed

lemma be_bytes_field: "length (take n xs) = n \<Longrightarrow> be_bytes n (be_int (take n xs)) = take n xs"
  by (metis be_bytes_be_int)

lemma deserialize_serialize:
  assumes "deserialize d = Inr h" and "is_valid_flags (h_flags h)"
  shows "serialize h = Inr (take header_size d)"
proof -
  have len: "20 \<le> length d"
    using assms(1) by (simp add: deserialize_Inr header_size_def)
  have "take 20 d = take 4 d @ take 4 (drop 4 d) @ take 4 (drop 8 d) @ take 2 (drop 12 d)
      @ take 4 (drop 14 d) @ take 2 (drop 18 d)"
    using arg_cong [OF wire_split [OF len], of "take 20"] len by simp
  then show ?thesis
    using assms deserialize_ranges [OF assms(1)] len
    by (simp add: serialize_fields header_size_def deserialize_Inr be_bytes_field)
qed

section \<open>Checksums\<close>

text \<open>The bytes the checksum of a received datagram is computed over.\<close>

definition crc_input :: "bytes \<Rightarrow> bytes" where
  "crc_input d = take 14 d @ [0, 0] @ drop 18 d"

lemma be_bytes_4_short: "length bs = 2 \<Longrightarrow> be_bytes 4 (be_int bs) = [0, 0] @ bs"
proof -
  assume "length bs = 2"
  moreover have "be_int ([0, 0] @ bs) = be_int bs" by simp
  ultimately show ?thesis
    using be_bytes_be_int [of "[0, 0] @ bs"] by (simp add: numeral_eq_Suc)
qed

lemma compute_checksum_received:
  assumes "deserialize d = Inr h"
  shows "compute_checksum h (drop header_size d) = Inr (uint (crc32 (crc_input d)))"
proof -
  have len: "20 \<le> length d"
    using assms by (simp add: deserialize_Inr header_size_def)
  have s: "pack_fields [(4, h_transfer_id h), (4, h_seq_num h), (4, h_ack_num h),
      (2, h_flags h), (4, h_length h)] =
    Inr (take 4 d @ take 4 (drop 4 d) @ take 4 (drop 8 d) @ take 2 (drop 12 d)
      @ [0, 0] @ take 2 (drop 18 d))"
    using assms len deserialize_ranges [OF assms]
    by (simp add: pack_fields_Inr deserialize_Inr be_bytes_field be_bytes_4_short)
  have "take 14 d = take 4 d @ take 4 (drop 4 d) @ take 4 (drop 8 d) @ take 2 (drop 12 d)"
    using arg_cong [OF wire_split [OF len], of "take 14"] len by simp
  moreover have "drop 18 d = take 2 (drop 18 d) @ drop 20 d"
    using append_take_drop_id [of 2 "drop 18 d"] by simp
  ultimately show ?thesis
    by (simp add: compute_checksum_def s crc_input_def header_size_def)
qed

text \<open>On a received header the checksum never raises, whatever the payload.\<close>

lemma compute_checksum_total:
  assumes "deserialize d = Inr h"
  shows "\<exists>c. compute_checksum h payload = Inr c"
  using compute_checksum_received [OF assms]
  by (auto simp: compute_checksum_def split: sum.splits)

lemma verify_checksum_received:
  assumes "deserialize d = Inr h"
  shows "verify_checksum h (drop header_size d) = Inr (h_checksum h = uint (crc32 (crc_input d)))"
  by (simp add: verify_checksum_def compute_checksum_received [OF assms])

section \<open>Packets\<close>

lemma make_packet_Inr:
  "make_packet tid seq ack flags payload = Inr d \<longleftrightarrow>
     is_valid_flags flags \<and> length payload \<le> 0xFFFF
     \<and> 0 \<le> tid \<and> tid < 256 ^ 4 \<and> 0 \<le> seq \<and> seq < 256 ^ 4 \<and> 0 \<le> ack \<and> ack < 256 ^ 4
     \<and> (\<exists>c. compute_checksum \<lparr> h_transfer_id = tid, h_seq_num = seq, h_ack_num = ack,
              h_flags = flags, h_checksum = 0, h_length = int (length payload) \<rparr> payload = Inr c
          \<and> d = be_bytes 4 tid @ be_bytes 4 seq @ be_bytes 4 ack @ be_bytes 2 flags
                @ be_bytes 4 c @ be_bytes 2 (int (length payload)) @ payload)"
  (is "?l = ?r")
proof -
  let ?h = "\<lparr> h_transfer_id = tid, h_seq_num = seq, h_ack_num = ack,
              h_flags = flags, h_checksum = 0, h_length = int (length payload) \<rparr>"
  have c: "0 \<le> c \<and> c < 256 ^ 4" if "compute_checksum ?h payload = Inr c" for c
    using that uint_lt2p [where 'a=32] by (auto simp: compute_checksum_def split: sum.splits)
  show ?thesis
  proof (cases "compute_checksum ?h payload")
    case (Inl e)
    then show ?thesis by (simp add: make_packet_def)
  next
    case (Inr c)
    with c have cr: "0 \<le> c \<and> c < 256 ^ 4" by blast
    have "make_packet tid seq ack flags payload = Inr d \<longleftrightarrow>
      (\<exists>hb. serialize (?h\<lparr>h_checksum := c\<rparr>) = Inr hb \<and> d = hb @ payload)"
      by (auto simp: make_packet_def Inr split: sum.splits)
    also have "\<dots> \<longleftrightarrow> ?r"
      unfolding serialize_fields using cr Inr by simp
    finally show ?thesis .
  qed
qed

lemma make_packet_ok:
  assumes "is_valid_flags flags" and "length payload \<le> 0xFFFF"
    and "0 \<le> tid" "tid < 256 ^ 4" "0 \<le> seq" "seq < 256 ^ 4" "0 \<le> ack" "ack < 256 ^ 4"
  shows "\<exists>d. make_packet tid seq ack flags payload = Inr d"
proof -
  let ?h = "\<lparr> h_transfer_id = tid, h_seq_num = seq, h_ack_num = ack,
              h_flags = flags, h_checksum = 0, h_length = int (length payload) \<rparr>"
  have "pack_fields [(4, tid), (4, seq), (4, ack), (2, flags), (4, int (length payload))] =
      Inr (be_bytes 4 tid @ be_bytes 4 seq @ be_bytes 4 ack @ be_bytes 2 flags
        @ be_bytes 4 (int (length payload)))"
    using assms valid_flags_range [OF assms(1)] by (simp add: pack_fields_Inr)
  then have "\<exists>c. compute_checksum ?h payload = Inr c" by (simp add: compute_checksum_def)
  with assms show ?thesis by (auto simp: make_packet_Inr)
qed

text \<open>A packet the program builds parses back to its header and passes every receiver check.\<close>

lemma make_packet_parses:
  assumes "make_packet tid seq ack flags payload = Inr d"
  shows "\<exists>h. deserialize d = Inr h \<and> h_transfer_id h = tid \<and> h_seq_num h = seq \<and> h_ack_num h = ack
    \<and> h_flags h = flags \<and> h_length h = int (length payload) \<and> validate_length h d
    \<and> verify_checksum h payload = Inr True \<and> drop header_size d = payload
    \<and> length d = header_size + length payload"
proof -
  let ?h = "\<lparr> h_transfer_id = tid, h_seq_num = seq, h_ack_num = ack,
              h_flags = flags, h_checksum = 0, h_length = int (length payload) \<rparr>"
  from assms obtain c hb where c: "compute_checksum ?h payload = Inr c"
    and hb: "serialize (?h\<lparr>h_checksum := c\<rparr>) = Inr hb" and d: "d = hb @ payload"
    by (auto simp: make_packet_def Let_def split: sum.splits)
  have "compute_checksum (?h\<lparr>h_checksum := c\<rparr>) payload = Inr c"
    using c by (simp add: compute_checksum_def)
  then show ?thesis
    using serialize_deserialize [OF hb, of payload] length_serialize [OF hb]
    by (auto simp: d validate_length_def verify_checksum_def)
qed

section \<open>Integrity of a received datagram\<close>

text \<open>The checks every payload-carrying datagram has to pass before it is used.\<close>

definition intact :: "bytes \<Rightarrow> bool" where
  "intact d = (case deserialize d of
     Inl e \<Rightarrow> False
   | Inr h \<Rightarrow> validate_length h d \<and> is_valid_flags (h_flags h)
       \<and> verify_checksum h (drop header_size d) = Inr True)"

lemma make_packet_intact: "make_packet tid seq ack flags payload = Inr d \<Longrightarrow> intact d"
  using make_packet_parses [of tid seq ack flags payload d]
  by (auto simp: intact_def make_packet_Inr)

lemma intact_checksum:
  assumes "intact d"
  shows "be_int (take 4 (drop 14 d)) = uint (crc32 (crc_input d))"
proof -
  from assms obtain h where h: "deserialize d = Inr h"
    and v: "verify_checksum h (drop header_size d) = Inr True"
    by (auto simp: intact_def split: sum.splits)
  then show ?thesis
    using verify_checksum_received [OF h] by (simp add: deserialize_Inr)
qed

text \<open>
  Three places a burst of at most four consecutive bytes can hit: the header before the checksum
  field, the checksum field alone, and the length field with the payload.
\<close>

definition burst_fits :: "nat \<Rightarrow> nat \<Rightarrow> bool" where
  "burst_fits at n \<longleftrightarrow> n \<le> 4 \<and> (at + n \<le> 14 \<or> (14 \<le> at \<and> at + n \<le> 18) \<or> 18 \<le> at)"

text \<open>How a burst at a given place moves through the checksum input and the stored checksum.\<close>

lemma crc_input_low:
  assumes "length pre + length m \<le> 14"
  shows "crc_input (pre @ m @ post) = pre @ m @ take (14 - (length pre + length m)) post @ [0, 0]
           @ drop (18 - (length pre + length m)) post"
    and "take 4 (drop 14 (pre @ m @ post)) = take 4 (drop (14 - (length pre + length m)) post)"
  using assms by (simp_all add: crc_input_def)

lemma crc_input_high:
  assumes "18 \<le> length pre"
  shows "crc_input (pre @ m @ post) = (take 14 pre @ [0, 0] @ drop 18 pre) @ m @ post"
    and "take 4 (drop 14 (pre @ m @ post)) = take 4 (drop 14 pre)"
  using assms by (simp_all add: crc_input_def)

lemma crc_input_mid:
  assumes "14 \<le> length pre" and "length pre + length m \<le> 18"
  shows "crc_input (pre @ m @ post) = take 14 pre @ [0, 0] @ drop (18 - (length pre + length m)) post"
    and "take 4 (drop 14 (pre @ m @ post)) = drop 14 pre @ m @ take (18 - (length pre + length m)) post"
  using assms by (simp_all add: crc_input_def)

lemma burst_detected:
  assumes ok: "intact (pre @ m @ post)"
    and len: "length m = length m'" and ne: "m \<noteq> m'" and fits: "burst_fits (length pre) (length m)"
  shows "\<not> intact (pre @ m' @ post)"
proof
  assume bad: "intact (pre @ m' @ post)"
  have big: "length m \<le> 4" using fits by (simp add: burst_fits_def)
  note c = intact_checksum [OF ok] and c' = intact_checksum [OF bad]
  from fits consider (low) "length pre + length m \<le> 14"
    | (mid) "14 \<le> length pre" "length pre + length m \<le> 18" | (high) "18 \<le> length pre"
    by (auto simp: burst_fits_def)
  then show False
  proof cases
    case low
    note f = crc_input_low [of pre m post, OF low] and f' = crc_input_low [of pre m' post]
    have "length pre + length m' \<le> 14" using low len by simp
    note f' = f' [OF this, folded len]
    show False
      using zlib.stored_mismatch [OF c [unfolded f] len big ne] c' [unfolded f'] by blast
  next
    case mid
    have "length pre + length m' \<le> 18" using mid len by simp
    note f = crc_input_mid [of pre m post, OF mid]
      and f' = crc_input_mid [of pre m' post, OF mid(1) this, folded len]
    have "be_int (drop 14 pre @ m @ take (18 - (length pre + length m)) post) =
        be_int (drop 14 pre @ m' @ take (18 - (length pre + length m)) post)"
      using c [unfolded f] c' [unfolded f'] by simp
    moreover have "length (drop 14 pre @ m @ take (18 - (length pre + length m)) post) =
        length (drop 14 pre @ m' @ take (18 - (length pre + length m)) post)"
      using len by simp
    ultimately have "drop 14 pre @ m @ take (18 - (length pre + length m)) post =
        drop 14 pre @ m' @ take (18 - (length pre + length m)) post"
      by (metis be_int_inject)
    with ne len show False by simp
  next
    case high
    note f = crc_input_high [of pre m post, OF high] and f' = crc_input_high [of pre m' post, OF high]
    show False
      using zlib.stored_mismatch [OF c [unfolded f] len big ne] c' [unfolded f'] by blast
  qed
qed

section \<open>Properties of packets\<close>

text \<open>C17: Any header that RDTHeader.serialize accepts takes exactly twenty bytes, and deserialize reads
  the same header back from those bytes, whatever payload follows them.\<close>

theorem header_roundtrip:
  assumes "serialize h = Inr bs"
  shows "length bs = header_size \<and> deserialize (bs @ payload) = Inr h"
  using length_serialize [OF assms] serialize_deserialize [OF assms] by simp

theorem header_roundtrip_witness:
  "\<exists>bs. serialize \<lparr> h_transfer_id = 0xDEADBEEF, h_seq_num = 7, h_ack_num = 0, h_flags = FLAG_FIN,
      h_checksum = 305419896, h_length = 3 \<rparr> = Inr bs
    \<and> length bs = header_size
    \<and> deserialize (bs @ [1, 2, 3]) = Inr \<lparr> h_transfer_id = 0xDEADBEEF, h_seq_num = 7, h_ack_num = 0,
         h_flags = FLAG_FIN, h_checksum = 305419896, h_length = 3 \<rparr>"
proof -
  let ?h = "\<lparr> h_transfer_id = 0xDEADBEEF, h_seq_num = 7, h_ack_num = 0, h_flags = FLAG_FIN,
      h_checksum = 305419896, h_length = 3 \<rparr>"
  obtain bs where bs: "serialize ?h = Inr bs"
    by (auto simp: serialize_fields valid_flags_iff flag_defs simp del: be_bytes.simps)
  from header_roundtrip [OF bs, of "[1, 2, 3]"] bs show ?thesis by blast
qed

text \<open>In the other direction, every datagram of at least twenty bytes whose flag field is one of the
  protocol's values is reproduced byte for byte by serializing the header read from it.\<close>

theorem header_wire_roundtrip:
  assumes "deserialize d = Inr h" and "is_valid_flags (h_flags h)"
  shows "serialize h = Inr (take header_size d)"
  using assms by (rule deserialize_serialize)

theorem header_wire_roundtrip_witness:
  "\<exists>h. deserialize [0,0,0,9, 0,0,0,1, 0,0,0,2, 0,4, 1,2,3,4, 0,1, 88] = Inr h \<and> h_flags h = FLAG_FIN
     \<and> serialize h = Inr [0,0,0,9, 0,0,0,1, 0,0,0,2, 0,4, 1,2,3,4, 0,1]"
proof -
  obtain h where h: "deserialize [0,0,0,9, 0,0,0,1, 0,0,0,2, 0,4, 1,2,3,4, 0,1, 88] = Inr h"
    and f: "h_flags h = FLAG_FIN" by (simp add: deserialize_def header_size_def flag_defs)
  have "is_valid_flags (h_flags h)" by (simp add: f valid_flags_iff flag_defs)
  from header_wire_roundtrip [OF h this] h f show ?thesis by (simp add: header_size_def)
qed

text \<open>A datagram built by the program passes every check a receiver makes: its header reads back
  with the fields it was built from, the length agrees with the datagram and the checksum verifies.\<close>

theorem built_packet_accepted:
  assumes "make_packet tid seq ack flags payload = Inr d"
  shows "\<exists>h. deserialize d = Inr h \<and> h_transfer_id h = tid \<and> h_seq_num h = seq \<and> h_ack_num h = ack
    \<and> h_flags h = flags \<and> is_valid_flags flags \<and> validate_length h d
    \<and> verify_checksum h payload = Inr True \<and> drop header_size d = payload"
  using make_packet_parses [OF assms] assms by (auto simp: make_packet_Inr)

theorem built_packet_accepted_witness:
  "\<exists>d h. make_packet 7 3 0 FLAG_DATA [1, 2, 3] = Inr d \<and> deserialize d = Inr h \<and> h_seq_num h = 3
     \<and> verify_checksum h [1, 2, 3] = Inr True \<and> drop header_size d = [1, 2, 3]"
proof -
  obtain d where d: "make_packet 7 3 0 FLAG_DATA [1, 2, 3] = Inr d"
    using make_packet_ok [of FLAG_DATA "[1, 2, 3]" 7 3 0] by (auto simp: valid_flags_iff flag_defs)
  from built_packet_accepted [OF d] d show ?thesis by blast
qed



end
