(* ===== verification/RDT_Context.thy ===== *)
theory RDT_Context
  imports Sha256 RDT_Header
begin

text \<open>
  common/rdt_context.py: the endpoint and transfer context shared by command layer and RDT, the
  START metadata payload (size, MODE, TYPE) in its current and legacy forms, and the mapping of a
  transfer identifier to its unsigned 32-bit wire value.
\<close>

datatype data_mode = ACTIVE | PASSIVE

datatype operation = RETR | STOR | STOU | APPE

record endpoint =
  ep_host :: string
  ep_port :: int
  ep_mode :: data_mode

record transfer_context =
  ctx_transfer_id :: string
  ctx_operation :: operation
  ctx_session_id :: string
  ctx_endpoint :: endpoint
  ctx_chunk_size :: int
  ctx_timeout_ms :: nat
  ctx_retry_limit :: nat
  ctx_max_timeouts :: nat
  ctx_window_size :: int
  ctx_total_bytes :: "int option"
  ctx_transfer_mode :: string
  ctx_transfer_type :: string

section \<open>START metadata\<close>

definition modes :: "string list" where
  "modes = [''S'', ''B'', ''C'']"

definition types :: "string list" where
  "types = [''A'', ''I'']"

definition char_byte :: "char \<Rightarrow> byte" where
  "char_byte c = word_of_nat (ord_char c)"

definition byte_char :: "byte \<Rightarrow> char" where
  "byte_char b = char_of (unat b)"

definition encode_start_metadata :: "int option \<Rightarrow> string \<Rightarrow> string \<Rightarrow> exn + bytes" where
  "encode_start_metadata total_bytes transfer_mode transfer_type =
     (let mode = ascii_upper (strip transfer_mode);
          representation = ascii_upper (strip transfer_type)
      in if mode \<notin> set modes then Inl (ValueError (''Invalid START transfer mode: '' @ py_repr transfer_mode))
         else if representation \<notin> set types then Inl (ValueError (''Invalid START transfer type: '' @ py_repr transfer_type))
         else (case pack_be 8 (case total_bytes of None \<Rightarrow> 0 | Some n \<Rightarrow> n) of
                 Inl e \<Rightarrow> Inl e
               | Inr sz \<Rightarrow> Inr (sz @ map char_byte mode @ map char_byte representation)))"

definition decode_start_metadata :: "bytes \<Rightarrow> exn + (int \<times> string option \<times> string option)" where
  "decode_start_metadata payload =
     (if length payload = 8 then Inr (be_int payload, None, None)
      else if length payload \<noteq> 10
        then Inl (ValueError (''Invalid START metadata length: '' @ show_nat (length payload)))
      else
        let total_bytes = be_int (take 8 payload); raw_mode = payload ! 8; raw_type = payload ! 9
        in if 128 \<le> unat raw_mode \<or> 128 \<le> unat raw_type
             then Inl (ValueError ''START metadata is not ASCII'')
           else if [byte_char raw_mode] \<notin> set modes \<or> [byte_char raw_type] \<notin> set types
             then Inl (ValueError ''START metadata contains unsupported MODE/TYPE'')
           else Inr (total_bytes, Some [byte_char raw_mode], Some [byte_char raw_type]))"

lemma byte_char_byte: "byte_char (char_byte c) = c"
proof -
  have "ord_char c < 256" by (simp add: ord_char_def)
  then have "unat (word_of_nat (ord_char c) :: byte) = ord_char c"
    by (simp add: unat_of_nat)
  then show ?thesis by (simp add: byte_char_def char_byte_def ord_char_def)
qed

lemma unat_char_byte: "unat (char_byte c) = ord_char c"
proof -
  have "ord_char c < 256" by (simp add: ord_char_def)
  then show ?thesis by (simp add: char_byte_def unat_of_nat)
qed

lemma start_metadata_roundtrip:
  assumes "encode_start_metadata tot mode typ = Inr bs"
  shows "decode_start_metadata bs =
    Inr (case tot of None \<Rightarrow> 0 | Some n \<Rightarrow> n, Some (ascii_upper (strip mode)), Some (ascii_upper (strip typ)))"
proof -
  let ?n = "case tot of None \<Rightarrow> 0 | Some n \<Rightarrow> n"
  let ?m = "ascii_upper (strip mode)" and ?t = "ascii_upper (strip typ)"
  have in_m: "?m \<in> set modes" and in_t: "?t \<in> set types" and n: "0 \<le> ?n" "?n < 256 ^ 8"
    and bs: "bs = be_bytes 8 ?n @ map char_byte ?m @ map char_byte ?t"
    using assms by (auto simp: encode_start_metadata_def Let_def pack_be_Inr
        split: if_splits sum.splits simp del: be_bytes.simps)
  obtain cm ct where m: "?m = [cm]" "cm \<in> {CHR ''S'', CHR ''B'', CHR ''C''}"
    and t: "?t = [ct]" "ct \<in> {CHR ''A'', CHR ''I''}"
    using in_m in_t by (auto simp: modes_def types_def)
  have asc: "unat (char_byte cm) < 128" "unat (char_byte ct) < 128"
    using m(2) t(2) by (auto simp: unat_char_byte ord_char_def)
  have "bs ! 8 = char_byte cm" "bs ! 9 = char_byte ct" "take 8 bs = be_bytes 8 ?n" "length bs = 10"
    by (simp_all add: bs m(1) t(1) nth_append)
  then show ?thesis
    using n asc in_m in_t
    by (simp add: decode_start_metadata_def be_int_be_bytes byte_char_byte m(1) t(1) del: be_bytes.simps)
qed

text \<open>Whatever decodes carries a size of eight bytes and, unless legacy, a MODE and TYPE in range.\<close>

lemma decode_start_metadata_sound:
  assumes "decode_start_metadata payload = Inr (n, m, t)"
  shows "0 \<le> n \<and> n < 256 ^ 8 \<and> (m = None \<longleftrightarrow> t = None) \<and> (m = None \<longleftrightarrow> length payload = 8)
    \<and> (\<forall>x. m = Some x \<longrightarrow> x \<in> set modes) \<and> (\<forall>x. t = Some x \<longrightarrow> x \<in> set types)"
  using assms be_int_less [of payload] be_int_take_less [of 8 payload]
  by (auto simp: decode_start_metadata_def Let_def split: if_splits)

section \<open>Transfer identifiers\<close>

datatype transfer_id_value = TidStr string | TidInt int

fun normalize_transfer_id :: "transfer_id_value \<Rightarrow> int" where
  "normalize_transfer_id (TidStr s) = int_base16 (take 8 (hexdigest (sha256 (utf8_encode s))))"
| "normalize_transfer_id (TidInt i) = i AND 0xFFFFFFFF"

lemma int_and_mask32: "(i::int) AND 0xFFFFFFFF = i mod 2 ^ 32"
  using take_bit_eq_mask [of 32 i] by (simp add: take_bit_eq_mod mask_eq_exp_minus_1 and.commute)

lemma normalize_str: "normalize_transfer_id (TidStr s) = be_int (take 4 (sha256 (utf8_encode s)))"
  using take_hexdigest [of 4] by (simp add: int_base16_hexdigest)

lemma normalize_transfer_id_range:
  "0 \<le> normalize_transfer_id v \<and> normalize_transfer_id v < 256 ^ 4"
proof (cases v)
  case (TidStr s)
  then show ?thesis
    using be_int_take_less [of 4 "sha256 (utf8_encode s)"] by (simp only: normalize_str) simp
next
  case (TidInt i)
  then show ?thesis by (simp add: int_and_mask32)
qed

lemma normalize_idempotent:
  "normalize_transfer_id (TidInt (normalize_transfer_id v)) = normalize_transfer_id v"
  using normalize_transfer_id_range [of v] by (simp add: int_and_mask32)

section \<open>Properties of the shared context\<close>

text \<open>C18: START metadata round trip. Whenever encode_start_metadata accepts a size, MODE and TYPE, decoding
  its ten bytes gives back the size (0 for an unknown one) and the upper-cased, stripped MODE and TYPE.\<close>

theorem metadata_roundtrip:
  assumes "encode_start_metadata tot mode typ = Inr bs"
  shows "length bs = 10 \<and> decode_start_metadata bs =
    Inr (case tot of None \<Rightarrow> 0 | Some n \<Rightarrow> n, Some (ascii_upper (strip mode)), Some (ascii_upper (strip typ)))"
  using start_metadata_roundtrip [OF assms] assms
  by (auto simp: encode_start_metadata_def Let_def pack_be_Inr modes_def types_def
      split: sum.splits if_splits option.splits simp del: be_bytes.simps)

theorem metadata_roundtrip_witness:
  "\<exists>bs. encode_start_metadata (Some 5000) '' b'' ''i'' = Inr bs \<and> length bs = 10
     \<and> decode_start_metadata bs = Inr (5000, Some ''B'', Some ''I'')"
proof -
  have t: "ascii_upper (strip '' b'') = ''B''" "ascii_upper (strip ''i'') = ''I''" by code_simp+
  then obtain bs where bs: "encode_start_metadata (Some 5000) '' b'' ''i'' = Inr bs"
    by (auto simp: encode_start_metadata_def modes_def types_def pack_be_def simp del: be_bytes.simps)
  from metadata_roundtrip [OF bs] bs show ?thesis by (simp add: t)
qed

text \<open>Both ends map a public transfer identifier to a wire value that fits the header's 32-bit field,
  and mapping a wire value again changes nothing.\<close>

theorem wire_transfer_id:
  "0 \<le> normalize_transfer_id v \<and> normalize_transfer_id v < 2 ^ 32
     \<and> normalize_transfer_id (TidInt (normalize_transfer_id v)) = normalize_transfer_id v"
  using normalize_transfer_id_range [of v] normalize_idempotent [of v] by simp

end
