(* ===== verification/RDT_Sender.thy ===== *)
theory RDT_Sender
  imports RDT_Context
begin

text \<open>
  The Go-Back-N sender of common/rdt_sender.py as a state machine. Its program counter sits at one
  of the two places where the code meets its environment: the top of a loop, where the cancel event
  is read and packets are sent, and the recvfrom call. sender_top and sender_recv are the code from
  each of these places to the next; sender_run plays a whole script of environment answers.
\<close>

type_synonym address = "string \<times> int"

text \<open>
  The answers of recvfrom. A datagram longer than the buffer is truncated, as UDP sockets do.
\<close>

datatype recv = Timeout | Datagram bytes address | RecvOSError string

definition ACK_BUF :: nat where
  "ACK_BUF = header_size + 64"

section \<open>Chunks with a last-chunk marker\<close>

text \<open>
  _lookahead: an empty iterable yields one empty last chunk. A source that raises does so when the
  chunk after the held one is pulled, so the held chunk is never yielded.
\<close>

fun lookahead_from :: "bytes \<Rightarrow> bytes list \<Rightarrow> exn option \<Rightarrow> (bytes \<times> bool) list \<times> exn option" where
  "lookahead_from current [] None = ([(current, True)], None)"
| "lookahead_from current [] (Some e) = ([], Some e)"
| "lookahead_from current (nxt # it) err =
     (let (ps, e) = lookahead_from nxt it err in ((current, False) # ps, e))"

fun lookahead :: "source \<Rightarrow> (bytes \<times> bool) list \<times> exn option" where
  "lookahead ([], None) = ([([], True)], None)"
| "lookahead ([], Some e) = ([], Some e)"
| "lookahead (c # cs, err) = lookahead_from c cs err"

section \<open>State\<close>

datatype sender_pc = StartTop | StartRecv | DataTop | DataRecv | SendReturned int | SendRaised exn

record sender_cfg =
  sc_transfer_id :: int
  sc_dest :: address
  sc_retry_limit :: nat
  sc_window_size :: int
  sc_total_bytes :: "int option"
  sc_transfer_mode :: string
  sc_transfer_type :: string

record sender =
  s_pc :: sender_pc
  s_attempt :: nat
  s_pending :: "(bytes \<times> bool) list"
  s_pending_err :: "exn option"
  s_pending_idx :: int
  s_pending_exhausted :: bool
  s_window :: "(int \<times> bytes \<times> int) list"
  s_next_seq :: int
  s_last_acked :: int
  s_timeout_count :: nat
  s_transferred :: int
  s_progress :: "int list"

definition sender_init :: "sender_cfg \<Rightarrow> source \<Rightarrow> sender" where
  "sender_init cfg chunks =
     \<lparr> s_pc = (if sc_window_size cfg < 1
               then SendRaised (ValueError ''window_size must be at least 1'') else StartTop),
       s_attempt = 0,
       s_pending = fst (lookahead chunks), s_pending_err = snd (lookahead chunks),
       s_pending_idx = 0, s_pending_exhausted = False, s_window = [],
       s_next_seq = 0, s_last_acked = -1, s_timeout_count = 0, s_transferred = 0, s_progress = [] \<rparr>"

section \<open>Control packets\<close>

definition abort_packet :: "sender_cfg \<Rightarrow> int \<Rightarrow> exn + bytes" where
  "abort_packet cfg seq = make_packet (sc_transfer_id cfg) seq 0 FLAG_ABORT []"

definition start_packet :: "sender_cfg \<Rightarrow> exn + bytes" where
  "start_packet cfg =
     (case encode_start_metadata (sc_total_bytes cfg) (sc_transfer_mode cfg) (sc_transfer_type cfg) of
        Inl e \<Rightarrow> Inl e
      | Inr size_payload \<Rightarrow> make_packet (sc_transfer_id cfg) 0 0 FLAG_START size_payload)"

definition data_packet :: "sender_cfg \<Rightarrow> int \<Rightarrow> bytes \<times> bool \<Rightarrow> exn + bytes" where
  "data_packet cfg seq ch =
     make_packet (sc_transfer_id cfg) seq 0 (if snd ch then FLAG_FIN else FLAG_DATA) (fst ch)"

definition valid_ack :: "rdt_header \<Rightarrow> int \<Rightarrow> bool" where
  "valid_ack h transfer_id \<longleftrightarrow>
     verify_checksum h [] = Inr True \<and> h_length h = 0 \<and> is_valid_flags (h_flags h)
     \<and> h_flags h = FLAG_ACK \<and> h_transfer_id h = transfer_id \<and> h_seq_num h = 0"

text \<open>Cancelling sends an ABORT and raises; only an OSError of the send is swallowed.\<close>

definition sender_abort :: "sender_cfg \<Rightarrow> int \<Rightarrow> string \<Rightarrow> sender \<Rightarrow> bytes list \<times> sender" where
  "sender_abort cfg seq msg st =
     (case abort_packet cfg seq of
        Inl e \<Rightarrow> ([], st\<lparr>s_pc := SendRaised e\<rparr>)
      | Inr p \<Rightarrow> ([p], st\<lparr>s_pc := SendRaised (RuntimeError msg)\<rparr>))"

section \<open>The send window\<close>

text \<open>
  The inner fill loop: take chunks while there is room, put each packet into the window and send it.
  The result carries the exception when pulling a chunk or building its packet raises.
\<close>

fun fill_window :: "sender_cfg \<Rightarrow> (bytes \<times> bool) list \<Rightarrow> sender \<Rightarrow> exn option \<times> bytes list \<times> sender" where
  "fill_window cfg [] st =
     (if s_pending_exhausted st \<or> sc_window_size cfg \<le> int (length (s_window st)) then (None, [], st)
      else case s_pending_err st of
             Some e \<Rightarrow> (Some e, [], st)
           | None \<Rightarrow> (None, [], st\<lparr>s_pending_exhausted := True\<rparr>))"
| "fill_window cfg (ch # ps) st =
     (if s_pending_exhausted st \<or> sc_window_size cfg \<le> int (length (s_window st)) then (None, [], st)
      else case data_packet cfg (s_pending_idx st) ch of
             Inl e \<Rightarrow> (Some e, [], st)
           | Inr p \<Rightarrow>
               let (r, out, st') = fill_window cfg ps
                     (st\<lparr>s_pending := ps, s_pending_idx := s_pending_idx st + 1,
                        s_window := s_window st @ [(s_pending_idx st, p, int (length (fst ch)))],
                        s_next_seq := s_pending_idx st + 1\<rparr>)
               in (r, p # out, st'))"

text \<open>The dict operations of the acknowledgement loop: min(window) and window.pop(seq).\<close>

fun min_key :: "int \<Rightarrow> (int \<times> 'a) list \<Rightarrow> int" where
  "min_key m [] = m"
| "min_key m ((k, v) # w) = min_key (min m k) w"

fun pop_key :: "int \<Rightarrow> (int \<times> bytes \<times> int) list \<Rightarrow> int \<times> (int \<times> bytes \<times> int) list" where
  "pop_key k [] = (0, [])"
| "pop_key k ((j, p, n) # w) =
     (if j = k then (n, w) else let (m, w') = pop_key k w in (m, (j, p, n) # w'))"

text \<open>
  \<open>while window and min(window) <= ack_num\<close>: one turn per window entry at most, which the
  length passed in bounds.
\<close>

fun pop_acked :: "nat \<Rightarrow> int \<Rightarrow> (int \<times> bytes \<times> int) list \<Rightarrow> int \<Rightarrow> (int \<times> bytes \<times> int) list \<times> int" where
  "pop_acked 0 a w t = (w, t)"
| "pop_acked (Suc n) a w t =
     (case w of
        [] \<Rightarrow> ([], t)
      | (k, v) # w' \<Rightarrow>
          (let m = min_key k w' in
           if m \<le> a then (let (len, w'') = pop_key m w in pop_acked n a w'' (t + len))
           else (w, t)))"

section \<open>Steps\<close>

definition sender_done :: "sender \<Rightarrow> bool" where
  "sender_done st \<longleftrightarrow> s_pending_exhausted st \<and> s_window st = []"

text \<open>From the top of the START loop or of the data loop to the recvfrom call, or out of the function.\<close>

definition start_top :: "sender_cfg \<Rightarrow> bool \<Rightarrow> sender \<Rightarrow> bytes list \<times> sender" where
  "start_top cfg cancelled st =
     (if sc_retry_limit cfg \<le> s_attempt st then
        ([], st\<lparr>s_pc := SendRaised (RuntimeError (''[RDT] START retry limit ''
                 @ show_nat (sc_retry_limit cfg) @ '' exceeded''))\<rparr>)
      else if cancelled then sender_abort cfg 0 ''Transfer cancelled before START'' st
      else (case start_packet cfg of
              Inl e \<Rightarrow> ([], st\<lparr>s_pc := SendRaised e\<rparr>)
            | Inr p \<Rightarrow> ([p], st\<lparr>s_pc := StartRecv, s_attempt := s_attempt st + 1\<rparr>)))"

definition data_top :: "sender_cfg \<Rightarrow> bool \<Rightarrow> sender \<Rightarrow> bytes list \<times> sender" where
  "data_top cfg cancelled st =
     (if sender_done st then ([], st\<lparr>s_pc := SendReturned (s_transferred st)\<rparr>)
      else if cancelled then sender_abort cfg (s_next_seq st) ''Transfer cancelled by caller'' st
      else (let (r, out, st') = fill_window cfg (s_pending st) st in
            case r of
              Some e \<Rightarrow> (out, st'\<lparr>s_pc := SendRaised e\<rparr>)
            | None \<Rightarrow> (out, st'\<lparr>s_pc := DataRecv\<rparr>)))"

declare start_top_def [simp] data_top_def [simp]

definition sender_top :: "sender_cfg \<Rightarrow> bool \<Rightarrow> sender \<Rightarrow> bytes list \<times> sender" where
  "sender_top cfg cancelled st =
     (case s_pc st of
        StartTop \<Rightarrow> start_top cfg cancelled st
      | DataTop \<Rightarrow> data_top cfg cancelled st
      | _ \<Rightarrow> ([], st))"

text \<open>The header of an acceptable acknowledgement, when the datagram is one.\<close>

definition ack_of :: "sender_cfg \<Rightarrow> bytes \<Rightarrow> address \<Rightarrow> int option" where
  "ack_of cfg d addr =
     (if addr \<noteq> sc_dest cfg then None
      else case deserialize (take ACK_BUF d) of
             Inl e \<Rightarrow> None
           | Inr h \<Rightarrow> if valid_ack h (sc_transfer_id cfg) then Some (h_ack_num h) else None)"

definition sender_data_timeout :: "sender_cfg \<Rightarrow> sender \<Rightarrow> bytes list \<times> sender" where
  "sender_data_timeout cfg st =
     (let n = s_timeout_count st + 1; st' = st\<lparr>s_timeout_count := n\<rparr> in
      if sc_retry_limit cfg \<le> n then
        ([], st'\<lparr>s_pc := SendRaised (RuntimeError (''[RDT] Retry limit ''
               @ show_nat (sc_retry_limit cfg) @ '' exceeded for seq='' @ show_int (s_last_acked st + 1)))\<rparr>)
      else (map (\<lambda>(k, p, n). p) (s_window st), st'\<lparr>s_pc := DataTop\<rparr>))"

definition sender_data_ack :: "sender_cfg \<Rightarrow> int \<Rightarrow> sender \<Rightarrow> sender" where
  "sender_data_ack cfg a st =
     (if a \<le> s_last_acked st \<or> s_next_seq st \<le> a then st\<lparr>s_pc := DataTop\<rparr>
      else let (w, t) = pop_acked (length (s_window st)) a (s_window st) (s_transferred st)
           in st\<lparr>s_pc := DataTop, s_timeout_count := 0, s_window := w, s_transferred := t,
                s_last_acked := a, s_progress := s_progress st @ [t]\<rparr>)"

definition start_recv :: "sender_cfg \<Rightarrow> recv \<Rightarrow> sender \<Rightarrow> bytes list \<times> sender" where
  "start_recv cfg rv st =
     (case rv of
        Timeout \<Rightarrow> ([], st\<lparr>s_pc := StartTop\<rparr>)
      | RecvOSError m \<Rightarrow> ([], st\<lparr>s_pc := SendRaised (OSErr OtherOS m)\<rparr>)
      | Datagram d addr \<Rightarrow>
          ([], st\<lparr>s_pc := (if ack_of cfg d addr = Some 0 then DataTop else StartTop)\<rparr>))"

definition data_recv :: "sender_cfg \<Rightarrow> recv \<Rightarrow> sender \<Rightarrow> bytes list \<times> sender" where
  "data_recv cfg rv st =
     (case rv of
        Timeout \<Rightarrow> sender_data_timeout cfg st
      | RecvOSError m \<Rightarrow> ([], st\<lparr>s_pc := SendRaised (OSErr OtherOS m)\<rparr>)
      | Datagram d addr \<Rightarrow>
          (case ack_of cfg d addr of
             None \<Rightarrow> ([], st\<lparr>s_pc := DataTop\<rparr>)
           | Some a \<Rightarrow> ([], sender_data_ack cfg a st)))"

declare start_recv_def [simp] data_recv_def [simp]

definition sender_recv :: "sender_cfg \<Rightarrow> recv \<Rightarrow> sender \<Rightarrow> bytes list \<times> sender" where
  "sender_recv cfg rv st =
     (case s_pc st of
        StartRecv \<Rightarrow> start_recv cfg rv st
      | DataRecv \<Rightarrow> data_recv cfg rv st
      | _ \<Rightarrow> ([], st))"

text \<open>
  send_chunks_rdt on a script: each entry answers one reading of the cancel event and one recvfrom.
  The result is the datagrams sent and the state reached when the script ends.
\<close>

fun sender_run :: "sender_cfg \<Rightarrow> sender \<Rightarrow> (bool \<times> recv) list \<Rightarrow> bytes list \<times> sender" where
  "sender_run cfg st [] = ([], st)"
| "sender_run cfg st ((c, rv) # ins) =
     (let (o1, st1) = sender_top cfg c st;
          (o2, st2) = sender_recv cfg rv st1;
          (o3, st3) = sender_run cfg st2 ins
      in (o1 @ o2 @ o3, st3))"

definition send_chunks_rdt :: "sender_cfg \<Rightarrow> source \<Rightarrow> (bool \<times> recv) list \<Rightarrow> bytes list \<times> sender" where
  "send_chunks_rdt cfg chunks ins = sender_run cfg (sender_init cfg chunks) ins"

section \<open>The window invariant\<close>

text \<open>
  ps is the whole lookahead sequence. With b packets acknowledged and n sent, the window holds
  exactly the packets b .. n-1, in order, and the byte count is that of the first b chunks.
\<close>

definition chunk_len :: "bytes \<times> bool \<Rightarrow> int" where
  "chunk_len ch = int (length (fst ch))"

definition total_len :: "(bytes \<times> bool) list \<Rightarrow> int" where
  "total_len ps = sum_list (map chunk_len ps)"

definition win_entry :: "sender_cfg \<Rightarrow> (bytes \<times> bool) list \<Rightarrow> nat \<Rightarrow> int \<times> bytes \<times> int" where
  "win_entry cfg ps i = (int i, projr (data_packet cfg (int i) (ps ! i)), chunk_len (ps ! i))"

definition window_at :: "sender_cfg \<Rightarrow> (bytes \<times> bool) list \<Rightarrow> exn option \<Rightarrow> sender \<Rightarrow> nat \<Rightarrow> nat \<Rightarrow> bool" where
  "window_at cfg ps err st b n \<longleftrightarrow>
     b \<le> n \<and> n \<le> length ps
     \<and> s_last_acked st = int b - 1 \<and> s_next_seq st = int n \<and> s_pending_idx st = int n
     \<and> s_pending st = drop n ps \<and> s_pending_err st = err
     \<and> s_window st = map (win_entry cfg ps) [b..<n]
     \<and> (\<forall>i<n. \<not> isl (data_packet cfg (int i) (ps ! i)))
     \<and> int (n - b) \<le> max 0 (sc_window_size cfg)
     \<and> s_transferred st = total_len (take b ps)
     \<and> (s_pending_exhausted st \<longrightarrow> n = length ps \<and> err = None)"

definition sender_inv :: "sender_cfg \<Rightarrow> (bytes \<times> bool) list \<Rightarrow> exn option \<Rightarrow> sender \<Rightarrow> bool" where
  "sender_inv cfg ps err st \<longleftrightarrow>
     (\<exists>b n. window_at cfg ps err st b n) \<and> (\<forall>m. s_pc st = SendReturned m \<longrightarrow>
        sender_done st \<and> m = s_transferred st)"

lemma window_at_pc [simp]:
  "window_at cfg ps err (st\<lparr>s_pc := x\<rparr>) b n = window_at cfg ps err st b n"
  "window_at cfg ps err (st\<lparr>s_attempt := k\<rparr>) b n = window_at cfg ps err st b n"
  "window_at cfg ps err (st\<lparr>s_timeout_count := k\<rparr>) b n = window_at cfg ps err st b n"
  "window_at cfg ps err (st\<lparr>s_progress := l\<rparr>) b n = window_at cfg ps err st b n"
  by (simp_all add: window_at_def)

lemma sender_inv_init:
  "lookahead chunks = (ps, err) \<Longrightarrow> sender_inv cfg ps err (sender_init cfg chunks)"
  by (auto simp: sender_inv_def window_at_def sender_init_def total_len_def intro!: exI [of _ 0])

text \<open>Filling extends the window at its end and sends exactly the packets it adds.\<close>

lemma fill_window_step:
  assumes w: "window_at cfg ps err st b n" and n: "n < length ps"
    and room: "\<not> s_pending_exhausted st" "int (length (s_window st)) < sc_window_size cfg"
    and p: "data_packet cfg (int n) (ps ! n) = Inr p"
  shows "window_at cfg ps err (st\<lparr>s_pending := drop (Suc n) ps, s_pending_idx := s_pending_idx st + 1,
      s_window := s_window st @ [(s_pending_idx st, p, int (length (fst (ps ! n))))],
      s_next_seq := s_pending_idx st + 1\<rparr>) b (Suc n)"
  using assms by (auto simp: window_at_def win_entry_def chunk_len_def less_Suc_eq)

lemma fill_window_spec:
  assumes "window_at cfg ps err st b n" and "fill_window cfg (s_pending st) st = (r, out, st')"
  shows "\<exists>n'. n \<le> n' \<and> window_at cfg ps err st' b n'
    \<and> out = map (\<lambda>i. projr (data_packet cfg (int i) (ps ! i))) [n..<n']
    \<and> (r = None \<longrightarrow> s_pending_exhausted st' \<or> sc_window_size cfg \<le> int (n' - b))
    \<and> s_timeout_count st' = s_timeout_count st"
  using assms
proof (induction "s_pending st" arbitrary: st n r out st')
  case Nil
  then have n: "n = length ps" by (auto simp: window_at_def)
  with Nil show ?case
    by (intro exI [of _ n]) (auto simp: window_at_def split: if_splits option.splits, metis)
next
  case (Cons ch rest)
  have w: "window_at cfg ps err st b n" by (rule Cons.prems(1))
  with Cons.hyps(2) have n: "n < length ps" and ch: "ch = ps ! n" and rest: "rest = drop (Suc n) ps"
    by (auto simp: window_at_def) (metis drop_all list.discI not_less,
        metis Cons_nth_drop_Suc drop_all list.discI list.inject not_less,
        metis Cons_nth_drop_Suc drop_all list.discI list.inject not_less)
  have idx: "s_pending_idx st = int n" using w by (simp add: window_at_def)
  show ?case
  proof (cases "s_pending_exhausted st \<or> sc_window_size cfg \<le> int (length (s_window st))")
    case True
    with Cons.prems(2) Cons.hyps(2) [symmetric] w show ?thesis
      by (intro exI [of _ n]) (auto simp: window_at_def)
  next
    case room: False
    show ?thesis
    proof (cases "data_packet cfg (int n) ch")
      case (Inl e)
      with room Cons.prems(2) Cons.hyps(2) [symmetric] w idx show ?thesis
        by (intro exI [of _ n]) auto
    next
      case (Inr p)
      let ?st = "st\<lparr>s_pending := rest, s_pending_idx := s_pending_idx st + 1,
          s_window := s_window st @ [(s_pending_idx st, p, int (length (fst ch)))],
          s_next_seq := s_pending_idx st + 1\<rparr>"
      obtain r1 out1 st1 where f: "fill_window cfg rest ?st = (r1, out1, st1)"
        by (metis prod_cases3)
      have w': "window_at cfg ps err ?st b (Suc n)"
        using fill_window_step [OF w n _ _ Inr [unfolded ch]] room by (simp add: ch rest)
      from Cons.hyps(1) [OF _ w', of r1 out1 st1] f obtain n' where n': "Suc n \<le> n'"
        "window_at cfg ps err st1 b n'"
        "out1 = map (\<lambda>i. projr (data_packet cfg (int i) (ps ! i))) [Suc n..<n']"
        "r1 = None \<longrightarrow> s_pending_exhausted st1 \<or> sc_window_size cfg \<le> int (n' - b)"
        "s_timeout_count st1 = s_timeout_count st"
        by auto
      have "r = r1 \<and> out = p # out1 \<and> st' = st1"
        using room Cons.prems(2) Cons.hyps(2) [symmetric] idx Inr f by auto
      with n' Inr show ?thesis
        by (intro exI [of _ n']) (auto simp: ch upt_rec [of n])
    qed
  qed
qed

text \<open>Popping acknowledged packets removes the window's front up to the acknowledged one.\<close>

lemma min_key_map: "(\<forall>k\<in>set ks. m \<le> int k) \<Longrightarrow> min_key m (map (win_entry cfg ps) ks) = m"
  by (induction ks) (auto simp: win_entry_def min_def)

lemma pop_key_front: "pop_key (int b) (win_entry cfg ps b # w) = (chunk_len (ps ! b), w)"
  by (simp add: win_entry_def)

lemma min_key_window:
  "b < n \<Longrightarrow> map (win_entry cfg ps) [b..<n] = win_entry cfg ps b # map (win_entry cfg ps) [Suc b..<n]
    \<and> min_key (int b) (map (win_entry cfg ps) [Suc b..<n]) = int b"
  by (simp add: upt_rec [of b]) (rule min_key_map, auto)

lemma pop_acked_stop:
  "k < b \<Longrightarrow> pop_acked fuel (int k) (map (win_entry cfg ps) [b..<n]) u = (map (win_entry cfg ps) [b..<n], u)"
proof (cases fuel)
  case (Suc f)
  assume k: "k < b"
  show ?thesis
  proof (cases "b < n")
    case True
    from min_key_window [OF this, of cfg ps] k Suc show ?thesis
      by (simp add: win_entry_def [of cfg ps b] Let_def)
  qed (simp add: Suc)
qed simp

lemma pop_acked_window:
  assumes "b \<le> k" and "k < n" and "n \<le> length ps" and "t = total_len (take b ps)"
    and "n - b \<le> fuel"
  shows "pop_acked fuel (int k) (map (win_entry cfg ps) [b..<n]) t =
    (map (win_entry cfg ps) [Suc k..<n], total_len (take (Suc k) ps))"
  using assms
proof (induction fuel arbitrary: b t)
  case 0
  then show ?case by simp
next
  case (Suc fuel)
  have bn: "b < n" and len: "b < length ps" using Suc.prems by simp_all
  note w = min_key_window [OF bn, of cfg ps, THEN conjunct1]
    and m = min_key_window [OF bn, of cfg ps, THEN conjunct2]
  have step: "pop_acked (Suc fuel) (int k) (map (win_entry cfg ps) [b..<n]) t =
      pop_acked fuel (int k) (map (win_entry cfg ps) [Suc b..<n]) (t + chunk_len (ps ! b))"
    using Suc.prems(1) pop_key_front [of b cfg ps]
    by (simp add: w win_entry_def [of cfg ps b] m)
  have t: "t + chunk_len (ps ! b) = total_len (take (Suc b) ps)"
    using len Suc.prems(4) by (simp add: total_len_def take_Suc_conv_app_nth)
  show ?case
  proof (cases "b = k")
    case True
    then have "k < Suc b" by simp
    from pop_acked_stop [OF this, of fuel cfg ps n]
    show ?thesis unfolding step t using True by simp
  next
    case False
    then show ?thesis
      unfolding step using Suc.IH [of "Suc b"] Suc.prems t by simp
  qed
qed

lemma data_ack_window:
  assumes w: "window_at cfg ps err st b n"
  shows "\<exists>b'. b \<le> b' \<and> b' \<le> n \<and> window_at cfg ps err (sender_data_ack cfg a st) b' n
    \<and> (b \<le> nat a \<and> nat a < n \<and> 0 \<le> a \<longrightarrow> b' = Suc (nat a))
    \<and> (\<not> (int b \<le> a \<and> a < int n) \<longrightarrow> b' = b)"
proof (cases "int b \<le> a \<and> a < int n")
  case True
  then obtain k where k: "a = int k" "b \<le> k" "k < n" by (metis nat_0_le nat_less_iff
        of_nat_0_le_iff of_nat_le_iff of_nat_less_iff order_trans)
  have l: "s_last_acked st = int b - 1" "s_next_seq st = int n" "n \<le> length ps"
    "s_window st = map (win_entry cfg ps) [b..<n]" "s_transferred st = total_len (take b ps)"
    using w by (simp_all add: window_at_def)
  have "pop_acked (length (s_window st)) a (s_window st) (s_transferred st) =
      (map (win_entry cfg ps) [Suc k..<n], total_len (take (Suc k) ps))"
    unfolding k(1) l by (rule pop_acked_window) (use k l in auto)
  then have "sender_data_ack cfg a st = st\<lparr>s_pc := DataTop, s_timeout_count := 0,
      s_window := map (win_entry cfg ps) [Suc k..<n], s_transferred := total_len (take (Suc k) ps),
      s_last_acked := a, s_progress := s_progress st @ [total_len (take (Suc k) ps)]\<rparr>"
    using k l by (simp add: sender_data_ack_def)
  moreover have "window_at cfg ps err \<dots> (Suc k) n"
    using w k by (auto simp: window_at_def)
  ultimately show ?thesis using k True by (intro exI [of _ "Suc k"]) auto
next
  case False
  then have "sender_data_ack cfg a st = st\<lparr>s_pc := DataTop\<rparr>"
    using w by (auto simp: sender_data_ack_def window_at_def)
  with w False show ?thesis by (intro exI [of _ b]) (auto simp: window_at_def)
qed

section \<open>Every step keeps the invariant\<close>

lemma sender_inv_I:
  "window_at cfg ps err st b n \<Longrightarrow> (\<And>m. s_pc st \<noteq> SendReturned m) \<Longrightarrow> sender_inv cfg ps err st"
  by (auto simp: sender_inv_def)

lemma sender_abort_window:
  "sender_abort cfg k msg st = (out, st') \<Longrightarrow> \<exists>e. st' = st\<lparr>s_pc := SendRaised e\<rparr>"
  by (auto simp: sender_abort_def split: sum.splits)

lemma sender_top_inv:
  assumes "sender_inv cfg ps err st"
  shows "sender_inv cfg ps err (snd (sender_top cfg c st))"
proof -
  obtain b n where w: "window_at cfg ps err st b n"
    using assms by (auto simp: sender_inv_def)
  show ?thesis
  proof (cases "s_pc st")
    case StartTop
    obtain out st' where a: "sender_abort cfg 0 ''Transfer cancelled before START'' st = (out, st')"
      by (metis surj_pair)
    from sender_abort_window [OF a] StartTop a show ?thesis
      by (auto simp: sender_top_def split: sum.splits intro!: sender_inv_I [of _ _ _ _ b n] w)
  next
    case DataTop
    show ?thesis
    proof (cases "sender_done st")
      case True
      with DataTop w show ?thesis
        by (auto simp: sender_top_def sender_inv_def sender_done_def)
    next
      case nd: False
      obtain out st' where a: "sender_abort cfg (s_next_seq st) ''Transfer cancelled by caller'' st = (out, st')"
        by (metis surj_pair)
      obtain r o2 st2 where f: "fill_window cfg (s_pending st) st = (r, o2, st2)"
        by (metis prod_cases3)
      from fill_window_spec [OF w f] obtain n' where "window_at cfg ps err st2 b n'" by blast
      note w2 = this
      show ?thesis
      proof (cases c)
        case True
        with nd DataTop w sender_abort_window [OF a] a show ?thesis
          by (auto simp: sender_top_def intro!: sender_inv_I [of _ _ _ _ b n])
      next
        case False
        with nd DataTop f w2 show ?thesis
          by (auto simp: sender_top_def split: option.splits intro!: sender_inv_I [of _ _ _ _ b n'])
      qed
    qed
  qed (use assms in \<open>simp_all add: sender_top_def\<close>)
qed

lemma sender_data_ack_pc: "s_pc (sender_data_ack cfg a st) = DataTop"
  by (simp add: sender_data_ack_def Let_def split: prod.splits)

lemma sender_recv_inv:
  assumes "sender_inv cfg ps err st"
  shows "sender_inv cfg ps err (snd (sender_recv cfg rv st))"
proof -
  obtain b n where w: "window_at cfg ps err st b n"
    using assms by (auto simp: sender_inv_def)
  have ack: "sender_inv cfg ps err (sender_data_ack cfg a st)" for a
    using data_ack_window [OF w, of a] sender_inv_I [of cfg ps err "sender_data_ack cfg a st"]
    by (auto simp: sender_data_ack_pc)
  show ?thesis
    using assms w
    by (cases "s_pc st"; cases rv)
      (auto simp: sender_recv_def sender_data_timeout_def Let_def ack
        split: option.splits intro!: sender_inv_I [of _ _ _ _ b n])
qed

lemma sender_run_inv:
  "sender_inv cfg ps err st \<Longrightarrow> sender_inv cfg ps err (snd (sender_run cfg st ins))"
proof (induction ins arbitrary: st)
  case Nil
  then show ?case by simp
next
  case (Cons i ins)
  obtain c rv where i: "i = (c, rv)" by (cases i)
  have "sender_inv cfg ps err (snd (sender_recv cfg rv (snd (sender_top cfg c st))))"
    by (intro sender_recv_inv sender_top_inv Cons.prems)
  from Cons.IH [OF this] show ?case by (simp add: i split_beta Let_def)
qed

section \<open>What a finished send has done\<close>

lemma lookahead_from_spec:
  "lookahead_from c cs None = (ps, e) \<Longrightarrow> e = None \<and> map fst ps = c # cs
    \<and> (\<forall>i<length ps. snd (ps ! i) \<longleftrightarrow> Suc i = length ps)"
proof (induction c cs "None :: exn option" arbitrary: ps e rule: lookahead_from.induct)
  case (1 current)
  then show ?case by auto
next
  case (3 current nxt it)
  obtain qs e' where q: "lookahead_from nxt it None = (qs, e')" by (metis surj_pair)
  with "3.prems" have ps: "ps = (current, False) # qs" "e = e'" by simp_all
  from "3.hyps" [OF q] have IH: "e' = None" "map fst qs = nxt # it"
    "\<forall>i<length qs. snd (qs ! i) \<longleftrightarrow> Suc i = length qs" by simp_all
  then have "qs \<noteq> []" by auto
  with IH show ?case by (simp add: ps All_less_Suc2)
qed

lemma lookahead_err: "snd (lookahead chunks) = snd chunks"
proof -
  have "snd (lookahead_from c cs e) = e" for c cs e
    by (induction c cs e rule: lookahead_from.induct) (simp_all add: split_beta)
  then show ?thesis by (cases chunks rule: lookahead.cases) simp_all
qed

lemma lookahead_chunks:
  "lookahead (cs, None) = (ps, e) \<Longrightarrow> map fst ps = (if cs = [] then [[]] else cs)
    \<and> ps \<noteq> [] \<and> (\<forall>i<length ps. snd (ps ! i) \<longleftrightarrow> Suc i = length ps)"
  by (cases cs) (auto dest: lookahead_from_spec)

lemma total_len_concat: "total_len ps = int (length (concat (map fst ps)))"
  by (induction ps) (simp_all add: total_len_def chunk_len_def)

lemma sender_inv_returned:
  assumes "sender_inv cfg ps err st" and "s_pc st = SendReturned m"
  shows "err = None \<and> m = total_len ps \<and> s_last_acked st = int (length ps) - 1"
proof -
  obtain b n where w: "window_at cfg ps err st b n" and d: "sender_done st" and m: "m = s_transferred st"
    using assms by (auto simp: sender_inv_def)
  from d w have n: "n = length ps" and e: "err = None" and "[b..<n] = []"
    by (auto simp: sender_done_def window_at_def)
  with w have "b = n" by (auto simp: window_at_def)
  with w n e m show ?thesis by (auto simp: window_at_def)
qed

lemma send_returned_total:
  assumes "s_pc (snd (send_chunks_rdt cfg chunks ins)) = SendReturned m"
  shows "snd chunks = None \<and> m = int (length (concat (fst chunks)))"
proof -
  obtain ps err where l: "lookahead chunks = (ps, err)" by (metis surj_pair)
  have "sender_inv cfg ps err (snd (send_chunks_rdt cfg chunks ins))"
    unfolding send_chunks_rdt_def by (intro sender_run_inv sender_inv_init l)
  from sender_inv_returned [OF this assms] have e: "err = None" and m: "m = total_len ps" by simp_all
  moreover have "snd chunks = None" using lookahead_err [of chunks] l e by simp
  ultimately show ?thesis
    using lookahead_chunks [of "fst chunks" ps None] l
    by (cases chunks) (auto simp: total_len_concat split: if_splits)
qed

section \<open>Only packets of this transfer are sent\<close>

definition sender_packet :: "sender_cfg \<Rightarrow> (bytes \<times> bool) list \<Rightarrow> bytes \<Rightarrow> bool" where
  "sender_packet cfg ps p \<longleftrightarrow> start_packet cfg = Inr p \<or> (\<exists>k. abort_packet cfg k = Inr p)
     \<or> (\<exists>i<length ps. data_packet cfg (int i) (ps ! i) = Inr p)"

lemma window_packet:
  assumes "window_at cfg ps err st b n" and "i < n"
  shows "data_packet cfg (int i) (ps ! i) = Inr (projr (data_packet cfg (int i) (ps ! i)))" "i < length ps"
  using assms by (auto simp: window_at_def)

lemma sender_abort_sends: "sender_abort cfg k msg st = (out, st') \<Longrightarrow> p \<in> set out \<Longrightarrow> sender_packet cfg ps p"
  by (auto simp: sender_abort_def sender_packet_def split: sum.splits)

lemma sender_top_sends:
  assumes "sender_inv cfg ps err st" and "p \<in> set (fst (sender_top cfg c st))"
  shows "sender_packet cfg ps p"
proof -
  obtain b n where w: "window_at cfg ps err st b n"
    using assms by (auto simp: sender_inv_def)
  obtain r o2 st2 where f: "fill_window cfg (s_pending st) st = (r, o2, st2)"
    by (metis prod_cases3)
  from fill_window_spec [OF w f] obtain n' where w2: "window_at cfg ps err st2 b n'"
    and o2: "o2 = map (\<lambda>i. projr (data_packet cfg (int i) (ps ! i))) [n..<n']" by blast
  have "sender_packet cfg ps q" if "q \<in> set o2" for q
  proof -
    from that obtain i where i: "i < n'" "q = projr (data_packet cfg (int i) (ps ! i))"
      by (auto simp: o2)
    with window_packet [OF w2 i(1)] have "i < length ps \<and> data_packet cfg (int i) (ps ! i) = Inr q"
      by simp
    then show ?thesis by (auto simp: sender_packet_def)
  qed
  moreover have "sender_packet cfg ps q" if "q \<in> set (fst (sender_abort cfg k msg st))" for q k msg
    using that sender_abort_sends by (metis prod.collapse)
  ultimately show ?thesis
    using assms(2) f
    by (auto simp: sender_top_def sender_packet_def split: sender_pc.splits if_splits sum.splits option.splits)
qed

lemma sender_recv_sends:
  assumes "sender_inv cfg ps err st" and "p \<in> set (fst (sender_recv cfg rv st))"
  shows "\<exists>i<length ps. data_packet cfg (int i) (ps ! i) = Inr p"
proof -
  obtain b n where w: "window_at cfg ps err st b n"
    using assms by (auto simp: sender_inv_def)
  have out: "p \<in> set (map (\<lambda>(k, p, n). p) (s_window st))"
    using assms(2) by (auto simp: sender_recv_def sender_data_timeout_def Let_def
        split: sender_pc.splits recv.splits option.splits if_splits)
  have "map (\<lambda>(k, p, n). p) (s_window st) = map (\<lambda>i. projr (data_packet cfg (int i) (ps ! i))) [b..<n]"
    using w by (simp add: window_at_def win_entry_def comp_def)
  with out obtain i where i: "i < n" "p = projr (data_packet cfg (int i) (ps ! i))" by auto
  with window_packet [OF w i(1)] have "i < length ps \<and> data_packet cfg (int i) (ps ! i) = Inr p"
    by simp
  then show ?thesis by blast
qed

section \<open>A silent peer ends the transfer\<close>

fun sender_final :: "sender_pc \<Rightarrow> bool" where
  "sender_final (SendReturned m) = True"
| "sender_final (SendRaised e) = True"
| "sender_final pc = False"

fun sender_at_top :: "sender_pc \<Rightarrow> bool" where
  "sender_at_top StartTop = True"
| "sender_at_top DataTop = True"
| "sender_at_top pc = sender_final pc"

definition silence_rank :: "sender_cfg \<Rightarrow> sender \<Rightarrow> nat" where
  "silence_rank cfg st =
     (case s_pc st of
        StartTop \<Rightarrow> Suc (sc_retry_limit cfg - s_attempt st)
      | DataTop \<Rightarrow> Suc (sc_retry_limit cfg - s_timeout_count st)
      | _ \<Rightarrow> 0)"

lemma final_stays:
  "sender_final (s_pc st) \<Longrightarrow> sender_recv cfg rv (snd (sender_top cfg c st)) = ([], st)"
  by (cases "s_pc st") (simp_all add: sender_top_def sender_recv_def)

lemma final_run: "sender_final (s_pc st) \<Longrightarrow> snd (sender_run cfg st ins) = st"
  by (induction ins) (auto simp: split_beta Let_def final_stays)

lemma iteration_at_top:
  "sender_at_top (s_pc st) \<Longrightarrow> sender_at_top (s_pc (snd (sender_recv cfg rv (snd (sender_top cfg c st)))))"
  by (cases "s_pc st")
    (auto simp: sender_top_def sender_recv_def sender_abort_def sender_data_timeout_def Let_def
      sender_data_ack_pc split: sum.splits recv.splits option.splits prod.splits)

lemma run_at_top: "sender_at_top (s_pc st) \<Longrightarrow> sender_at_top (s_pc (snd (sender_run cfg st ins)))"
proof (induction ins arbitrary: st)
  case (Cons i ins)
  then show ?case
    using Cons.IH [OF iteration_at_top [OF Cons.prems]]
    by (cases i) (auto simp: split_beta Let_def)
qed simp

lemma fill_window_timeouts:
  "fill_window cfg ps st = (r, out, st') \<Longrightarrow> s_timeout_count st' = s_timeout_count st"
proof (induction ps arbitrary: st r out st')
  case Nil
  then show ?case by (auto split: if_splits option.splits)
next
  case (Cons ch ps)
  from Cons.prems show ?case
    by (auto split: if_splits sum.splits prod.splits dest: Cons.IH)
qed

lemma silence_decreases:
  fixes cfg :: sender_cfg
  assumes "sender_at_top (s_pc st)" and "\<not> sender_final (s_pc st)"
  defines "st' \<equiv> snd (sender_recv cfg Timeout (snd (sender_top cfg False st)))"
  shows "sender_final (s_pc st') \<or> silence_rank cfg st' < silence_rank cfg st"
proof (cases "s_pc st")
  case StartTop
  then show ?thesis
    by (auto simp: st'_def sender_top_def sender_recv_def silence_rank_def split: sum.splits)
next
  case DataTop
  obtain r o2 st2 where f: "fill_window cfg (s_pending st) st = (r, o2, st2)"
    by (metis prod_cases3)
  from fill_window_timeouts [OF f] DataTop f show ?thesis
    by (auto simp: st'_def sender_top_def sender_recv_def silence_rank_def sender_data_timeout_def
        Let_def split: option.splits)
qed (use assms(1,2) in simp_all)

lemma silence_terminates_from:
  "sender_at_top (s_pc st) \<Longrightarrow> silence_rank cfg st \<le> k \<Longrightarrow>
     sender_final (s_pc (snd (sender_run cfg st (replicate k (False, Timeout)))))"
proof (induction k arbitrary: st)
  case 0
  then show ?case by (cases "s_pc st") (simp_all add: silence_rank_def)
next
  case (Suc k)
  let ?st = "snd (sender_recv cfg Timeout (snd (sender_top cfg False st)))"
  have top: "sender_at_top (s_pc ?st)" by (rule iteration_at_top [OF Suc.prems(1)])
  have run: "snd (sender_run cfg st (replicate (Suc k) (False, Timeout))) =
      snd (sender_run cfg ?st (replicate k (False, Timeout)))"
    by (simp add: split_beta Let_def)
  show ?case
  proof (cases "sender_final (s_pc st)")
    case True
    then show ?thesis by (simp add: final_run del: replicate.simps)
  next
    case False
    from silence_decreases [OF Suc.prems(1) False, of cfg] show ?thesis
      unfolding run using Suc.IH [OF top] Suc.prems(2) final_run [of ?st cfg] by force
  qed
qed

lemma sender_run_append:
  "snd (sender_run cfg st (xs @ ys)) = snd (sender_run cfg (snd (sender_run cfg st xs)) ys)"
  by (induction xs arbitrary: st) (auto simp: split_beta Let_def)

lemma send_silence_terminates:
  "sender_final (s_pc (snd (send_chunks_rdt cfg chunks
     (ins @ replicate (Suc (sc_retry_limit cfg)) (False, Timeout)))))"
proof -
  have top: "sender_at_top (s_pc (sender_init cfg chunks))" by (simp add: sender_init_def)
  have "silence_rank cfg st \<le> Suc (sc_retry_limit cfg)" for st
    by (simp add: silence_rank_def split: sender_pc.splits)
  with silence_terminates_from [OF run_at_top [OF top]] show ?thesis
    by (simp only: send_chunks_rdt_def sender_run_append)
qed

lemma cancel_terminates:
  assumes "sender_at_top (s_pc st)"
  shows "sender_final (s_pc (snd (sender_top cfg True st)))"
  using assms
  by (cases "s_pc st") (auto simp: sender_top_def sender_abort_def split: sum.splits)

end
