(* ===== verification/RDT_Receiver.thy ===== *)
theory RDT_Receiver
  imports RDT_Sender
begin

text \<open>
  The receiver of common/rdt_receiver.py. receive_chunks_rdt is a generator: its state holds the
  local variables, the chunks yielded so far and where it stands, in the main loop or in the grace
  period after FIN. One step is one turn of the loop: the cancel event is read, recvfrom answers,
  the datagram is checked in the source's order, acknowledgements are sent, a chunk may be yielded.
\<close>

definition RECV_BUF :: nat where
  "RECV_BUF = header_size + 1024 + 64"

definition grace_attempts :: nat where
  "grace_attempts = 3"

datatype receiver_pc = RecvTop | Grace nat int | RecvReturned | RecvRaised exn

record receiver_cfg =
  rc_transfer_id_hint :: "int option"
  rc_timeout_ms :: nat
  rc_max_timeouts :: nat
  rc_expected_mode :: "string option"
  rc_expected_type :: "string option"

record receiver =
  r_pc :: receiver_pc
  r_expected_seq :: int
  r_peer_addr :: "address option"
  r_transfer_id :: "int option"
  r_timeout_count :: nat
  r_committed_bytes :: int
  r_total_bytes :: "int option"
  r_yielded :: "bytes list"
  r_progress :: "(int \<times> int option) list"

definition receiver_init :: "receiver_cfg \<Rightarrow> receiver" where
  "receiver_init cfg =
     \<lparr> r_pc = RecvTop, r_expected_seq = 0, r_peer_addr = None,
       r_transfer_id = rc_transfer_id_hint cfg, r_timeout_count = 0, r_committed_bytes = 0,
       r_total_bytes = None, r_yielded = [], r_progress = [] \<rparr>"

type_synonym acks = "(address \<times> bytes) list"

section \<open>Acknowledgements\<close>

definition ack_packet :: "int \<Rightarrow> int \<Rightarrow> exn + bytes" where
  "ack_packet tid ack_seq = make_packet tid 0 ack_seq FLAG_ACK []"

text \<open>_send_ack, followed by the rest of the turn when building the packet does not raise.\<close>

definition send_ack :: "address \<Rightarrow> int \<Rightarrow> int \<Rightarrow> receiver \<Rightarrow> acks \<times> receiver" where
  "send_ack peer tid ack_seq st =
     (case ack_packet tid ack_seq of
        Inl e \<Rightarrow> ([], st\<lparr>r_pc := RecvRaised e\<rparr>)
      | Inr p \<Rightarrow> ([(peer, p)], st))"

text \<open>Python's \<open>f"{x:.0f}"\<close> of a number of milliseconds read as seconds: ties go to even.\<close>

definition format_seconds :: "nat \<Rightarrow> string" where
  "format_seconds ms =
     (let q = ms div 1000; r = ms mod 1000
      in show_nat (if r < 500 \<or> (r = 500 \<and> even q) then q else q + 1))"

definition mismatch_text :: "string \<Rightarrow> string option \<Rightarrow> string option \<Rightarrow> string" where
  "mismatch_text what expected got =
     ''[RDT] '' @ what @ '' mismatch: expected '' @ (case expected of None \<Rightarrow> '''' | Some e \<Rightarrow> e)
     @ '', got '' @ (case got of None \<Rightarrow> ''legacy'' | Some g \<Rightarrow> g)"

section \<open>One datagram\<close>

text \<open>The START branch: validation, peer adoption, MODE and TYPE agreement, idempotent ACK.\<close>

definition handle_start :: "receiver_cfg \<Rightarrow> int \<Rightarrow> rdt_header \<Rightarrow> bytes \<Rightarrow> address \<Rightarrow> receiver \<Rightarrow> acks \<times> receiver" where
  "handle_start cfg tid h data addr st =
     (let start_payload = take (nat (h_length h)) (drop header_size data) in
      if h_flags h \<noteq> FLAG_START \<or> h_seq_num h \<noteq> 0 then ([], st)
      else if \<not> validate_length h data then ([], st)
      else if verify_checksum h start_payload \<noteq> Inr True then ([], st)
      else
        let peer = (case r_peer_addr st of None \<Rightarrow> addr | Some p \<Rightarrow> p);
            st1 = st\<lparr>r_peer_addr := Some peer\<rparr> in
        (case decode_start_metadata start_payload of
           Inl e \<Rightarrow> ([], st1\<lparr>r_pc := RecvRaised (RuntimeError (''[RDT] Invalid START metadata: '' @ exn_text e))\<rparr>)
         | Inr (raw_size, wire_mode, wire_type) \<Rightarrow>
             if rc_expected_mode cfg \<noteq> None \<and> wire_mode \<noteq> rc_expected_mode cfg then
               ([], st1\<lparr>r_pc := RecvRaised (RuntimeError (mismatch_text ''MODE'' (rc_expected_mode cfg) wire_mode))\<rparr>)
             else if rc_expected_type cfg \<noteq> None \<and> wire_type \<noteq> rc_expected_type cfg then
               ([], st1\<lparr>r_pc := RecvRaised (RuntimeError (mismatch_text ''TYPE'' (rc_expected_type cfg) wire_type))\<rparr>)
             else send_ack peer tid 0
               (st1\<lparr>r_total_bytes := (if r_total_bytes st = None \<and> 0 < raw_size
                                     then Some raw_size else r_total_bytes st)\<rparr>)))"

text \<open>The payload branch: in order, duplicate, or out of order.\<close>

definition handle_payload :: "receiver_cfg \<Rightarrow> int \<Rightarrow> rdt_header \<Rightarrow> bytes \<Rightarrow> address \<Rightarrow> receiver \<Rightarrow> acks \<times> receiver" where
  "handle_payload cfg tid h payload addr st =
     (let peer = (case r_peer_addr st of None \<Rightarrow> addr | Some p \<Rightarrow> p);
          st1 = st\<lparr>r_peer_addr := Some peer\<rparr> in
      if h_seq_num h = r_expected_seq st then
        (case send_ack peer tid (h_seq_num h)
                (st1\<lparr>r_expected_seq := r_expected_seq st + 1,
                     r_committed_bytes := r_committed_bytes st + int (length payload)\<rparr>) of
           (out, st2) \<Rightarrow>
             if out = [] then (out, st2)
             else (out, st2\<lparr>r_yielded := r_yielded st2 @ [payload],
                    r_progress := r_progress st2 @ [(r_committed_bytes st2, r_total_bytes st2)],
                    r_pc := (if has_flag (h_flags h) FLAG_FIN
                             then Grace grace_attempts (h_seq_num h) else RecvTop)\<rparr>))
      else if h_seq_num h < r_expected_seq st then send_ack peer tid (r_expected_seq st - 1) st1
      else if 0 < r_expected_seq st then send_ack peer tid (r_expected_seq st - 1) st1
      else ([], st1))"

definition handle_datagram :: "receiver_cfg \<Rightarrow> bytes \<Rightarrow> address \<Rightarrow> receiver \<Rightarrow> acks \<times> receiver" where
  "handle_datagram cfg d addr st =
     (let data = take RECV_BUF d in
      if length data < header_size then ([], st)
      else if r_peer_addr st \<noteq> None \<and> r_peer_addr st \<noteq> Some addr then ([], st)
      else case deserialize data of
        Inl e \<Rightarrow> ([], st)
      | Inr h \<Rightarrow>
          let tid = (case r_transfer_id st of None \<Rightarrow> h_transfer_id h | Some t \<Rightarrow> t);
              st1 = st\<lparr>r_transfer_id := Some tid\<rparr> in
          if h_transfer_id h \<noteq> tid then ([], st)
          else if has_flag (h_flags h) FLAG_ABORT then
            (if verify_checksum h [] \<noteq> Inr True then ([], st1)
             else ([], st1\<lparr>r_pc := RecvRaised (RuntimeError ''Transfer aborted by sender'')\<rparr>))
          else if has_flag (h_flags h) FLAG_START then handle_start cfg tid h data addr st1
          else if \<not> validate_length h data then ([], st1)
          else if \<not> is_valid_flags (h_flags h) then ([], st1)
          else
            let payload = take (nat (h_length h)) (drop header_size data) in
            if verify_checksum h payload \<noteq> Inr True then ([], st1)
            else handle_payload cfg tid h payload addr st1)"

section \<open>Steps\<close>

text \<open>_fin_grace: a duplicate of the FIN packet is acknowledged again.\<close>

definition grace_datagram :: "int \<Rightarrow> bytes \<Rightarrow> address \<Rightarrow> receiver \<Rightarrow> acks \<times> receiver" where
  "grace_datagram fin_seq d addr st =
     (let data = take RECV_BUF d in
      if Some addr \<noteq> r_peer_addr st \<or> length data < header_size then ([], st)
      else case deserialize data of
        Inl e \<Rightarrow> ([], st)
      | Inr h \<Rightarrow>
          if Some (h_transfer_id h) = r_transfer_id st \<and> h_seq_num h = fin_seq
             \<and> has_flag (h_flags h) FLAG_FIN
          then send_ack addr (h_transfer_id h) fin_seq st else ([], st))"

definition after_grace :: "nat \<Rightarrow> int \<Rightarrow> acks \<times> receiver \<Rightarrow> acks \<times> receiver" where
  "after_grace n fin_seq res =
     (case res of (out, st) \<Rightarrow>
        (case r_pc st of
           RecvRaised e \<Rightarrow> (out, st)
         | _ \<Rightarrow> (out, st\<lparr>r_pc := (if n \<le> 1 then RecvReturned else Grace (n - 1) fin_seq)\<rparr>)))"

definition receiver_step :: "receiver_cfg \<Rightarrow> bool \<times> recv \<Rightarrow> receiver \<Rightarrow> acks \<times> receiver" where
  "receiver_step cfg inp st =
     (case inp of (cancelled, rv) \<Rightarrow>
      (case r_pc st of
         RecvTop \<Rightarrow>
           if cancelled then
             ([], st\<lparr>r_pc := RecvRaised (RuntimeError ''Transfer cancelled by caller'')\<rparr>)
           else (case rv of
             Timeout \<Rightarrow>
               let n = r_timeout_count st + 1; st' = st\<lparr>r_timeout_count := n\<rparr> in
               if rc_max_timeouts cfg \<le> n then
                 ([], st'\<lparr>r_pc := RecvRaised (RuntimeError (''[RDT] No packet received after ''
                        @ format_seconds (rc_max_timeouts cfg * rc_timeout_ms cfg) @ ''s''))\<rparr>)
               else ([], st')
           | RecvOSError m \<Rightarrow> ([], st\<lparr>r_pc := RecvRaised (RuntimeError (''[RDT] Socket error: '' @ m))\<rparr>)
           | Datagram d addr \<Rightarrow> handle_datagram cfg d addr (st\<lparr>r_timeout_count := 0\<rparr>))
       | Grace n fin_seq \<Rightarrow>
           (case rv of
             Timeout \<Rightarrow> after_grace n fin_seq ([], st)
           | RecvOSError m \<Rightarrow> ([], st\<lparr>r_pc := RecvReturned\<rparr>)
           | Datagram d addr \<Rightarrow> after_grace n fin_seq (grace_datagram fin_seq d addr st))
       | _ \<Rightarrow> ([], st)))"

fun receiver_run :: "receiver_cfg \<Rightarrow> receiver \<Rightarrow> (bool \<times> recv) list \<Rightarrow> acks \<times> receiver" where
  "receiver_run cfg st [] = ([], st)"
| "receiver_run cfg st (i # ins) =
     (let (o1, st1) = receiver_step cfg i st; (o2, st2) = receiver_run cfg st1 ins
      in (o1 @ o2, st2))"

text \<open>
  What the consumer of the generator sees of a run: the chunks yielded and, when it ended by an
  exception, that exception.
\<close>

definition receive_chunks_rdt :: "receiver_cfg \<Rightarrow> (bool \<times> recv) list \<Rightarrow> acks \<times> receiver" where
  "receive_chunks_rdt cfg ins = receiver_run cfg (receiver_init cfg) ins"

fun receiver_source :: "receiver \<Rightarrow> source option" where
  "receiver_source st =
     (case r_pc st of
        RecvReturned \<Rightarrow> Some (r_yielded st, None)
      | RecvRaised e \<Rightarrow> Some (r_yielded st, Some e)
      | _ \<Rightarrow> None)"

section \<open>Counters agree with what was yielded\<close>

definition receiver_inv :: "receiver \<Rightarrow> bool" where
  "receiver_inv st \<longleftrightarrow>
     r_expected_seq st = int (length (r_yielded st)) \<and> r_expected_seq st \<le> 256 ^ 4
     \<and> r_committed_bytes st = int (length (concat (r_yielded st)))"

lemma receiver_inv_init: "receiver_inv (receiver_init cfg)"
  by (simp add: receiver_inv_def receiver_init_def)

lemma receiver_inv_cong [simp]:
  "receiver_inv (st\<lparr>r_pc := x\<rparr>) = receiver_inv st"
  "receiver_inv (st\<lparr>r_peer_addr := a\<rparr>) = receiver_inv st"
  "receiver_inv (st\<lparr>r_transfer_id := t\<rparr>) = receiver_inv st"
  "receiver_inv (st\<lparr>r_timeout_count := n\<rparr>) = receiver_inv st"
  "receiver_inv (st\<lparr>r_total_bytes := b\<rparr>) = receiver_inv st"
  "receiver_inv (st\<lparr>r_progress := l\<rparr>) = receiver_inv st"
  by (simp_all add: receiver_inv_def)

lemma ack_packet_ok:
  assumes "0 \<le> tid" "tid < 256 ^ 4" "0 \<le> a" "a < 256 ^ 4"
  shows "\<exists>p. ack_packet tid a = Inr p"
  unfolding ack_packet_def by (rule make_packet_ok) (use assms in \<open>simp_all add: valid_flags_iff flag_defs\<close>)

lemma send_ack_ok:
  assumes "0 \<le> tid" "tid < 256 ^ 4" "0 \<le> a" "a < 256 ^ 4"
  shows "\<exists>p. ack_packet tid a = Inr p \<and> send_ack peer tid a st = ([(peer, p)], st)"
  using ack_packet_ok [OF assms] by (auto simp: send_ack_def)

text \<open>
  What one datagram can do to the receiver. Either nothing is yielded, or the datagram is intact,
  carries this transfer's identifier and the expected sequence number, and its payload is yielded
  and acknowledged.
\<close>

definition delivers :: "bytes \<Rightarrow> receiver \<Rightarrow> receiver \<Rightarrow> bool" where
  "delivers d st st' \<longleftrightarrow>
     (\<exists>h. deserialize (take RECV_BUF d) = Inr h \<and> intact (take RECV_BUF d)
        \<and> h_seq_num h = r_expected_seq st
        \<and> r_transfer_id st' = Some (h_transfer_id h)
        \<and> (\<forall>t. r_transfer_id st = Some t \<longrightarrow> t = h_transfer_id h)
        \<and> \<not> has_flag (h_flags h) FLAG_ABORT \<and> \<not> has_flag (h_flags h) FLAG_START
        \<and> r_yielded st' = r_yielded st @ [drop header_size (take RECV_BUF d)]
        \<and> r_expected_seq st' = r_expected_seq st + 1
        \<and> r_committed_bytes st' = r_committed_bytes st + h_length h
        \<and> r_pc st' = (if has_flag (h_flags h) FLAG_FIN then Grace grace_attempts (h_seq_num h) else RecvTop))"

definition keeps :: "receiver \<Rightarrow> receiver \<Rightarrow> bool" where
  "keeps st st' \<longleftrightarrow> r_yielded st' = r_yielded st \<and> r_expected_seq st' = r_expected_seq st
     \<and> r_committed_bytes st' = r_committed_bytes st
     \<and> (r_pc st' = r_pc st \<or> (\<exists>e. r_pc st' = RecvRaised e))
     \<and> (\<forall>t. r_transfer_id st = Some t \<longrightarrow> r_transfer_id st' = Some t)"

text \<open>Acknowledgements go to the adopted peer and never run ahead of what was yielded.\<close>

definition acks_sound :: "acks \<Rightarrow> receiver \<Rightarrow> bool" where
  "acks_sound out st' \<longleftrightarrow>
     (\<forall>(a, p)\<in>set out. r_peer_addr st' = Some a
        \<and> (\<exists>tid k. r_transfer_id st' = Some tid \<and> ack_packet tid k = Inr p
              \<and> (k < r_expected_seq st' \<or> k = 0)))"

lemma keeps_inv: "keeps st st' \<Longrightarrow> receiver_inv st \<Longrightarrow> receiver_inv st'"
  by (simp add: keeps_def receiver_inv_def)

lemma delivers_inv: "delivers d st st' \<Longrightarrow> receiver_inv st \<Longrightarrow> receiver_inv st'"
  using deserialize_ranges(4) [of "take RECV_BUF d"]
  by (fastforce simp: delivers_def receiver_inv_def intact_def validate_length_def header_size_def Let_def)

lemma send_ack_keeps:
  assumes "send_ack peer tid k st = (out, st')" and "r_peer_addr st = Some peer"
    and "r_transfer_id st = Some tid" and "k < r_expected_seq st \<or> k = 0"
  shows "keeps st st' \<and> acks_sound out st'"
  using assms by (auto simp: send_ack_def keeps_def acks_sound_def split: sum.splits)

lemma keeps_trans: "keeps a b \<Longrightarrow> keeps b c \<Longrightarrow> keeps a c"
  by (auto simp: keeps_def)

lemma keeps_fields [simp]:
  "keeps st st" "keeps st (st\<lparr>r_peer_addr := a\<rparr>)" "keeps st (st\<lparr>r_timeout_count := n\<rparr>)"
  "keeps st (st\<lparr>r_pc := RecvRaised e\<rparr>)" "keeps st (st\<lparr>r_peer_addr := a, r_total_bytes := b\<rparr>)"
  "keeps st (st\<lparr>r_peer_addr := a, r_pc := RecvRaised e\<rparr>)"
  by (simp_all add: keeps_def)

lemma acks_sound_Nil [simp]: "acks_sound [] st"
  by (simp add: acks_sound_def)

lemma handle_start_keeps:
  assumes "handle_start cfg tid h data addr st = (out, st')" and "r_transfer_id st = Some tid"
  shows "keeps st st' \<and> acks_sound out st'"
proof -
  let ?sp = "take (nat (h_length h)) (drop header_size data)"
  define peer where "peer = (case r_peer_addr st of None \<Rightarrow> addr | Some p \<Rightarrow> p)"
  show ?thesis
  proof (cases "h_flags h \<noteq> FLAG_START \<or> h_seq_num h \<noteq> 0 \<or> \<not> validate_length h data
      \<or> verify_checksum h ?sp \<noteq> Inr True")
    case True
    with assms(1) have "out = []" "st' = st"
      by (auto simp: handle_start_def Let_def split: if_splits)
    then show ?thesis by simp
  next
    case ok: False
    show ?thesis
    proof (cases "decode_start_metadata ?sp")
      case (Inl e)
      with ok assms(1) have "out = []" "keeps st st'"
        by (auto simp: handle_start_def Let_def)
      then show ?thesis by simp
    next
      case (Inr m)
      obtain sz wm wt where m: "m = (sz, wm, wt)" by (metis prod_cases3)
      show ?thesis
      proof (cases "(rc_expected_mode cfg \<noteq> None \<and> wm \<noteq> rc_expected_mode cfg)
          \<or> (rc_expected_type cfg \<noteq> None \<and> wt \<noteq> rc_expected_type cfg)")
        case True
        with ok Inr m assms(1) have "out = []" "keeps st st'"
          by (auto simp: handle_start_def Let_def split: if_splits)
        then show ?thesis by simp
      next
        case False
        let ?st2 = "st\<lparr>r_peer_addr := Some peer, r_total_bytes := (if r_total_bytes st = None \<and> 0 < sz
                                     then Some sz else r_total_bytes st)\<rparr>"
        from ok have g: "\<not> (h_flags h \<noteq> FLAG_START \<or> h_seq_num h \<noteq> 0)" "\<not> \<not> validate_length h data"
          "\<not> verify_checksum h ?sp \<noteq> Inr True" by blast+
        from False have f: "\<not> (rc_expected_mode cfg \<noteq> None \<and> wm \<noteq> rc_expected_mode cfg)"
          "\<not> (rc_expected_type cfg \<noteq> None \<and> wt \<noteq> rc_expected_type cfg)" by blast+
        have "send_ack peer tid 0 ?st2 = (out, st')"
          using assms(1)
          by (simp only: handle_start_def Let_def if_not_P [OF g(1)] if_not_P [OF g(2)]
              if_not_P [OF g(3)] Inr m sum.case prod.case if_not_P [OF f(1)] if_not_P [OF f(2)]
              peer_def receiver.simps)
        from send_ack_keeps [OF this] assms(2) have "keeps ?st2 st' \<and> acks_sound out st'" by simp
        then show ?thesis using keeps_trans [of st ?st2 st'] by simp
      qed
    qed
  qed
qed

lemma payload_split:
  "validate_length h data \<Longrightarrow> take (nat (h_length h)) (drop header_size data) = drop header_size data
    \<and> h_length h = int (length (drop header_size data)) \<and> header_size \<le> length data"
  by (auto simp: validate_length_def Let_def)

lemma handle_payload_cases:
  assumes "handle_payload cfg tid h payload addr st = (out, st')" and "r_transfer_id st = Some tid"
    and "deserialize data = Inr h" and "h_transfer_id h = tid" and "receiver_inv st"
  shows "acks_sound out st' \<and>
    (if h_seq_num h = r_expected_seq st
     then r_yielded st' = r_yielded st @ [payload] \<and> r_expected_seq st' = r_expected_seq st + 1
       \<and> r_transfer_id st' = Some tid
       \<and> r_committed_bytes st' = r_committed_bytes st + int (length payload)
       \<and> r_pc st' = (if has_flag (h_flags h) FLAG_FIN then Grace grace_attempts (h_seq_num h) else RecvTop)
     else keeps st st')"
proof -
  define peer where "peer = (case r_peer_addr st of None \<Rightarrow> addr | Some p \<Rightarrow> p)"
  have rng: "0 \<le> tid" "tid < 256 ^ 4" "0 \<le> h_seq_num h" "h_seq_num h < 256 ^ 4"
    using deserialize_ranges [OF assms(3)] assms(4) by auto
  have e0: "0 \<le> r_expected_seq st" using assms(5) by (simp add: receiver_inv_def)
  show ?thesis
  proof (cases "h_seq_num h = r_expected_seq st")
    case True
    let ?st2 = "st\<lparr>r_peer_addr := Some peer, r_expected_seq := r_expected_seq st + 1,
        r_committed_bytes := r_committed_bytes st + int (length payload)\<rparr>"
    obtain p where p: "ack_packet tid (h_seq_num h) = Inr p"
      using ack_packet_ok rng by blast
    then have "send_ack peer tid (h_seq_num h) ?st2 = ([(peer, p)], ?st2)" by (simp add: send_ack_def)
    with True assms(1) have "out = [(peer, p)]" and "st' = ?st2\<lparr>r_yielded := r_yielded st @ [payload],
        r_progress := r_progress st @ [(r_committed_bytes st + int (length payload), r_total_bytes st)],
        r_pc := (if has_flag (h_flags h) FLAG_FIN then Grace grace_attempts (h_seq_num h) else RecvTop)\<rparr>"
      by (auto simp: handle_payload_def Let_def peer_def)
    then show ?thesis using True p assms(2) by (auto simp: acks_sound_def)
  next
    case False
    let ?st2 = "st\<lparr>r_peer_addr := Some peer\<rparr>"
    from False assms(1) have "(out, st') = ([], ?st2) \<or>
        send_ack peer tid (r_expected_seq st - 1) ?st2 = (out, st')"
      by (auto simp: handle_payload_def Let_def peer_def split: if_splits)
    then have "keeps ?st2 st' \<and> acks_sound out st'"
      using send_ack_keeps [of peer tid "r_expected_seq st - 1" ?st2 out st'] assms(2) by auto
    with False show ?thesis using keeps_trans [of st ?st2 st'] by simp
  qed
qed

lemma handle_datagram_cases:
  assumes "handle_datagram cfg d addr st = (out, st')" and "receiver_inv st" and "r_pc st = RecvTop"
  shows "acks_sound out st' \<and> (keeps st st' \<or> delivers d st st')"
proof -
  let ?d = "take RECV_BUF d"
  show ?thesis
  proof (cases "length ?d < header_size \<or> (r_peer_addr st \<noteq> None \<and> r_peer_addr st \<noteq> Some addr)")
    case True
    with assms(1) have "out = []" "st' = st" by (auto simp: handle_datagram_def Let_def split: if_splits)
    then show ?thesis by simp
  next
    case gate: False
    then obtain h where h: "deserialize ?d = Inr h" using deserialize_Inr_iff [of ?d] by fastforce
    define tid where "tid = (case r_transfer_id st of None \<Rightarrow> h_transfer_id h | Some t \<Rightarrow> t)"
    let ?st1 = "st\<lparr>r_transfer_id := Some tid\<rparr>"
    have k1: "keeps st ?st1" by (auto simp: keeps_def tid_def)
    show ?thesis
    proof (cases "h_transfer_id h = tid")
      case False
      with gate h assms(1) have "out = []" "st' = st"
        by (auto simp: handle_datagram_def Let_def tid_def)
      then show ?thesis by simp
    next
      case t: True
      then have tid_st: "\<forall>t. r_transfer_id st = Some t \<longrightarrow> t = h_transfer_id h" by (auto simp: tid_def)
      let ?pl = "take (nat (h_length h)) (drop header_size ?d)"
      have r: "(out, st') = (if has_flag (h_flags h) FLAG_ABORT then
            (if verify_checksum h [] \<noteq> Inr True then ([], ?st1)
             else ([], ?st1\<lparr>r_pc := RecvRaised (RuntimeError ''Transfer aborted by sender'')\<rparr>))
          else if has_flag (h_flags h) FLAG_START then handle_start cfg tid h ?d addr ?st1
          else if \<not> validate_length h ?d then ([], ?st1)
          else if \<not> is_valid_flags (h_flags h) then ([], ?st1)
          else if verify_checksum h ?pl \<noteq> Inr True then ([], ?st1)
          else handle_payload cfg tid h ?pl addr ?st1)"
      proof -
        have "(case r_transfer_id st of None \<Rightarrow> h_transfer_id h | Some t \<Rightarrow> t) = h_transfer_id h"
          using t by (simp add: tid_def)
        with gate h show ?thesis
          unfolding assms(1) [symmetric] t [symmetric] by (auto simp: handle_datagram_def Let_def)
      qed
      show ?thesis
      proof (cases "\<not> has_flag (h_flags h) FLAG_ABORT \<and> \<not> has_flag (h_flags h) FLAG_START
          \<and> validate_length h ?d \<and> is_valid_flags (h_flags h) \<and> verify_checksum h ?pl = Inr True")
        case True
        then have hp: "handle_payload cfg tid h ?pl addr ?st1 = (out, st')" using r by auto
        have pl: "?pl = drop header_size ?d" "h_length h = int (length (drop header_size ?d))"
          using payload_split [of h ?d] True by auto
        have i1: "receiver_inv ?st1" using assms(2) by simp
        from handle_payload_cases [OF hp _ h t i1]
        have c: "acks_sound out st'" "if h_seq_num h = r_expected_seq st
           then r_yielded st' = r_yielded st @ [?pl] \<and> r_expected_seq st' = r_expected_seq st + 1
             \<and> r_transfer_id st' = Some tid
             \<and> r_committed_bytes st' = r_committed_bytes st + int (length ?pl)
             \<and> r_pc st' = (if has_flag (h_flags h) FLAG_FIN then Grace grace_attempts (h_seq_num h) else RecvTop)
           else keeps ?st1 st'" by simp_all
        have int: "intact ?d" using True h pl by (simp add: intact_def)
        show ?thesis
        proof (cases "h_seq_num h = r_expected_seq st")
          case seq: True
          with c(2) have "delivers d st st'"
            unfolding delivers_def using True h int pl t tid_st by (intro exI [of _ h]) simp
          with c(1) show ?thesis by blast
        next
          case False
          with c k1 keeps_trans show ?thesis by auto
        qed
      next
        case False
        with r have "(out = [] \<and> keeps ?st1 st') \<or> handle_start cfg tid h ?d addr ?st1 = (out, st')"
          by (auto split: if_splits)
        then have "acks_sound out st' \<and> keeps ?st1 st'"
          using handle_start_keeps [of cfg tid h ?d addr ?st1 out st'] by auto
        with k1 keeps_trans show ?thesis by blast
      qed
    qed
  qed
qed

section \<open>Steps of the generator\<close>

definition same_data :: "receiver \<Rightarrow> receiver \<Rightarrow> bool" where
  "same_data st st' \<longleftrightarrow> r_yielded st' = r_yielded st \<and> r_expected_seq st' = r_expected_seq st
     \<and> r_committed_bytes st' = r_committed_bytes st
     \<and> (\<forall>t. r_transfer_id st = Some t \<longrightarrow> r_transfer_id st' = Some t)
     \<and> (case r_pc st' of
          RecvTop \<Rightarrow> r_pc st = RecvTop
        | Grace n f \<Rightarrow> (\<exists>m. r_pc st = Grace m f)
        | RecvReturned \<Rightarrow> (\<exists>m f. r_pc st = Grace m f) \<or> r_pc st = RecvReturned
        | RecvRaised e \<Rightarrow> True)"

definition grace_inv :: "receiver \<Rightarrow> bool" where
  "grace_inv st \<longleftrightarrow> (\<forall>n f. r_pc st = Grace n f \<longrightarrow> f = r_expected_seq st - 1)"

lemma keeps_same_data: "keeps st st' \<Longrightarrow> r_pc st = RecvTop \<Longrightarrow> same_data st st'"
  by (auto simp: keeps_def same_data_def)

lemma same_data_inv: "same_data st st' \<Longrightarrow> receiver_inv st \<Longrightarrow> receiver_inv st'"
  by (simp add: same_data_def receiver_inv_def)

lemma same_data_grace: "same_data st st' \<Longrightarrow> grace_inv st \<Longrightarrow> grace_inv st'"
  by (auto simp: same_data_def grace_inv_def)

lemma delivers_grace: "delivers d st st' \<Longrightarrow> grace_inv st'"
  by (auto simp: delivers_def grace_inv_def split: if_splits)

lemma same_data_pc [simp]:
  "r_pc st = RecvTop \<Longrightarrow> same_data st (st\<lparr>r_timeout_count := n\<rparr>)"
  "same_data st (st\<lparr>r_pc := RecvRaised e\<rparr>)"
  "same_data st (st\<lparr>r_timeout_count := n, r_pc := RecvRaised e\<rparr>)"
  by (simp_all add: same_data_def)

lemma after_grace_same:
  assumes "after_grace n f (out, st1) = (out', st')" and "r_pc st = Grace m f"
    and "same_data st st1"
  shows "out' = out \<and> same_data st st' \<and> r_expected_seq st' = r_expected_seq st1
    \<and> r_peer_addr st' = r_peer_addr st1 \<and> r_transfer_id st' = r_transfer_id st1"
  using assms by (auto simp: after_grace_def same_data_def split: receiver_pc.splits if_splits)

lemma grace_datagram_spec:
  assumes "grace_datagram f d addr st = (out, st1)" and "r_pc st = Grace m f" and "grace_inv st"
  shows "same_data st st1 \<and> acks_sound out st1"
  using assms
  by (auto simp: grace_datagram_def Let_def same_data_def acks_sound_def grace_inv_def send_ack_def
      split: if_splits sum.splits)
    (rule exI, rule conjI, erule sym, rule exI, rule conjI, assumption, simp)

lemma receiver_step_cases:
  assumes "receiver_step cfg (c, rv) st = (out, st')" and "receiver_inv st" and "grace_inv st"
  shows "acks_sound out st' \<and> (same_data st st'
     \<or> (\<exists>d a. rv = Datagram d a \<and> r_pc st = RecvTop \<and> delivers d st st'))"
proof (cases "r_pc st")
  case RecvTop
  show ?thesis
  proof (cases "\<not> c \<and> (\<exists>d a. rv = Datagram d a)")
    case True
    then obtain d a where rv: "rv = Datagram d a" by blast
    let ?st0 = "st\<lparr>r_timeout_count := 0\<rparr>"
    have "handle_datagram cfg d a ?st0 = (out, st')"
      using assms(1) RecvTop True rv by (simp add: receiver_step_def)
    from handle_datagram_cases [OF this] assms(2) RecvTop
    have "acks_sound out st' \<and> (keeps ?st0 st' \<or> delivers d ?st0 st')" by simp
    moreover have "delivers d ?st0 st' \<Longrightarrow> delivers d st st'" by (simp add: delivers_def)
    moreover have "keeps ?st0 st' \<Longrightarrow> same_data st st'"
      using RecvTop by (auto simp: keeps_def same_data_def)
    ultimately show ?thesis using rv RecvTop by blast
  next
    case False
    with assms(1) RecvTop have "out = []" "same_data st st'"
      by (auto simp: receiver_step_def Let_def split: if_splits recv.splits)
    then show ?thesis by simp
  qed
next
  case (Grace n f)
  show ?thesis
  proof (cases rv)
    case Timeout
    have "after_grace n f ([], st) = (out, st')" using assms(1) Grace Timeout by (simp add: receiver_step_def)
    from after_grace_same [OF this Grace] have "out = []" "same_data st st'"
      using Grace by (auto simp: same_data_def)
    then show ?thesis by simp
  next
    case (Datagram d a)
    obtain o1 st1 where g: "grace_datagram f d a st = (o1, st1)" by (metis surj_pair)
    with assms(1) Grace Datagram have ag: "after_grace n f (o1, st1) = (out, st')"
      by (simp add: receiver_step_def)
    from grace_datagram_spec [OF g Grace assms(3)] have s: "same_data st st1" "acks_sound o1 st1" by simp_all
    from after_grace_same [OF ag Grace s(1)] s(2) show ?thesis by (auto simp: acks_sound_def)
  next
    case (RecvOSError m)
    with assms(1) Grace show ?thesis by (auto simp: receiver_step_def same_data_def)
  qed
qed (use assms(1) in \<open>auto simp: receiver_step_def same_data_def\<close>)

lemma receiver_step_inv:
  assumes "receiver_inv st" and "grace_inv st"
  shows "receiver_inv (snd (receiver_step cfg i st)) \<and> grace_inv (snd (receiver_step cfg i st))"
proof -
  obtain c rv out st' where i: "i = (c, rv)" and s: "receiver_step cfg (c, rv) st = (out, st')"
    by (metis surj_pair)
  from receiver_step_cases [OF s assms] show ?thesis
    using same_data_inv same_data_grace delivers_inv delivers_grace assms by (auto simp: i s)
qed

lemma receiver_run_inv:
  "receiver_inv st \<Longrightarrow> grace_inv st \<Longrightarrow>
     receiver_inv (snd (receiver_run cfg st ins)) \<and> grace_inv (snd (receiver_run cfg st ins))"
proof (induction ins arbitrary: st)
  case (Cons i ins)
  from receiver_step_inv [OF Cons.prems, of cfg i] Cons.IH [of "snd (receiver_step cfg i st)"]
  show ?case by (simp add: split_beta Let_def)
qed simp

text \<open>The byte counter reported to callers counts exactly the bytes handed out, whatever arrives.\<close>

lemma receive_counts:
  "r_committed_bytes (snd (receive_chunks_rdt cfg ins))
     = int (length (concat (r_yielded (snd (receive_chunks_rdt cfg ins)))))"
proof -
  have "grace_inv (receiver_init cfg)" by (simp add: grace_inv_def receiver_init_def)
  from receiver_run_inv [OF receiver_inv_init this] show ?thesis
    by (simp add: receive_chunks_rdt_def receiver_inv_def)
qed

section \<open>In-order prefix delivery\<close>

text \<open>
  A channel that loses, duplicates, delays and reorders datagrams freely, and corrupts them by
  bursts of up to four bytes, or injects datagrams that are not intact or belong to another
  transfer. Nothing is assumed about which datagrams arrive or when.
\<close>

definition channel_ok :: "sender_cfg \<Rightarrow> (bytes \<times> bool) list \<Rightarrow> bytes \<Rightarrow> bool" where
  "channel_ok cfg ps d \<longleftrightarrow>
     sender_packet cfg ps d
     \<or> (\<exists>pre m m' post. sender_packet cfg ps (pre @ m @ post) \<and> d = pre @ m' @ post
          \<and> length m = length m' \<and> m \<noteq> m' \<and> burst_fits (length pre) (length m))
     \<or> \<not> intact (take RECV_BUF d)
     \<or> (\<exists>h. deserialize (take RECV_BUF d) = Inr h \<and> h_transfer_id h \<noteq> sc_transfer_id cfg)"

lemma start_packet_len: "start_packet cfg = Inr p \<Longrightarrow> length p \<le> 30"
  by (auto simp: start_packet_def encode_start_metadata_def Let_def make_packet_Inr pack_be_Inr
      modes_def types_def split: sum.splits if_splits option.splits simp del: be_bytes.simps)

lemma sender_packet_short:
  assumes "sender_packet cfg ps p" and "\<forall>ch\<in>set ps. length (fst ch) \<le> 1024"
  shows "length p \<le> RECV_BUF"
proof -
  have "length (fst (ps ! i)) \<le> 1024" if "i < length ps" for i
    using assms(2) that by simp
  then show ?thesis
    using assms(1) start_packet_len [of cfg p]
    by (auto simp: sender_packet_def RECV_BUF_def header_size_def data_packet_def abort_packet_def
        make_packet_Inr simp del: be_bytes.simps) fastforce
qed

lemma sender_packet_intact:
  assumes "sender_packet cfg ps p"
  shows "intact p"
  using assms
  by (auto simp: sender_packet_def start_packet_def data_packet_def abort_packet_def
      split: sum.splits if_splits intro: make_packet_intact)

lemma channel_ok_intact:
  assumes ok: "channel_ok cfg ps d" and small: "\<forall>ch\<in>set ps. length (fst ch) \<le> 1024"
    and int: "intact (take RECV_BUF d)" and h: "deserialize (take RECV_BUF d) = Inr h"
    and tid: "h_transfer_id h = sc_transfer_id cfg"
  shows "sender_packet cfg ps d \<and> take RECV_BUF d = d"
proof -
  have short: "take RECV_BUF p = p" if "sender_packet cfg ps p" for p
    using sender_packet_short [OF that small] by simp
  have "\<not> intact (take RECV_BUF (pre @ m' @ post))"
    if "sender_packet cfg ps (pre @ m @ post)" "length m = length m'" "m \<noteq> m'"
      "burst_fits (length pre) (length m)" for pre m m' post
  proof -
    have "length (pre @ m' @ post) \<le> RECV_BUF"
      using sender_packet_short [OF that(1) small] that(2) by simp
    then have "take RECV_BUF (pre @ m' @ post) = pre @ m' @ post" by (rule take_all)
    with burst_detected [OF sender_packet_intact [OF that(1)] that(2-4)] show ?thesis by simp
  qed
  with ok int h tid have "sender_packet cfg ps d" by (auto simp: channel_ok_def)
  with short show ?thesis by blast
qed

text \<open>Flags and payload of the packets of a transfer, as the receiver reads them.\<close>

lemma flag_bits [simp]:
  "has_flag FLAG_FIN FLAG_FIN" "\<not> has_flag FLAG_DATA FLAG_FIN" "has_flag FLAG_START FLAG_START"
  "has_flag FLAG_ABORT FLAG_ABORT" "\<not> has_flag FLAG_FIN FLAG_ABORT" "\<not> has_flag FLAG_FIN FLAG_START"
  "\<not> has_flag FLAG_DATA FLAG_ABORT" "\<not> has_flag FLAG_DATA FLAG_START"
  "\<not> has_flag FLAG_START FLAG_ABORT" "\<not> has_flag FLAG_ACK FLAG_FIN"
  by (simp_all add: has_flag_def flag_defs)

lemma data_packet_reads:
  assumes "data_packet cfg seq ch = Inr d"
  shows "\<exists>h. deserialize d = Inr h \<and> h_transfer_id h = sc_transfer_id cfg \<and> h_seq_num h = seq
    \<and> h_flags h = (if snd ch then FLAG_FIN else FLAG_DATA) \<and> drop header_size d = fst ch"
  using make_packet_parses [of "sc_transfer_id cfg" seq 0 "if snd ch then FLAG_FIN else FLAG_DATA" "fst ch" d]
    assms by (auto simp: data_packet_def)

lemma sender_packet_payload:
  assumes "sender_packet cfg ps d" and "deserialize d = Inr h"
    and "\<not> has_flag (h_flags h) FLAG_ABORT" and "\<not> has_flag (h_flags h) FLAG_START"
  shows "\<exists>i<length ps. h_seq_num h = int i \<and> drop header_size d = fst (ps ! i)
    \<and> (has_flag (h_flags h) FLAG_FIN \<longleftrightarrow> snd (ps ! i))"
proof -
  from assms(1) consider (start) "start_packet cfg = Inr d" | (abort) k where "abort_packet cfg k = Inr d"
    | (data) i where "i < length ps" "data_packet cfg (int i) (ps ! i) = Inr d"
    by (auto simp: sender_packet_def)
  then show ?thesis
  proof cases
    case start
    then obtain mp where "make_packet (sc_transfer_id cfg) 0 0 FLAG_START mp = Inr d"
      by (auto simp: start_packet_def split: sum.splits)
    from make_packet_parses [OF this] assms show ?thesis by auto
  next
    case abort
    then have "make_packet (sc_transfer_id cfg) k 0 FLAG_ABORT [] = Inr d" by (simp add: abort_packet_def)
    from make_packet_parses [OF this] assms show ?thesis by auto
  next
    case data
    from data_packet_reads [OF data(2)] data(1) assms show ?thesis by auto
  qed
qed

definition last_only :: "(bytes \<times> bool) list \<Rightarrow> bool" where
  "last_only ps \<longleftrightarrow> (\<forall>i<length ps. snd (ps ! i) \<longrightarrow> Suc i = length ps)"

definition prefix_inv :: "sender_cfg \<Rightarrow> (bytes \<times> bool) list \<Rightarrow> receiver \<Rightarrow> bool" where
  "prefix_inv cfg ps st \<longleftrightarrow>
     (\<exists>k\<le>length ps. r_yielded st = map fst (take k ps) \<and> r_expected_seq st = int k
        \<and> ((\<exists>n f. r_pc st = Grace n f) \<or> r_pc st = RecvReturned \<longrightarrow> k = length ps))
     \<and> r_transfer_id st = Some (sc_transfer_id cfg)"

lemma same_data_prefix: "same_data st st' \<Longrightarrow> prefix_inv cfg ps st \<Longrightarrow> prefix_inv cfg ps st'"
  by (cases "r_pc st'") (auto simp: same_data_def prefix_inv_def)

lemma delivers_prefix:
  assumes del: "delivers d st st'" and pre: "prefix_inv cfg ps st"
    and ok: "channel_ok cfg ps d" and small: "\<forall>ch\<in>set ps. length (fst ch) \<le> 1024"
    and last: "last_only ps"
  shows "prefix_inv cfg ps st'"
proof -
  obtain k where k: "k \<le> length ps" "r_yielded st = map fst (take k ps)" "r_expected_seq st = int k"
    and tid: "r_transfer_id st = Some (sc_transfer_id cfg)"
    using pre by (auto simp: prefix_inv_def)
  from del obtain h where h: "deserialize (take RECV_BUF d) = Inr h" "intact (take RECV_BUF d)"
    "h_seq_num h = int k" "h_transfer_id h = sc_transfer_id cfg"
    "\<not> has_flag (h_flags h) FLAG_ABORT" "\<not> has_flag (h_flags h) FLAG_START"
    and st': "r_yielded st' = r_yielded st @ [drop header_size (take RECV_BUF d)]"
      "r_expected_seq st' = int (Suc k)" "r_transfer_id st' = Some (sc_transfer_id cfg)"
      "r_pc st' = (if has_flag (h_flags h) FLAG_FIN then Grace grace_attempts (h_seq_num h) else RecvTop)"
    unfolding delivers_def using k tid by auto
  from channel_ok_intact [OF ok small h(2,1,4)] have sp: "sender_packet cfg ps d" "take RECV_BUF d = d"
    by simp_all
  from sender_packet_payload [OF sp(1)] h sp(2) have p: "k < length ps" "drop header_size d = fst (ps ! k)"
    "has_flag (h_flags h) FLAG_FIN \<longleftrightarrow> snd (ps ! k)"
    by auto
  have "r_yielded st' = map fst (take (Suc k) ps)"
    using k p st'(1) sp(2) by (simp add: take_Suc_conv_app_nth)
  moreover have "(\<exists>n f. r_pc st' = Grace n f) \<or> r_pc st' = RecvReturned \<Longrightarrow> Suc k = length ps"
    using last p st'(4) by (auto simp: last_only_def split: if_splits)
  ultimately show ?thesis
    unfolding prefix_inv_def using p(1) st'(2,3) by (intro conjI exI [of _ "Suc k"]) auto
qed

lemma receiver_run_prefix:
  assumes "receiver_inv st" and "grace_inv st" and "prefix_inv cfg ps st"
    and "\<forall>c d a. (c, Datagram d a) \<in> set ins \<longrightarrow> channel_ok cfg ps d"
    and "\<forall>ch\<in>set ps. length (fst ch) \<le> 1024" and "last_only ps"
  shows "prefix_inv cfg ps (snd (receiver_run rcfg st ins))"
  using assms(1-4)
proof (induction ins arbitrary: st)
  case Nil
  then show ?case by simp
next
  case (Cons i ins)
  obtain c rv out st' where i: "i = (c, rv)" and s: "receiver_step rcfg (c, rv) st = (out, st')"
    by (metis surj_pair)
  from receiver_step_cases [OF s Cons.prems(1,2)]
  have "prefix_inv cfg ps st'"
  proof (elim conjE disjE exE)
    fix d a
    assume rv: "rv = Datagram d a" and del: "delivers d st st'"
    have "(c, Datagram d a) \<in> set (i # ins)" by (simp add: i rv)
    with Cons.prems(4) have ok: "channel_ok cfg ps d" by blast
    show ?thesis by (rule delivers_prefix [OF del Cons.prems(3) ok assms(5,6)])
  qed (use same_data_prefix Cons.prems(3) in blast)
  moreover have "receiver_inv st'" "grace_inv st'"
    using receiver_step_inv [OF Cons.prems(1,2), of rcfg "(c, rv)"] s by simp_all
  moreover have "\<forall>c d a. (c, Datagram d a) \<in> set ins \<longrightarrow> channel_ok cfg ps d"
    using Cons.prems(4) by (meson list.set_intros(2))
  ultimately have "prefix_inv cfg ps (snd (receiver_run rcfg st' ins))" by (intro Cons.IH)
  with s show ?case by (simp add: i split_beta Let_def)
qed

lemma last_only_lookahead:
  assumes "lookahead chunks = (ps, err)"
  shows "last_only ps \<and> (\<forall>ch\<in>set ps. fst ch \<in> insert [] (set (fst chunks)))"
proof -
  have l: "last_only (fst (lookahead_from c cs e)) \<and>
      (\<forall>ch\<in>set (fst (lookahead_from c cs e)). fst ch \<in> set (c # cs))" for c cs e
  proof (induction c cs e rule: lookahead_from.induct)
    case (3 current nxt it err)
    then show ?case
      by (auto simp: last_only_def split_beta nth_Cons split: nat.splits)
  qed (simp_all add: last_only_def)
  show ?thesis
  proof (cases chunks rule: lookahead.cases)
    case (3 c cs e)
    with assms l [of c cs e] show ?thesis by simp
  qed (use assms in \<open>auto simp: last_only_def\<close>)
qed

lemma lookahead_small:
  assumes "lookahead chunks = (ps, err)" "\<forall>c\<in>set (fst chunks). length c \<le> n"
  shows "\<forall>ch\<in>set ps. length (fst ch) \<le> n"
proof
  fix ch assume "ch \<in> set ps"
  with last_only_lookahead [OF assms(1)] have "fst ch = [] \<or> fst ch \<in> set (fst chunks)" by blast
  with assms(2) show "length (fst ch) \<le> n" by auto
qed

lemma receive_prefix:
  assumes "\<forall>c d a. (c, Datagram d a) \<in> set ins \<longrightarrow> channel_ok cfg ps d"
    and "\<forall>ch\<in>set ps. length (fst ch) \<le> 1024" and "last_only ps"
    and "rc_transfer_id_hint rcfg = Some (sc_transfer_id cfg)"
  shows "prefix_inv cfg ps (snd (receive_chunks_rdt rcfg ins))"
  unfolding receive_chunks_rdt_def
  by (rule receiver_run_prefix [OF receiver_inv_init _ _ assms(1-3)])
    (use assms(4) in \<open>auto simp: grace_inv_def prefix_inv_def receiver_init_def\<close>)

end
