(* ===== verification/RDT_Link.thy ===== *)
theory RDT_Link
  imports RDT_Receiver "HOL-Library.Multiset"
begin

text \<open>
  Sender and receiver joined by a datagram network: the datagrams in flight in either direction are
  multisets, so delivery order is free. Steps of either end, loss, noise and, when the network has
  it, duplication interleave freely. The section proves safety in every reachable state and, for a
  START that was sent once, that a transfer reported as successful was received completely.
\<close>

section \<open>Which acknowledgements a datagram can cause\<close>

definition acks_below :: "acks \<Rightarrow> receiver \<Rightarrow> bool" where
  "acks_below out st' \<longleftrightarrow>
     (\<forall>(a, p)\<in>set out. \<exists>tid k. r_transfer_id st' = Some tid \<and> ack_packet tid k = Inr p \<and> k < r_expected_seq st')"

definition start_answer :: "bytes \<Rightarrow> acks \<Rightarrow> receiver \<Rightarrow> bool" where
  "start_answer d out st' \<longleftrightarrow>
     (\<exists>h a p. deserialize (take RECV_BUF d) = Inr h \<and> intact (take RECV_BUF d) \<and> h_flags h = FLAG_START
        \<and> r_transfer_id st' = Some (h_transfer_id h)
        \<and> out = [(a, p)] \<and> ack_packet (h_transfer_id h) 0 = Inr p)"

lemma acks_below_Nil [simp]: "acks_below [] st"
  by (simp add: acks_below_def)

lemma acks_below_one:
  "ack_packet tid k = Inr p \<Longrightarrow> r_transfer_id st = Some tid \<Longrightarrow> k < r_expected_seq st
     \<Longrightarrow> acks_below [(a, p)] st"
  by (auto simp: acks_below_def)

lemma send_ack_shape:
  "send_ack peer tid k st = (out, st') \<Longrightarrow>
     (out = [] \<or> (\<exists>p. out = [(peer, p)] \<and> ack_packet tid k = Inr p))
     \<and> r_transfer_id st' = r_transfer_id st \<and> r_expected_seq st' = r_expected_seq st"
  by (auto simp: send_ack_def split: sum.splits)

lemma handle_start_shape:
  assumes "handle_start cfg tid h data addr st = (out, st')"
  shows "(out = [] \<or> (\<exists>a p. out = [(a, p)] \<and> ack_packet tid 0 = Inr p) \<and> h_flags h = FLAG_START
      \<and> validate_length h data \<and> verify_checksum h (take (nat (h_length h)) (drop header_size data)) = Inr True)
    \<and> r_transfer_id st' = r_transfer_id st"
  using assms
  by (auto simp: handle_start_def Let_def split: if_splits sum.splits prod.splits
      dest!: send_ack_shape)

lemma handle_payload_below:
  assumes "handle_payload cfg tid h payload addr st = (out, st')" and "r_transfer_id st = Some tid"
  shows "acks_below out st'"
proof (cases "h_seq_num h = r_expected_seq st")
  case True
  with assms show ?thesis
    by (auto simp: handle_payload_def Let_def acks_below_def split: prod.splits if_splits dest!: send_ack_shape)
next
  case False
  define peer where "peer = (case r_peer_addr st of None \<Rightarrow> addr | Some p \<Rightarrow> p)"
  from False assms(1) have "out = [] \<or>
      send_ack peer tid (r_expected_seq st - 1) (st\<lparr>r_peer_addr := Some peer\<rparr>) = (out, st')"
    by (auto simp: handle_payload_def Let_def peer_def split: if_splits)
  with assms(2) show ?thesis
    by (auto dest!: send_ack_shape intro!: acks_below_one)
qed

lemma handle_datagram_split:
  assumes "handle_datagram cfg d addr st = (out, st')"
  shows "out = [] \<or> (\<exists>h st1. deserialize (take RECV_BUF d) = Inr h
    \<and> st1 = st\<lparr>r_transfer_id := Some (h_transfer_id h)\<rparr>
    \<and> (handle_start cfg (h_transfer_id h) h (take RECV_BUF d) addr st1 = (out, st')
       \<or> (\<exists>pl. handle_payload cfg (h_transfer_id h) h pl addr st1 = (out, st'))))"
  using assms
  by (auto simp: handle_datagram_def Let_def split: if_splits sum.splits)

lemma handle_datagram_acks:
  assumes "handle_datagram cfg d addr st = (out, st')"
  shows "acks_below out st' \<or> start_answer d out st'"
proof (cases "out = []")
  case False
  with handle_datagram_split [OF assms] obtain h st1 where
    h: "deserialize (take RECV_BUF d) = Inr h" "st1 = st\<lparr>r_transfer_id := Some (h_transfer_id h)\<rparr>"
    and c: "handle_start cfg (h_transfer_id h) h (take RECV_BUF d) addr st1 = (out, st')
       \<or> (\<exists>pl. handle_payload cfg (h_transfer_id h) h pl addr st1 = (out, st'))" by blast
  from c show ?thesis
  proof
    assume s: "handle_start cfg (h_transfer_id h) h (take RECV_BUF d) addr st1 = (out, st')"
    from handle_start_shape [OF s] False h(2) have o: "\<exists>a p. out = [(a, p)] \<and> ack_packet (h_transfer_id h) 0 = Inr p"
      and f: "h_flags h = FLAG_START" and v: "validate_length h (take RECV_BUF d)"
      "verify_checksum h (take (nat (h_length h)) (drop header_size (take RECV_BUF d))) = Inr True"
      and t: "r_transfer_id st' = Some (h_transfer_id h)"
      by auto
    have "intact (take RECV_BUF d)"
      using h(1) f v payload_split [OF v(1)] by (simp add: intact_def valid_flags_iff flag_defs)
    with o f t h(1) show ?thesis unfolding start_answer_def by blast
  next
    assume "\<exists>pl. handle_payload cfg (h_transfer_id h) h pl addr st1 = (out, st')"
    with handle_payload_below h(2) show ?thesis by fastforce
  qed
qed simp

lemma receiver_step_acks:
  assumes "receiver_step cfg (c, rv) st = (out, st')" and "grace_inv st"
  shows "acks_below out st' \<or> (\<exists>d a. rv = Datagram d a \<and> r_pc st = RecvTop \<and> start_answer d out st')"
proof (cases "r_pc st")
  case RecvTop
  then show ?thesis
    using assms(1) handle_datagram_acks
    by (auto simp: receiver_step_def Let_def split: if_splits recv.splits)
next
  case (Grace n f)
  have g: "acks_below o1 s1" if "grace_datagram f d a st = (o1, s1)" for d a o1 s1
    using that assms(2) Grace
    by (auto simp: grace_datagram_def Let_def grace_inv_def send_ack_def
        split: if_splits sum.splits intro!: acks_below_one [of _ f])
  have "acks_below o1 s1 \<Longrightarrow> after_grace n f (o1, s1) = (out, st') \<Longrightarrow> acks_below out st'" for o1 s1
    by (auto simp: after_grace_def acks_below_def split: receiver_pc.splits)
  with g show ?thesis
    using assms(1) Grace
    by (auto simp: receiver_step_def split: recv.splits) (metis acks_below_Nil surj_pair)+
qed (use assms(1) in \<open>auto simp: receiver_step_def\<close>)

section \<open>The network\<close>

record link_cfg =
  k_send :: sender_cfg
  k_recv :: receiver_cfg
  k_addr :: address
  k_dup :: bool

record link_state =
  l_sender :: sender
  l_receiver :: receiver
  l_fwd :: "bytes multiset"
  l_back :: "bytes multiset"

definition link_init :: "link_cfg \<Rightarrow> source \<Rightarrow> link_state" where
  "link_init K chunks =
     \<lparr> l_sender = sender_init (k_send K) chunks, l_receiver = receiver_init (k_recv K),
       l_fwd = {#}, l_back = {#} \<rparr>"

text \<open>Acknowledgements reach the sender when they are addressed to it.\<close>

definition acks_for :: "address \<Rightarrow> acks \<Rightarrow> bytes multiset" where
  "acks_for a out = mset (map snd (filter (\<lambda>x. fst x = a) out))"

inductive link_step :: "link_cfg \<Rightarrow> link_state \<Rightarrow> link_state \<Rightarrow> bool" for K where
  sender_runs: "sender_top (k_send K) c (l_sender l) = (out, s) \<Longrightarrow>
     link_step K l (l\<lparr>l_sender := s, l_fwd := l_fwd l + mset out\<rparr>)"
| sender_times_out: "sender_recv (k_send K) Timeout (l_sender l) = (out, s) \<Longrightarrow>
     link_step K l (l\<lparr>l_sender := s, l_fwd := l_fwd l + mset out\<rparr>)"
| sender_hears: "d \<in># l_back l \<Longrightarrow>
     sender_recv (k_send K) (Datagram d (sc_dest (k_send K))) (l_sender l) = (out, s) \<Longrightarrow>
     link_step K l (l\<lparr>l_sender := s, l_fwd := l_fwd l + mset out, l_back := l_back l - {#d#}\<rparr>)"
| sender_stray: "ack_of (k_send K) d a = None \<Longrightarrow>
     sender_recv (k_send K) (Datagram d a) (l_sender l) = (out, s) \<Longrightarrow>
     link_step K l (l\<lparr>l_sender := s, l_fwd := l_fwd l + mset out\<rparr>)"
| receiver_hears: "d \<in># l_fwd l \<Longrightarrow>
     receiver_step (k_recv K) (c, Datagram d (k_addr K)) (l_receiver l) = (out, r) \<Longrightarrow>
     link_step K l (l\<lparr>l_receiver := r, l_fwd := l_fwd l - {#d#},
        l_back := l_back l + acks_for (k_addr K) out\<rparr>)"
| receiver_times_out: "receiver_step (k_recv K) (c, Timeout) (l_receiver l) = (out, r) \<Longrightarrow>
     link_step K l (l\<lparr>l_receiver := r, l_back := l_back l + acks_for (k_addr K) out\<rparr>)"
| receiver_stray: "\<not> intact (take RECV_BUF d) \<Longrightarrow>
     receiver_step (k_recv K) (c, Datagram d a) (l_receiver l) = (out, r) \<Longrightarrow>
     link_step K l (l\<lparr>l_receiver := r, l_back := l_back l + acks_for (k_addr K) out\<rparr>)"
| lose_packet: "link_step K l (l\<lparr>l_fwd := l_fwd l - {#d#}\<rparr>)"
| lose_ack: "link_step K l (l\<lparr>l_back := l_back l - {#d#}\<rparr>)"
| copy_packet: "k_dup K \<Longrightarrow> d \<in># l_fwd l \<Longrightarrow> link_step K l (l\<lparr>l_fwd := add_mset d (l_fwd l)\<rparr>)"
| copy_ack: "k_dup K \<Longrightarrow> d \<in># l_back l \<Longrightarrow> link_step K l (l\<lparr>l_back := add_mset d (l_back l)\<rparr>)"

inductive link_reach :: "link_cfg \<Rightarrow> source \<Rightarrow> link_state \<Rightarrow> bool" for K chunks where
  reach_init: "link_reach K chunks (link_init K chunks)"
| reach_step: "link_reach K chunks l \<Longrightarrow> link_step K l l' \<Longrightarrow> link_reach K chunks l'"

text \<open>The two ends agree on the transfer, and chunks fit a datagram.\<close>

definition link_agrees :: "link_cfg \<Rightarrow> (bytes \<times> bool) list \<Rightarrow> bool" where
  "link_agrees K ps \<longleftrightarrow> rc_transfer_id_hint (k_recv K) = Some (sc_transfer_id (k_send K))
     \<and> (\<forall>ch\<in>set ps. length (fst ch) \<le> 1024)"

section \<open>Safety\<close>

definition link_inv :: "link_cfg \<Rightarrow> (bytes \<times> bool) list \<Rightarrow> exn option \<Rightarrow> link_state \<Rightarrow> bool" where
  "link_inv K ps err l \<longleftrightarrow>
     sender_inv (k_send K) ps err (l_sender l) \<and> receiver_inv (l_receiver l) \<and> grace_inv (l_receiver l)
     \<and> prefix_inv (k_send K) ps (l_receiver l)
     \<and> (\<forall>d\<in>#l_fwd l. sender_packet (k_send K) ps d)"

lemma receiver_step_prefix:
  assumes "receiver_step rcfg (c, rv) st = (out, st')"
    and "receiver_inv st" and "grace_inv st" and "prefix_inv cfg ps st"
    and "\<And>d a. rv = Datagram d a \<Longrightarrow> channel_ok cfg ps d"
    and "\<forall>ch\<in>set ps. length (fst ch) \<le> 1024" and "last_only ps"
  shows "receiver_inv st' \<and> grace_inv st' \<and> prefix_inv cfg ps st'"
proof -
  have "prefix_inv cfg ps (snd (receiver_run rcfg st [(c, rv)]))"
    by (rule receiver_run_prefix) (use assms in auto)
  with receiver_step_inv [OF assms(2,3), of rcfg "(c, rv)"] assms(1) show ?thesis by simp
qed

lemma link_inv_init:
  assumes "lookahead chunks = (ps, err)" and "link_agrees K ps"
  shows "link_inv K ps err (link_init K chunks)"
  using assms receiver_inv_init [of "k_recv K"]
  by (auto simp: link_inv_def link_init_def link_agrees_def grace_inv_def prefix_inv_def receiver_init_def
      intro: sender_inv_init)

lemma link_inv_sender:
  assumes "link_inv K ps err l" and "sender_inv (k_send K) ps err s"
    and "\<forall>p\<in>set out. sender_packet (k_send K) ps p"
  shows "link_inv K ps err (l\<lparr>l_sender := s, l_fwd := l_fwd l + mset out\<rparr>)"
    and "link_inv K ps err (l\<lparr>l_sender := s, l_fwd := l_fwd l + mset out, l_back := b\<rparr>)"
  using assms by (auto simp: link_inv_def)

lemma sender_recv_keeps:
  assumes "sender_inv cfg ps err st" and "sender_recv cfg rv st = (out, st')"
  shows "sender_inv cfg ps err st' \<and> (\<forall>p\<in>set out. sender_packet cfg ps p)"
  using sender_recv_inv [OF assms(1), of rv] sender_recv_sends [OF assms(1), of _ rv] assms(2)
  by (auto simp: sender_packet_def)

lemma sender_top_keeps:
  assumes "sender_inv cfg ps err st" and "sender_top cfg c st = (out, st')"
  shows "sender_inv cfg ps err st' \<and> (\<forall>p\<in>set out. sender_packet cfg ps p)"
  using sender_top_inv [OF assms(1), of c] sender_top_sends [OF assms(1), of _ c] assms(2) by auto

lemma link_inv_receiver:
  assumes "link_inv K ps err l" and "receiver_step (k_recv K) (c, rv) (l_receiver l) = (out, r)"
    and "\<And>d a. rv = Datagram d a \<Longrightarrow> channel_ok (k_send K) ps d"
    and "link_agrees K ps" and "last_only ps"
  shows "link_inv K ps err (l\<lparr>l_receiver := r, l_back := b\<rparr>)"
    and "link_inv K ps err (l\<lparr>l_receiver := r, l_fwd := l_fwd l - {#d#}, l_back := b\<rparr>)"
  using receiver_step_prefix [OF assms(2) _ _ _ assms(3)] assms(1,4,5)
  by (auto simp: link_inv_def link_agrees_def dest: in_diffD)

lemma link_step_inv:
  assumes "link_step K l l'" and "link_inv K ps err l" and ag: "link_agrees K ps" and lo: "last_only ps"
  shows "link_inv K ps err l'"
  using assms(1)
proof cases
  case (sender_runs c out s)
  with link_inv_sender [OF assms(2)] sender_top_keeps assms(2) show ?thesis
    by (metis link_inv_def)
next
  case (sender_times_out out s)
  with link_inv_sender [OF assms(2)] sender_recv_keeps assms(2) show ?thesis
    by (metis link_inv_def)
next
  case (sender_hears d out s)
  with link_inv_sender [OF assms(2)] sender_recv_keeps assms(2) show ?thesis
    by (metis link_inv_def)
next
  case (sender_stray d a out s)
  with link_inv_sender [OF assms(2)] sender_recv_keeps assms(2) show ?thesis
    by (metis link_inv_def)
next
  case (receiver_hears d c out r)
  have "channel_ok (k_send K) ps d"
    using receiver_hears(2) assms(2) by (auto simp: link_inv_def channel_ok_def)
  with link_inv_receiver(2) [OF assms(2) receiver_hears(3) _ ag lo] receiver_hears(1) show ?thesis by auto
next
  case (receiver_times_out c out r)
  with link_inv_receiver(1) [OF assms(2) receiver_times_out(2) _ ag lo] show ?thesis by auto
next
  case (receiver_stray d c a out r)
  then have "channel_ok (k_send K) ps d" by (simp add: channel_ok_def)
  with link_inv_receiver(1) [OF assms(2) receiver_stray(3) _ ag lo] receiver_stray(1) show ?thesis by auto
qed (use assms(2) in \<open>auto simp: link_inv_def dest: in_diffD\<close>)

lemma link_reach_inv:
  assumes "link_reach K chunks l" and "lookahead chunks = (ps, err)" and "link_agrees K ps"
  shows "link_inv K ps err l"
  using assms(1)
proof induction
  case reach_init
  show ?case by (rule link_inv_init [OF assms(2,3)])
next
  case (reach_step l l')
  have "last_only ps" using last_only_lookahead [OF assms(2)] by blast
  with reach_step link_step_inv assms(3) show ?case by blast
qed

section \<open>A transfer reported complete\<close>

text \<open>
  START and the first DATA packet are both acknowledged by number 0. When START was sent once and
  the network does not duplicate, at most one acknowledgement of it exists, the sender has consumed
  it before the data phase, and from then on every acknowledgement in flight is below the sequence
  number the receiver expects.
\<close>

lemma start_flags:
  assumes "start_packet cfg = Inr d"
  shows "\<exists>h. deserialize d = Inr h \<and> h_flags h = FLAG_START \<and> h_seq_num h = 0"
proof -
  from assms obtain mp where "make_packet (sc_transfer_id cfg) 0 0 FLAG_START mp = Inr d"
    by (auto simp: start_packet_def split: sum.splits)
  from make_packet_parses [OF this] show ?thesis by auto
qed

lemma data_flags:
  "data_packet cfg i ch = Inr d \<Longrightarrow> \<exists>h. deserialize d = Inr h \<and> h_flags h \<in> {FLAG_FIN, FLAG_DATA}"
  using data_packet_reads [of cfg i ch d] by auto

lemma abort_flags:
  "abort_packet cfg k = Inr d \<Longrightarrow> \<exists>h. deserialize d = Inr h \<and> h_flags h = FLAG_ABORT"
  using make_packet_parses [of "sc_transfer_id cfg" k 0 FLAG_ABORT "[]" d] by (auto simp: abort_packet_def)

lemma data_not_start: "data_packet cfg i ch = Inr d \<Longrightarrow> start_packet cfg \<noteq> Inr d"
  by (auto dest!: data_flags start_flags simp: flag_defs)

lemma abort_not_start: "abort_packet cfg k = Inr d \<Longrightarrow> start_packet cfg \<noteq> Inr d"
  by (auto dest!: abort_flags start_flags simp: flag_defs)

lemma sender_packet_start:
  "sender_packet cfg ps d \<Longrightarrow> deserialize d = Inr h \<Longrightarrow> h_flags h = FLAG_START \<Longrightarrow> start_packet cfg = Inr d"
  by (auto simp: sender_packet_def flag_defs dest: data_flags abort_flags)

lemma ack_of_ack_packet:
  assumes "ack_packet (sc_transfer_id cfg) k = Inr p"
  shows "ack_of cfg p (sc_dest cfg) = Some k"
proof -
  from make_packet_parses [OF assms [unfolded ack_packet_def]] obtain h where
    h: "deserialize p = Inr h" "h_transfer_id h = sc_transfer_id cfg" "h_seq_num h = 0" "h_ack_num h = k"
      "h_flags h = FLAG_ACK" "h_length h = 0" "verify_checksum h [] = Inr True" "length p = header_size"
    by auto
  then have "take ACK_BUF p = p" by (simp add: ACK_BUF_def)
  with h show ?thesis by (simp add: ack_of_def valid_ack_def valid_flags_iff flag_defs)
qed

lemma ack_packet_nonneg: "ack_packet tid k = Inr p \<Longrightarrow> 0 \<le> k"
  by (auto simp: ack_packet_def make_packet_Inr)

text \<open>What the sender's steps do to the fields the argument is about.\<close>

lemma fill_window_frame:
  "fill_window cfg ps st = (r, out, st') \<Longrightarrow>
     s_pc st' = s_pc st \<and> s_attempt st' = s_attempt st \<and> s_last_acked st' = s_last_acked st
     \<and> (\<forall>p\<in>set out. \<exists>i ch. data_packet cfg i ch = Inr p)"
proof (induction ps arbitrary: st r out st')
  case Nil
  then show ?case by (auto split: if_splits option.splits)
next
  case (Cons ch ps)
  show ?case
  proof (cases "s_pending_exhausted st \<or> sc_window_size cfg \<le> int (length (s_window st))")
    case False
    show ?thesis
    proof (cases "data_packet cfg (s_pending_idx st) ch")
      case (Inr p)
      obtain r1 o1 s1 where f: "fill_window cfg ps (st\<lparr>s_pending := ps, s_pending_idx := s_pending_idx st + 1,
          s_window := s_window st @ [(s_pending_idx st, p, int (length (fst ch)))],
          s_next_seq := s_pending_idx st + 1\<rparr>) = (r1, o1, s1)" by (metis prod_cases3)
      with Cons.prems False Inr have "out = p # o1" "st' = s1" by auto
      moreover have "\<exists>i ch. data_packet cfg i ch = Inr p" using Inr by blast
      ultimately show ?thesis using Cons.IH [OF f] by simp
    qed (use Cons.prems False in auto)
  qed (use Cons.prems in auto)
qed

lemma sender_top_frame:
  assumes "sender_top cfg c st = (out, st')"
  shows "(\<exists>e. s_pc st' = SendRaised e) \<or> (st' = st \<and> out = [])
    \<or> (s_pc st = StartTop \<and> (\<exists>p. start_packet cfg = Inr p \<and> out = [p])
        \<and> st' = st\<lparr>s_pc := StartRecv, s_attempt := s_attempt st + 1\<rparr>)
    \<or> (s_pc st = DataTop \<and> (s_pc st' = DataRecv \<or> (\<exists>m. s_pc st' = SendReturned m))
        \<and> s_attempt st' = s_attempt st \<and> s_last_acked st' = s_last_acked st
        \<and> (\<forall>p\<in>set out. start_packet cfg \<noteq> Inr p))"
proof (cases "s_pc st")
  case DataTop
  obtain r o2 s2 where f: "fill_window cfg (s_pending st) st = (r, o2, s2)" by (metis prod_cases3)
  from fill_window_frame [OF f] assms DataTop f data_not_start show ?thesis
    by (auto simp: sender_top_def sender_abort_def split: if_splits sum.splits option.splits)
qed (use assms in \<open>auto simp: sender_top_def sender_abort_def split: if_splits sum.splits\<close>)

lemma sender_data_ack_frame:
  "s_attempt (sender_data_ack cfg a st) = s_attempt st
   \<and> s_last_acked (sender_data_ack cfg a st) \<in> {s_last_acked st, a}"
  by (auto simp: sender_data_ack_def Let_def split: prod.splits)

text \<open>recvfrom returns to the START loop, moves to the data phase on number 0, or stays in the data phase.\<close>

lemma sender_recv_frame:
  assumes "sender_recv cfg rv st = (out, st')" and "sender_inv cfg ps err st"
  shows "s_attempt st' = s_attempt st \<and>
    ((\<exists>e. s_pc st' = SendRaised e) \<or> (st' = st \<and> out = [])
     \<or> (s_pc st = StartRecv \<and> out = [] \<and> s_last_acked st' = s_last_acked st \<and>
          (s_pc st' = StartTop \<or> (s_pc st' = DataTop \<and> (\<exists>d a. rv = Datagram d a \<and> ack_of cfg d a = Some 0))))
     \<or> (s_pc st = DataRecv \<and> s_pc st' = DataTop \<and> (\<forall>p\<in>set out. start_packet cfg \<noteq> Inr p)
          \<and> (s_last_acked st' = s_last_acked st
             \<or> (\<exists>d a. rv = Datagram d a \<and> ack_of cfg d a = Some (s_last_acked st')))))"
proof -
  have o: "\<forall>p\<in>set out. start_packet cfg \<noteq> Inr p"
    using sender_recv_sends [OF assms(2), of _ rv] assms(1) data_not_start by fastforce
  show ?thesis
    using assms(1) o sender_data_ack_frame [of cfg _ st]
    by (auto simp: sender_recv_def sender_data_timeout_def Let_def sender_data_ack_pc
        split: sender_pc.splits recv.splits option.splits if_splits) metis+
qed

definition once_start :: "link_cfg \<Rightarrow> link_state \<Rightarrow> bool" where
  "once_start K l \<longleftrightarrow> r_expected_seq (l_receiver l) = 0 \<and> s_last_acked (l_sender l) = -1
     \<and> (\<forall>d\<in>#l_fwd l. start_packet (k_send K) = Inr d)
     \<and> size (l_fwd l) + size (l_back l) \<le> s_attempt (l_sender l)"

definition once_data :: "link_cfg \<Rightarrow> link_state \<Rightarrow> bool" where
  "once_data K l \<longleftrightarrow> s_last_acked (l_sender l) < r_expected_seq (l_receiver l)
     \<and> (\<forall>d\<in>#l_fwd l. start_packet (k_send K) \<noteq> Inr d)
     \<and> (\<forall>d\<in>#l_back l. \<forall>k. ack_of (k_send K) d (sc_dest (k_send K)) = Some k
          \<longrightarrow> k < r_expected_seq (l_receiver l))"

definition once_inv :: "link_cfg \<Rightarrow> link_state \<Rightarrow> bool" where
  "once_inv K l \<longleftrightarrow> (s_attempt (l_sender l) \<le> 1 \<longrightarrow>
     (case s_pc (l_sender l) of
        StartTop \<Rightarrow> once_start K l | StartRecv \<Rightarrow> once_start K l
      | DataTop \<Rightarrow> once_data K l | DataRecv \<Rightarrow> once_data K l | SendReturned m \<Rightarrow> once_data K l
      | SendRaised e \<Rightarrow> True))"

lemma once_inv_data:
  "once_data K l \<Longrightarrow> s_pc (l_sender l) \<noteq> StartTop \<Longrightarrow> s_pc (l_sender l) \<noteq> StartRecv \<Longrightarrow> once_inv K l"
  by (simp add: once_inv_def split: sender_pc.splits)

lemma once_inv_start:
  "once_start K l \<Longrightarrow> s_pc (l_sender l) \<in> {StartTop, StartRecv} \<Longrightarrow> once_inv K l"
  by (auto simp: once_inv_def)

lemma once_inv_raised: "s_pc (l_sender l) = SendRaised e \<Longrightarrow> once_inv K l"
  by (simp add: once_inv_def)

lemma once_inv_cases:
  assumes "once_inv K l" and "s_attempt (l_sender l) \<le> 1"
  obtains (start) "s_pc (l_sender l) \<in> {StartTop, StartRecv}" "once_start K l"
    | (data) "s_pc (l_sender l) \<notin> {StartTop, StartRecv}" "once_data K l"
    | (raised) e where "s_pc (l_sender l) = SendRaised e"
  using assms by (auto simp: once_inv_def split: sender_pc.splits)

lemma once_inv_init: "once_inv K (link_init K chunks)"
  by (simp add: once_inv_def once_start_def link_init_def sender_init_def receiver_init_def)

lemma once_data_shrink:
  assumes "once_data K l" and "s_last_acked s = s_last_acked (l_sender l)"
    and "\<forall>p\<in>set out. start_packet (k_send K) \<noteq> Inr p"
  shows "once_data K (l\<lparr>l_sender := s, l_fwd := l_fwd l + mset out\<rparr>)"
  using assms by (auto simp: once_data_def)

lemma once_top:
  assumes inv: "once_inv K l" and step: "sender_top (k_send K) c (l_sender l) = (out, s)"
  shows "once_inv K (l\<lparr>l_sender := s, l_fwd := l_fwd l + mset out\<rparr>)" (is "once_inv K ?l")
proof (cases "s_attempt s \<le> 1")
  case a: True
  from sender_top_frame [OF step] show ?thesis
  proof (elim disjE exE conjE)
    fix e assume "s_pc s = SendRaised e"
    then show ?thesis by (simp add: once_inv_raised)
  next
    assume "s = l_sender l" "out = []"
    with inv show ?thesis by simp
  next
    fix p assume st: "s_pc (l_sender l) = StartTop" and p: "start_packet (k_send K) = Inr p" "out = [p]"
      and s: "s = (l_sender l)\<lparr>s_pc := StartRecv, s_attempt := s_attempt (l_sender l) + 1\<rparr>"
    from a s have "s_attempt (l_sender l) \<le> 1" by simp
    with inv st have "once_start K l" by (simp add: once_inv_def)
    then have os: "once_start K ?l" using p s by (auto simp: once_start_def)
    have "s_pc s = StartRecv" using s by simp
    with os show ?thesis by (intro once_inv_start) simp_all
  next
    assume f: "s_pc (l_sender l) = DataTop" "s_attempt s = s_attempt (l_sender l)"
      "s_last_acked s = s_last_acked (l_sender l)" "\<forall>p\<in>set out. start_packet (k_send K) \<noteq> Inr p"
      and pc: "s_pc s = DataRecv"
    from f(1,2) a inv have "once_data K l" by (simp add: once_inv_def)
    from once_data_shrink [OF this f(3,4)] pc show ?thesis by (auto intro!: once_inv_data)
  next
    fix m assume f: "s_pc (l_sender l) = DataTop" "s_attempt s = s_attempt (l_sender l)"
      "s_last_acked s = s_last_acked (l_sender l)" "\<forall>p\<in>set out. start_packet (k_send K) \<noteq> Inr p"
      and pc: "s_pc s = SendReturned m"
    from f(1,2) a inv have "once_data K l" by (simp add: once_inv_def)
    from once_data_shrink [OF this f(3,4)] pc show ?thesis by (auto intro!: once_inv_data)
  qed
qed (simp add: once_inv_def)

text \<open>
  A recvfrom of the sender. The datagrams left in flight to it are b'; when it read an
  acknowledgement that was in flight, that one is gone.
\<close>

lemma once_recv:
  assumes inv: "once_inv K l" and step: "sender_recv (k_send K) rv (l_sender l) = (out, s)"
    and si: "sender_inv (k_send K) ps err (l_sender l)"
    and sub: "b' \<subseteq># l_back l"
    and heard: "\<And>d a k. rv = Datagram d a \<Longrightarrow> ack_of (k_send K) d a = Some k \<Longrightarrow>
        a = sc_dest (k_send K) \<and> d \<in># l_back l \<and> b' = l_back l - {#d#}"
  shows "once_inv K (l\<lparr>l_sender := s, l_fwd := l_fwd l + mset out, l_back := b'\<rparr>)" (is "once_inv K ?l")
proof (cases "s_attempt s \<le> 1")
  case True
  note f = sender_recv_frame [OF step si]
  from f have att: "s_attempt s = s_attempt (l_sender l)" by blast
  with True have a: "s_attempt (l_sender l) \<le> 1" by simp
  have szb: "size b' \<le> size (l_back l)" using sub by (rule size_mset_mono)
  from f consider (raised) e where "s_pc s = SendRaised e"
    | (same) "s = l_sender l" "out = []"
    | (again) "s_pc (l_sender l) = StartRecv" "out = []" "s_last_acked s = s_last_acked (l_sender l)" "s_pc s = StartTop"
    | (go) d ad where "s_pc (l_sender l) = StartRecv" "out = []" "s_last_acked s = s_last_acked (l_sender l)"
        "s_pc s = DataTop" "rv = Datagram d ad" "ack_of (k_send K) d ad = Some 0"
    | (data) "s_pc (l_sender l) = DataRecv" "s_pc s = DataTop" "\<forall>p\<in>set out. start_packet (k_send K) \<noteq> Inr p"
        "s_last_acked s = s_last_acked (l_sender l)
          \<or> (\<exists>d a. rv = Datagram d a \<and> ack_of (k_send K) d a = Some (s_last_acked s))"
    by blast
  then show ?thesis
  proof cases
    case raised
    then show ?thesis by (simp add: once_inv_raised)
  next
    case same
    from inv a show ?thesis
      using szb mset_subset_eqD [OF sub]
      by (cases rule: once_inv_cases) (auto simp: same once_inv_def once_start_def once_data_def split: sender_pc.splits)
  next
    case again
    with inv a have "once_start K l" by (simp add: once_inv_def)
    with szb att have "once_start K ?l" using again by (auto simp: once_start_def)
    with again(4) show ?thesis by (intro once_inv_start) simp_all
  next
    case go
    with inv a have st: "once_start K l" by (simp add: once_inv_def)
    from heard [OF go(5,6)] have d: "d \<in># l_back l" "b' = l_back l - {#d#}" by simp_all
    then have "size (l_back l) = Suc (size b')" by (simp only: size_Suc_Diff1)
    moreover have "size (l_fwd l) + size (l_back l) \<le> s_attempt (l_sender l)"
      using st by (simp only: once_start_def)
    ultimately have "size (l_fwd l) = 0 \<and> size b' = 0" using a by linarith
    then have "l_fwd l = {#}" "b' = {#}" by simp_all
    with st go(2,3) have "once_data K ?l" by (simp add: once_start_def once_data_def)
    then show ?thesis using go(4) by (intro once_inv_data) simp_all
  next
    case data
    with inv a have od: "once_data K l" by (simp add: once_inv_def)
    have la: "s_last_acked s < r_expected_seq (l_receiver l)"
      using data(4)
    proof (elim disjE exE conjE)
      fix d ad assume h: "rv = Datagram d ad" "ack_of (k_send K) d ad = Some (s_last_acked s)"
      from heard [OF h] h(2) od show ?thesis unfolding once_data_def by blast
    qed (use od in \<open>simp add: once_data_def\<close>)
    from od la data(3) mset_subset_eqD [OF sub] have "once_data K ?l"
      by (auto simp: once_data_def)
    then show ?thesis using data(2) by (intro once_inv_data) simp_all
  qed
qed (simp add: once_inv_def)

lemma delivers_seq: "delivers d st st' \<Longrightarrow> r_expected_seq st' = r_expected_seq st + 1"
  by (auto simp: delivers_def)

lemma step_seq_mono:
  "receiver_step cfg (c, rv) st = (out, st') \<Longrightarrow> receiver_inv st \<Longrightarrow> grace_inv st
     \<Longrightarrow> r_expected_seq st \<le> r_expected_seq st'"
  using receiver_step_cases [of cfg c rv st out st'] by (auto simp: same_data_def delivers_seq)

lemma size_acks_for: "size (acks_for a out) \<le> length out"
  by (simp add: acks_for_def del: mset_map mset_filter)

lemma acks_for_mem: "d \<in># acks_for a out \<Longrightarrow> (a, d) \<in> set out"
  by (auto simp: acks_for_def)

lemma acks_for_below:
  assumes "acks_below out st'" and "r_transfer_id st' = Some (sc_transfer_id cfg)"
    and "d \<in># acks_for a out" and "ack_of cfg d (sc_dest cfg) = Some k"
  shows "k < r_expected_seq st'"
  using acks_for_mem [OF assms(3)] assms(1,2,4) ack_of_ack_packet [of cfg _ d] by (auto simp: acks_below_def)

lemma acks_below_zero: "acks_below out st' \<Longrightarrow> r_expected_seq st' = 0 \<Longrightarrow> out = []"
  using ack_packet_nonneg by (cases out) (fastforce simp: acks_below_def)+

text \<open>A turn of the receiver; f' is what is left in flight towards it.\<close>

lemma once_receive:
  assumes inv: "once_inv K l" and li: "link_inv K ps err l" and ag: "link_agrees K ps" and lo: "last_only ps"
    and step: "receiver_step (k_recv K) (c, rv) (l_receiver l) = (out, r)"
    and src: "\<And>d a. rv = Datagram d a \<Longrightarrow>
        \<not> intact (take RECV_BUF d) \<or> (d \<in># l_fwd l \<and> f' = l_fwd l - {#d#})"
    and sub: "f' \<subseteq># l_fwd l"
  shows "once_inv K (l\<lparr>l_receiver := r, l_fwd := f', l_back := l_back l + acks_for (k_addr K) out\<rparr>)"
    (is "once_inv K ?l")
proof (cases "s_attempt (l_sender l) \<le> 1")
  case a: True
  have ok: "channel_ok (k_send K) ps d" if "rv = Datagram d ad" for d ad
    using src [OF that] li by (auto simp: channel_ok_def link_inv_def)
  have r0: "receiver_inv (l_receiver l)" "grace_inv (l_receiver l)" using li by (simp_all add: link_inv_def)
  from link_inv_receiver(1) [OF li step ok ag lo, where b = "{#}"]
  have tid: "r_transfer_id r = Some (sc_transfer_id (k_send K))" by (simp add: link_inv_def prefix_inv_def)
  have started: "d \<in># l_fwd l \<and> f' = l_fwd l - {#d#} \<and> start_packet (k_send K) = Inr d"
    if rv: "rv = Datagram d ad" and an: "start_answer d out r" for d ad
  proof -
    from an obtain h where h: "deserialize (take RECV_BUF d) = Inr h" "intact (take RECV_BUF d)"
      "h_flags h = FLAG_START" "h_transfer_id h = sc_transfer_id (k_send K)"
      using tid by (auto simp: start_answer_def)
    from channel_ok_intact [OF ok [OF rv] _ h(2,1,4)] ag
    have "sender_packet (k_send K) ps d \<and> take RECV_BUF d = d" by (simp add: link_agrees_def)
    with sender_packet_start h src [OF rv] show ?thesis by auto
  qed
  note acks = receiver_step_acks [OF step r0(2)]
  have subm: "\<And>d. d \<in># f' \<Longrightarrow> d \<in># l_fwd l" and subs: "size f' \<le> size (l_fwd l)"
    using mset_subset_eqD [OF sub] size_mset_mono [OF sub] by auto
  from inv a show ?thesis
  proof (cases rule: once_inv_cases)
    case raised
    then show ?thesis by (simp add: once_inv_raised)
  next
    case start
    have e0: "r_expected_seq (l_receiver l) = 0" using start(2) by (simp add: once_start_def)
    have "\<not> delivers d (l_receiver l) r" if rv: "rv = Datagram d ad" for d ad
    proof
      assume del: "delivers d (l_receiver l) r"
      then obtain h where h: "deserialize (take RECV_BUF d) = Inr h" "intact (take RECV_BUF d)"
        "h_transfer_id h = sc_transfer_id (k_send K)" "\<not> has_flag (h_flags h) FLAG_START"
        using tid by (auto simp: delivers_def)
      from channel_ok_intact [OF ok [OF rv] _ h(2,1,3)] ag
      have t: "take RECV_BUF d = d" by (simp add: link_agrees_def)
      from src [OF rv] h(2) start(2) have "start_packet (k_send K) = Inr d"
        by (auto simp: once_start_def)
      from start_flags [OF this] h t show False by auto
    qed
    with receiver_step_cases [OF step r0] e0 have e1: "r_expected_seq r = 0"
      by (auto simp: same_data_def)
    have "size f' + length out \<le> size (l_fwd l)"
      using acks
    proof (elim disjE exE conjE)
      assume "acks_below out r"
      with acks_below_zero [of out r] e1 subs show ?thesis by simp
    next
      fix d ad assume s: "rv = Datagram d ad" "start_answer d out r"
      from started [OF s] s(2) show ?thesis
        using size_Suc_Diff1 [of d "l_fwd l"] by (auto simp: start_answer_def)
    qed
    with size_acks_for [of "k_addr K" out] start(2) e1 subm have "once_start K ?l"
      by (simp add: once_start_def)
    with start(1) show ?thesis by (auto simp: once_inv_def)
  next
    case data
    have "\<not> start_answer d out r" if "rv = Datagram d ad" for d ad
      using started [OF that] data(2) by (auto simp: once_data_def)
    with acks have "acks_below out r" by blast
    note below = acks_for_below [OF this tid]
    have "r_expected_seq (l_receiver l) \<le> r_expected_seq r" by (rule step_seq_mono [OF step r0])
    with data(2) have lt: "s_last_acked (l_sender l) < r_expected_seq r"
      and old: "\<And>d k. d \<in># l_back l \<Longrightarrow> ack_of (k_send K) d (sc_dest (k_send K)) = Some k \<Longrightarrow> k < r_expected_seq r"
      unfolding once_data_def by (linarith, meson order_less_le_trans)
    have "once_data K ?l"
      using lt old below subm data(2) by (simp add: once_data_def) blast
    with data(1) show ?thesis by (intro once_inv_data) auto
  qed
qed (simp add: once_inv_def)

lemma once_shrink:
  assumes "once_inv K l" and "f' \<subseteq># l_fwd l" and "b' \<subseteq># l_back l"
  shows "once_inv K (l\<lparr>l_fwd := f', l_back := b'\<rparr>)"
proof -
  have "once_start K l \<Longrightarrow> once_start K (l\<lparr>l_fwd := f', l_back := b'\<rparr>)"
    using mset_subset_eqD [OF assms(2)] size_mset_mono [OF assms(2)] size_mset_mono [OF assms(3)]
    by (simp add: once_start_def)
  moreover have "once_data K l \<Longrightarrow> once_data K (l\<lparr>l_fwd := f', l_back := b'\<rparr>)"
    using mset_subset_eqD [OF assms(2)] mset_subset_eqD [OF assms(3)] by (simp add: once_data_def) blast
  ultimately show ?thesis using assms(1) by (simp add: once_inv_def split: sender_pc.splits)
qed

lemma once_step:
  assumes "link_step K l l'" and "\<not> k_dup K" and inv: "once_inv K l" and li: "link_inv K ps err l"
    and ag: "link_agrees K ps" and lo: "last_only ps"
  shows "once_inv K l'"
  using assms(1)
proof cases
  case (sender_runs c out s)
  with once_top [OF inv] show ?thesis by simp
next
  case (sender_times_out out s)
  with once_recv [OF inv sender_times_out(2), of ps err "l_back l"] li show ?thesis
    by (simp add: link_inv_def)
next
  case (sender_hears d out s)
  then have "once_inv K (l\<lparr>l_sender := s, l_fwd := l_fwd l + mset out, l_back := l_back l - {#d#}\<rparr>)"
    using li by (intro once_recv [OF inv sender_hears(3), of ps err]) (auto simp: link_inv_def)
  with sender_hears(1) show ?thesis by simp
next
  case (sender_stray d a out s)
  then have "once_inv K (l\<lparr>l_sender := s, l_fwd := l_fwd l + mset out, l_back := l_back l\<rparr>)"
    using li by (intro once_recv [OF inv sender_stray(3), of ps err]) (auto simp: link_inv_def)
  with sender_stray(1) show ?thesis by simp
next
  case (receiver_hears d c out r)
  with once_receive [OF inv li ag lo receiver_hears(3), of "l_fwd l - {#d#}"] show ?thesis by simp
next
  case (receiver_times_out c out r)
  with once_receive [OF inv li ag lo receiver_times_out(2), of "l_fwd l"] show ?thesis by simp
next
  case (receiver_stray d c a out r)
  with once_receive [OF inv li ag lo receiver_stray(3), of "l_fwd l"] show ?thesis by simp
next
  case (lose_packet d)
  with once_shrink [OF inv, of "l_fwd l - {#d#}" "l_back l"] show ?thesis by simp
next
  case (lose_ack d)
  with once_shrink [OF inv, of "l_fwd l" "l_back l - {#d#}"] show ?thesis by simp
qed (use assms(2) in simp_all)

lemma reach_once:
  assumes "link_reach K chunks l" and "\<not> k_dup K" and "lookahead chunks = (ps, err)" and "link_agrees K ps"
  shows "once_inv K l"
  using assms(1)
proof induction
  case reach_init
  show ?case by (rule once_inv_init)
next
  case (reach_step l l')
  have "last_only ps" using last_only_lookahead [OF assms(3)] by blast
  with once_step [OF reach_step.hyps(2) assms(2) reach_step.IH] link_reach_inv reach_step.hyps(1) assms(3,4)
  show ?case by blast
qed

lemma once_complete:
  assumes reach: "link_reach K chunks l" and nd: "\<not> k_dup K" and l: "lookahead chunks = (ps, err)"
    and ag: "link_agrees K ps" and once: "s_attempt (l_sender l) \<le> 1"
    and ret: "s_pc (l_sender l) = SendReturned m"
  shows "r_yielded (l_receiver l) = map fst ps"
proof -
  have "once_data K l" using reach_once [OF reach nd l ag] once ret by (simp add: once_inv_def)
  moreover have inv: "link_inv K ps err l" by (rule link_reach_inv [OF reach l ag])
  moreover have "s_last_acked (l_sender l) = int (length ps) - 1"
    using inv sender_inv_returned [OF _ ret] by (auto simp: link_inv_def)
  ultimately have "int (length ps) \<le> r_expected_seq (l_receiver l)" by (simp add: once_data_def)
  with inv show ?thesis by (auto simp: link_inv_def prefix_inv_def)
qed

section \<open>Transfers that go through\<close>

text \<open>A sensible configuration: both ends agree, the metadata is in range, the limits leave room.\<close>

definition link_ready :: "link_cfg \<Rightarrow> bytes list \<Rightarrow> bool" where
  "link_ready K cs \<longleftrightarrow>
     (let s = k_send K; r = k_recv K;
          mode = ascii_upper (strip (sc_transfer_mode s)); typ = ascii_upper (strip (sc_transfer_type s))
      in rc_transfer_id_hint r = Some (sc_transfer_id s)
         \<and> 0 \<le> sc_transfer_id s \<and> sc_transfer_id s < 256 ^ 4
         \<and> (case sc_total_bytes s of None \<Rightarrow> True | Some n \<Rightarrow> 0 \<le> n \<and> n < 256 ^ 8)
         \<and> mode \<in> set modes \<and> typ \<in> set types
         \<and> rc_expected_mode r \<in> {None, Some mode} \<and> rc_expected_type r \<in> {None, Some typ}
         \<and> 2 \<le> sc_retry_limit s \<and> 2 \<le> sc_window_size s
         \<and> (\<forall>c\<in>set cs. length c \<le> 1024) \<and> length cs < 256 ^ 4)"

lemma encode_start_metadata_length: "encode_start_metadata tb m t = Inr bs \<Longrightarrow> length bs = 10"
  by (auto simp: encode_start_metadata_def Let_def pack_be_Inr modes_def types_def
      split: sum.splits if_splits option.splits simp del: be_bytes.simps)

lemma ready_start:
  assumes "link_ready K cs"
  shows "\<exists>p. start_packet (k_send K) = Inr p"
proof -
  obtain bs where bs: "encode_start_metadata (sc_total_bytes (k_send K)) (sc_transfer_mode (k_send K))
      (sc_transfer_type (k_send K)) = Inr bs"
    using assms by (auto simp: link_ready_def encode_start_metadata_def pack_be_def Let_def
        split: option.splits simp del: be_bytes.simps)
  from encode_start_metadata_length [OF bs] have "length bs \<le> 0xFFFF" by simp
  then have "\<exists>p. make_packet (sc_transfer_id (k_send K)) 0 0 FLAG_START bs = Inr p"
    by (rule make_packet_ok [rotated]) (use assms in \<open>auto simp: link_ready_def Let_def valid_flags_iff flag_defs\<close>)
  with bs show ?thesis by (simp add: start_packet_def)
qed

lemma ready_data:
  assumes "link_ready K cs" and "i < length ps" and "length ps \<le> max 1 (length cs)"
    and "\<forall>ch\<in>set ps. length (fst ch) \<le> 1024"
  shows "\<exists>p. data_packet (k_send K) (int i) (ps ! i) = Inr p"
proof -
  have "length (fst (ps ! i)) \<le> 0xFFFF" using assms(2,4) nth_mem by fastforce
  moreover have "int i < 256 ^ 4" using assms(1-3) by (auto simp: link_ready_def Let_def)
  ultimately show ?thesis unfolding data_packet_def
    by (intro make_packet_ok) (use assms(1) in \<open>auto simp: link_ready_def Let_def valid_flags_iff flag_defs\<close>)
qed

text \<open>The receiver in its main loop, listening to this sender.\<close>

definition listening :: "link_cfg \<Rightarrow> receiver \<Rightarrow> bool" where
  "listening K st \<longleftrightarrow> r_pc st = RecvTop \<and> r_transfer_id st = Some (sc_transfer_id (k_send K))
     \<and> r_peer_addr st \<in> {None, Some (k_addr K)}"

lemma listening_cong [simp]:
  "listening K (st\<lparr>r_timeout_count := n\<rparr>) = listening K st"
  "listening K (st\<lparr>r_total_bytes := t\<rparr>) = listening K st"
  by (simp_all add: listening_def)

lemma receiver_hears_start:
  assumes ready: "link_ready K cs" and p: "start_packet (k_send K) = Inr p" and l: "listening K st"
  shows "\<exists>a st'. receiver_step (k_recv K) (False, Datagram p (k_addr K)) st = ([(k_addr K, a)], st')
    \<and> ack_packet (sc_transfer_id (k_send K)) 0 = Inr a \<and> listening K st'
    \<and> r_yielded st' = r_yielded st \<and> r_expected_seq st' = r_expected_seq st"
proof -
  let ?s = "k_send K"
  obtain mp where mp: "encode_start_metadata (sc_total_bytes ?s) (sc_transfer_mode ?s) (sc_transfer_type ?s) = Inr mp"
    and pk: "make_packet (sc_transfer_id ?s) 0 0 FLAG_START mp = Inr p"
    using p by (auto simp: start_packet_def split: sum.splits)
  from make_packet_parses [OF pk] obtain h where h: "deserialize p = Inr h" "h_transfer_id h = sc_transfer_id ?s"
    "h_seq_num h = 0" "h_flags h = FLAG_START" "h_length h = int (length mp)" "validate_length h p"
    "verify_checksum h mp = Inr True" "drop header_size p = mp" "length p = header_size + length mp"
    by blast
  have t: "take RECV_BUF p = p"
    using h(9) encode_start_metadata_length [OF mp] by (simp add: RECV_BUF_def)
  have peer: "(case r_peer_addr st of None \<Rightarrow> k_addr K | Some p \<Rightarrow> p) = k_addr K"
    and peer': "r_peer_addr st = None \<or> r_peer_addr st = Some (k_addr K)" using l by (auto simp: listening_def)
  obtain a where a: "ack_packet (sc_transfer_id ?s) 0 = Inr a"
    using ack_packet_ok [of "sc_transfer_id ?s" 0] ready by (auto simp: link_ready_def Let_def)
  note dec = start_metadata_roundtrip [OF mp]
  let ?st1 = "st\<lparr>r_timeout_count := 0, r_transfer_id := Some (sc_transfer_id ?s)\<rparr>"
  let ?n = "case sc_total_bytes ?s of None \<Rightarrow> 0 | Some n \<Rightarrow> n"
  have hs: "receiver_step (k_recv K) (False, Datagram p (k_addr K)) st =
      handle_start (k_recv K) (sc_transfer_id ?s) h p (k_addr K) ?st1"
    using l h(1-4,9) t peer' by (auto simp: receiver_step_def handle_datagram_def Let_def listening_def)
  have pl: "take (nat (h_length h)) (drop header_size p) = mp" using h(5,8) by simp
  have "rc_expected_mode (k_recv K) \<in> {None, Some (ascii_upper (strip (sc_transfer_mode ?s)))}"
    "rc_expected_type (k_recv K) \<in> {None, Some (ascii_upper (strip (sc_transfer_type ?s)))}"
    using ready unfolding link_ready_def Let_def by blast+
  with h have ok: "\<not> (h_flags h \<noteq> FLAG_START \<or> h_seq_num h \<noteq> 0)" "\<not> \<not> validate_length h p"
    "\<not> verify_checksum h mp \<noteq> Inr True"
    "\<not> (rc_expected_mode (k_recv K) \<noteq> None \<and>
          Some (ascii_upper (strip (sc_transfer_mode ?s))) \<noteq> rc_expected_mode (k_recv K))"
    "\<not> (rc_expected_type (k_recv K) \<noteq> None \<and>
          Some (ascii_upper (strip (sc_transfer_type ?s))) \<noteq> rc_expected_type (k_recv K))"
    by (metis insertE singletonD)+
  have "handle_start (k_recv K) (sc_transfer_id ?s) h p (k_addr K) ?st1 =
      ([(k_addr K, a)], ?st1\<lparr>r_peer_addr := Some (k_addr K),
        r_total_bytes := (if r_total_bytes st = None \<and> 0 < ?n then Some ?n else r_total_bytes st)\<rparr>)"
    unfolding handle_start_def Let_def pl dec if_not_P [OF ok(1)] if_not_P [OF ok(2)] if_not_P [OF ok(3)]
      sum.case prod.case if_not_P [OF ok(4)] if_not_P [OF ok(5)] send_ack_def a
    using peer by simp
  with hs a l show ?thesis by (simp add: listening_def)
qed

lemma receiver_hears_data:
  assumes ready: "link_ready K cs" and d: "data_packet (k_send K) (int k) ch = Inr d" and l: "listening K st"
    and e: "r_expected_seq st = int k" and len: "length (fst ch) \<le> 1024"
  shows "\<exists>a st'. receiver_step (k_recv K) (False, Datagram d (k_addr K)) st = ([(k_addr K, a)], st')
    \<and> ack_packet (sc_transfer_id (k_send K)) (int k) = Inr a
    \<and> r_yielded st' = r_yielded st @ [fst ch] \<and> r_expected_seq st' = int (Suc k)
    \<and> (if snd ch then r_pc st' = Grace grace_attempts (int k) else listening K st')"
proof -
  let ?s = "k_send K" and ?f = "if snd ch then FLAG_FIN else FLAG_DATA"
  from make_packet_parses [OF d [unfolded data_packet_def]] obtain h where
    h: "deserialize d = Inr h" "h_transfer_id h = sc_transfer_id ?s"
    "h_seq_num h = int k" "h_flags h = ?f" "h_length h = int (length (fst ch))" "validate_length h d"
    "verify_checksum h (fst ch) = Inr True" "drop header_size d = fst ch" "length d = header_size + length (fst ch)"
    by blast
  have t: "take RECV_BUF d = d" using h(9) len by (simp add: RECV_BUF_def)
  have peer: "(case r_peer_addr st of None \<Rightarrow> k_addr K | Some p \<Rightarrow> p) = k_addr K"
    and peer': "r_peer_addr st = None \<or> r_peer_addr st = Some (k_addr K)" using l by (auto simp: listening_def)
  have "int k < 256 ^ 4" using deserialize_ranges(4) [OF h(1)] h(3) by simp
  then obtain a where a: "ack_packet (sc_transfer_id ?s) (int k) = Inr a"
    using ack_packet_ok [of "sc_transfer_id ?s" "int k"] ready by (auto simp: link_ready_def Let_def)
  have fl: "\<not> has_flag (h_flags h) FLAG_ABORT" "\<not> has_flag (h_flags h) FLAG_START" "is_valid_flags (h_flags h)"
    "has_flag (h_flags h) FLAG_FIN = snd ch"
    using h(4) by (simp_all add: valid_flags_iff flag_defs has_flag_def)
  have hp: "receiver_step (k_recv K) (False, Datagram d (k_addr K)) st =
      handle_payload (k_recv K) (sc_transfer_id ?s) h (fst ch) (k_addr K)
        (st\<lparr>r_timeout_count := 0, r_transfer_id := Some (sc_transfer_id ?s)\<rparr>)"
    using l h t fl peer' by (auto simp: receiver_step_def handle_datagram_def Let_def listening_def)
  show ?thesis
    unfolding hp using l h(3) e a peer fl by (simp add: handle_payload_def Let_def send_ack_def listening_def)
qed

text \<open>Reachability from a state, and the steps of a straight run.\<close>

inductive link_path :: "link_cfg \<Rightarrow> link_state \<Rightarrow> link_state \<Rightarrow> bool" for K where
  path_refl: "link_path K l l"
| path_step: "link_step K l l' \<Longrightarrow> link_path K l' l'' \<Longrightarrow> link_path K l l''"

lemma reach_path: "link_path K l l' \<Longrightarrow> link_reach K chunks l \<Longrightarrow> link_reach K chunks l'"
  by (induction rule: link_path.induct) (auto intro: reach_step)

lemma path_trans: "link_path K l l' \<Longrightarrow> link_path K l' l'' \<Longrightarrow> link_path K l l''"
  by (induction rule: link_path.induct) (auto intro: path_step)

lemma path_run:
  "sender_top (k_send K) c s = (out, s') \<Longrightarrow>
   link_path K \<lparr>l_sender = s', l_receiver = r, l_fwd = f + mset out, l_back = b\<rparr> l \<Longrightarrow>
   link_path K \<lparr>l_sender = s, l_receiver = r, l_fwd = f, l_back = b\<rparr> l"
  using sender_runs [of K c "\<lparr>l_sender = s, l_receiver = r, l_fwd = f, l_back = b\<rparr>"] path_step by fastforce

lemma path_wait:
  "sender_recv (k_send K) Timeout s = (out, s') \<Longrightarrow>
   link_path K \<lparr>l_sender = s', l_receiver = r, l_fwd = f + mset out, l_back = b\<rparr> l \<Longrightarrow>
   link_path K \<lparr>l_sender = s, l_receiver = r, l_fwd = f, l_back = b\<rparr> l"
  using sender_times_out [of K "\<lparr>l_sender = s, l_receiver = r, l_fwd = f, l_back = b\<rparr>"] path_step by fastforce

lemma path_hear:
  "sender_recv (k_send K) (Datagram d (sc_dest (k_send K))) s = ([], s') \<Longrightarrow> d \<in># b \<Longrightarrow>
   link_path K \<lparr>l_sender = s', l_receiver = r, l_fwd = f, l_back = b - {#d#}\<rparr> l \<Longrightarrow>
   link_path K \<lparr>l_sender = s, l_receiver = r, l_fwd = f, l_back = b\<rparr> l"
  using sender_hears [of d "\<lparr>l_sender = s, l_receiver = r, l_fwd = f, l_back = b\<rparr>"] path_step by fastforce

lemma path_got:
  "receiver_step (k_recv K) (c, Datagram d (k_addr K)) r = (out, r') \<Longrightarrow> d \<in># f \<Longrightarrow>
   link_path K \<lparr>l_sender = s, l_receiver = r', l_fwd = f - {#d#}, l_back = b + acks_for (k_addr K) out\<rparr> l \<Longrightarrow>
   link_path K \<lparr>l_sender = s, l_receiver = r, l_fwd = f, l_back = b\<rparr> l"
  using receiver_hears [of d "\<lparr>l_sender = s, l_receiver = r, l_fwd = f, l_back = b\<rparr>"] path_step by fastforce

lemma path_lose:
  "link_path K \<lparr>l_sender = s, l_receiver = r, l_fwd = f - {#d#}, l_back = b\<rparr> l \<Longrightarrow>
   link_path K \<lparr>l_sender = s, l_receiver = r, l_fwd = f, l_back = b\<rparr> l"
  using lose_packet [of K "\<lparr>l_sender = s, l_receiver = r, l_fwd = f, l_back = b\<rparr>" d] path_step by fastforce

lemma acks_for_one [simp]: "acks_for a [(a, p)] = {#p#}"
  by (simp add: acks_for_def)

lemma sender_hears_ack:
  assumes "s_pc st = DataRecv" and "ack_packet (sc_transfer_id cfg) k = Inr p"
  shows "sender_recv cfg (Datagram p (sc_dest cfg)) st = ([], sender_data_ack cfg k st)"
  using assms by (simp add: sender_recv_def ack_of_ack_packet)

lemma sender_starts:
  assumes "s_pc st = StartTop" and "s_attempt st < sc_retry_limit cfg" and "start_packet cfg = Inr p"
  shows "sender_top cfg False st = ([p], st\<lparr>s_pc := StartRecv, s_attempt := s_attempt st + 1\<rparr>)"
  using assms by (simp add: sender_top_def)

lemma sender_hears_start_ack:
  assumes "s_pc st = StartRecv" and "ack_packet (sc_transfer_id cfg) 0 = Inr p"
  shows "sender_recv cfg (Datagram p (sc_dest cfg)) st = ([], st\<lparr>s_pc := DataTop\<rparr>)"
  using assms by (simp add: sender_recv_def ack_of_ack_packet)

text \<open>
  A retransmitted START whose two acknowledgements both arrive: the second one is read as the
  acknowledgement of the first DATA packet. With a single chunk the sender then returns success
  although the chunk was lost, on a network that never duplicates.
\<close>

lemma start_ack_misread:
  assumes ready: "link_ready K [c]"
  shows "\<exists>l. link_reach K ([c], None) l \<and> s_pc (l_sender l) = SendReturned (int (length c))
    \<and> r_yielded (l_receiver l) = [] \<and> l_fwd l = {#} \<and> l_back l = {#}"
proof -
  let ?s = "k_send K" and ?l0 = "link_init K ([c], None)"
  have win: "2 \<le> sc_window_size ?s" "2 \<le> sc_retry_limit ?s" using ready by (auto simp: link_ready_def Let_def)
  obtain p where p: "start_packet ?s = Inr p" using ready_start [OF ready] by blast
  have "int 0 < 256 ^ 4" by simp
  obtain d where d: "data_packet ?s 0 (c, True) = Inr d"
    using ready_data [OF ready, of 0 "[(c, True)]"] ready by (auto simp: link_ready_def Let_def)
  define s0 where "s0 = sender_init ?s ([c], None)"
  have s0: "s_pc s0 = StartTop" "s_attempt s0 = 0" "s_pending s0 = [(c, True)]" "s_pending_err s0 = None"
    "s_pending_idx s0 = 0" "\<not> s_pending_exhausted s0" "s_window s0 = []" "s_next_seq s0 = 0"
    "s_last_acked s0 = -1" "s_transferred s0 = 0"
    using win by (simp_all add: s0_def sender_init_def)
  have lis0: "listening K (receiver_init (k_recv K))"
    using ready by (auto simp: listening_def receiver_init_def link_ready_def Let_def)
  from receiver_hears_start [OF ready p lis0] obtain a r1 where
    r1: "receiver_step (k_recv K) (False, Datagram p (k_addr K)) (receiver_init (k_recv K)) = ([(k_addr K, a)], r1)"
    "ack_packet (sc_transfer_id ?s) 0 = Inr a" "listening K r1" "r_yielded r1 = []"
    by (auto simp: receiver_init_def)
  from receiver_hears_start [OF ready p r1(3)] r1(2,4) obtain r2 where
    r2: "receiver_step (k_recv K) (False, Datagram p (k_addr K)) r1 = ([(k_addr K, a)], r2)"
    "r_yielded r2 = []" by auto
  define s1 where "s1 = s0\<lparr>s_pc := StartRecv, s_attempt := 1\<rparr>"
  define s2 where "s2 = s1\<lparr>s_pc := StartTop\<rparr>"
  define s3 where "s3 = s2\<lparr>s_pc := StartRecv, s_attempt := 2\<rparr>"
  define s4 where "s4 = s3\<lparr>s_pc := DataTop\<rparr>"
  define s5 where "s5 = s4\<lparr>s_pc := DataRecv, s_pending := [], s_pending_idx := 1,
      s_window := [(0, d, int (length c))], s_next_seq := 1, s_pending_exhausted := True\<rparr>"
  define s6 where "s6 = sender_data_ack ?s 0 s5"
  have t1: "sender_top ?s False s0 = ([p], s1)"
    using sender_starts [of s0 ?s p] s0 win p by (simp add: s1_def)
  have t2: "sender_recv ?s Timeout s1 = ([], s2)" by (simp add: sender_recv_def s1_def s2_def)
  have t3: "sender_top ?s False s2 = ([p], s3)"
    using sender_starts [of s2 ?s p] win p by (simp add: s1_def s2_def s3_def)
  have t4: "sender_recv ?s (Datagram a (sc_dest ?s)) s3 = ([], s4)"
    using sender_hears_start_ack [OF _ r1(2), of s3] by (simp add: s3_def s4_def)
  have t5: "sender_top ?s False s4 = ([d], s5)"
    using s0 win d by (simp add: sender_top_def sender_done_def s1_def s2_def s3_def s4_def s5_def)
  have t6: "sender_recv ?s (Datagram a (sc_dest ?s)) s5 = ([], s6)"
    using sender_hears_ack [OF _ r1(2), of s5] by (simp add: s5_def s6_def)
  have s6: "s_pc s6 = DataTop" "sender_done s6" "s_transferred s6 = int (length c)"
    using s0 by (simp_all add: s6_def sender_data_ack_def s5_def s4_def s3_def s2_def s1_def sender_done_def)
  have t7: "sender_top ?s False s6 = ([], s6\<lparr>s_pc := SendReturned (int (length c))\<rparr>)"
    using s6 by (simp add: sender_top_def)
  let ?last = "\<lparr>l_sender = s6\<lparr>s_pc := SendReturned (int (length c))\<rparr>, l_receiver = r2, l_fwd = {#}, l_back = {#}\<rparr>"
  let ?r0 = "receiver_init (k_recv K)"
  have init: "?l0 = \<lparr>l_sender = s0, l_receiver = ?r0, l_fwd = {#}, l_back = {#}\<rparr>"
    by (simp add: link_init_def s0_def)
  have "link_path K ?l0 ?last"
    unfolding init
    by (rule path_run [OF t1], rule path_wait [OF t2], rule path_run [OF t3], rule path_got [OF r1(1)], simp,
        rule path_got [OF r2(1)], simp, rule path_hear [OF t4], simp, rule path_run [OF t5],
        rule path_lose [of _ _ _ _ d], rule path_hear [OF t6], simp, rule path_run [OF t7], simp add: path_refl)
  from reach_path [OF this reach_init] r2(2) show ?thesis by (intro exI [of _ ?last]) simp
qed

text \<open>Every transfer can complete: on a network that loses nothing both ends finish.\<close>

lemma fill_window_ok:
  assumes "window_at cfg ps None st b n" and "\<forall>i<length ps. \<exists>p. data_packet cfg (int i) (ps ! i) = Inr p"
    and "fill_window cfg (s_pending st) st = (r, out, st')"
  shows "r = None"
  using assms
proof (induction "s_pending st" arbitrary: st n r out st')
  case Nil
  then show ?case by (auto simp: window_at_def split: if_splits)
next
  case (Cons ch rest)
  have w: "window_at cfg ps None st b n" by (rule Cons.prems(1))
  have "drop n ps = ch # rest" using w Cons.hyps(2) by (simp add: window_at_def)
  then have n: "n < length ps" and rest: "rest = drop (Suc n) ps" and ch: "ch = ps ! n"
    by (metis drop_all list.discI not_less, metis Cons_nth_drop_Suc drop_all list.discI list.inject not_less,
        metis Cons_nth_drop_Suc drop_all list.discI list.inject not_less)
  obtain p where p: "data_packet cfg (int n) (ps ! n) = Inr p" using Cons.prems(2) n by blast
  have idx: "s_pending_idx st = int n" using w by (simp add: window_at_def)
  show ?case
  proof (cases "s_pending_exhausted st \<or> sc_window_size cfg \<le> int (length (s_window st))")
    case True
    with Cons.prems(3) Cons.hyps(2) [symmetric] show ?thesis by auto
  next
    case False
    let ?st = "st\<lparr>s_pending := rest, s_pending_idx := s_pending_idx st + 1,
        s_window := s_window st @ [(s_pending_idx st, p, int (length (fst ch)))],
        s_next_seq := s_pending_idx st + 1\<rparr>"
    obtain r1 out1 st1 where f: "fill_window cfg rest ?st = (r1, out1, st1)" by (metis prod_cases3)
    have w': "window_at cfg ps None ?st b (Suc n)"
      using fill_window_step [OF w n _ _ p] False by (simp add: ch rest)
    have "r1 = None" using Cons.hyps(1) [OF _ w' Cons.prems(2)] f by auto
    with False Cons.prems(3) Cons.hyps(2) [symmetric] idx p f ch show ?thesis by auto
  qed
qed

text \<open>
  Between two rounds of a lossless run: b chunks are through, the packets b .. n-1 are in flight.
\<close>

definition sent :: "sender_cfg \<Rightarrow> (bytes \<times> bool) list \<Rightarrow> nat \<Rightarrow> nat \<Rightarrow> bytes multiset" where
  "sent cfg ps b n = mset (map (\<lambda>i. projr (data_packet cfg (int i) (ps ! i))) [b..<n])"

definition round_at :: "link_cfg \<Rightarrow> (bytes \<times> bool) list \<Rightarrow> nat \<Rightarrow> link_state \<Rightarrow> bool" where
  "round_at K ps b l \<longleftrightarrow> s_pc (l_sender l) = DataTop \<and> s_timeout_count (l_sender l) = 0
     \<and> s_attempt (l_sender l) = 1
     \<and> (\<exists>n. window_at (k_send K) ps None (l_sender l) b n \<and> l_fwd l = sent (k_send K) ps b n)
     \<and> l_back l = {#} \<and> r_yielded (l_receiver l) = map fst (take b ps)
     \<and> r_expected_seq (l_receiver l) = int b
     \<and> (if b < length ps then listening K (l_receiver l) else \<exists>m f. r_pc (l_receiver l) = Grace m f)"

lemma sent_split: "b < n \<Longrightarrow> sent cfg ps b n = add_mset (projr (data_packet cfg (int b) (ps ! b))) (sent cfg ps (Suc b) n)"
  by (simp add: sent_def upt_rec [of b])

lemma sent_append: "b \<le> n \<Longrightarrow> n \<le> n' \<Longrightarrow>
    sent cfg ps b n + mset (map (\<lambda>i. projr (data_packet cfg (int i) (ps ! i))) [n..<n']) = sent cfg ps b n'"
  using upt_add_eq_append [of b n "n' - n"] by (simp add: sent_def)

lemma round_step:
  assumes ready: "link_ready K cs" and r: "round_at K ps b l" and b: "b < length ps"
    and ok: "\<forall>i<length ps. \<exists>p. data_packet (k_send K) (int i) (ps ! i) = Inr p"
    and small: "\<forall>ch\<in>set ps. length (fst ch) \<le> 1024"
    and last: "\<forall>i<length ps. snd (ps ! i) \<longleftrightarrow> Suc i = length ps"
  shows "\<exists>l'. link_path K l l' \<and> round_at K ps (Suc b) l'"
proof -
  let ?s = "k_send K"
  obtain s rc f bk where l: "l = \<lparr>l_sender = s, l_receiver = rc, l_fwd = f, l_back = bk\<rparr>" by (cases l)
  from r b obtain n where s: "s_pc s = DataTop" "s_timeout_count s = 0" "s_attempt s = 1" and w: "window_at ?s ps None s b n"
    and f: "f = sent ?s ps b n" and bk: "bk = {#}" and rc: "r_yielded rc = map fst (take b ps)"
    "r_expected_seq rc = int b" "listening K rc" by (auto simp: round_at_def l)
  obtain ro out s1 where fw: "fill_window ?s (s_pending s) s = (ro, out, s1)" by (metis prod_cases3)
  have ro: "ro = None" by (rule fill_window_ok [OF w ok fw])
  from fill_window_spec [OF w fw] obtain n' where n': "n \<le> n'" and w1: "window_at ?s ps None s1 b n'"
    and out: "out = map (\<lambda>i. projr (data_packet ?s (int i) (ps ! i))) [n..<n']"
    and full: "s_pending_exhausted s1 \<or> sc_window_size ?s \<le> int (n' - b)" using ro by auto
  have bn: "b \<le> n" "n' \<le> length ps" using w w1 by (auto simp: window_at_def)
  have bn': "b < n'"
  proof (cases "s_pending_exhausted s1")
    case True
    then have "n' = length ps" using w1 by (simp add: window_at_def)
    with b show ?thesis by simp
  next
    case False
    with full ready have "2 \<le> int (n' - b)" by (auto simp: link_ready_def Let_def)
    then show ?thesis by simp
  qed
  have nd: "\<not> sender_done s"
    using w b by (auto simp: sender_done_def window_at_def)
  have top: "sender_top ?s False s = (out, s1\<lparr>s_pc := DataRecv\<rparr>)"
    using s nd fw ro by (simp add: sender_top_def)
  obtain d where d: "data_packet ?s (int b) (ps ! b) = Inr d" using ok b by blast
  from receiver_hears_data [OF ready d rc(3,2)] small b obtain a rc' where
    rc': "receiver_step (k_recv K) (False, Datagram d (k_addr K)) rc = ([(k_addr K, a)], rc')"
    "ack_packet (sc_transfer_id ?s) (int b) = Inr a"
    "r_yielded rc' = r_yielded rc @ [fst (ps ! b)]" "r_expected_seq rc' = int (Suc b)"
    "if snd (ps ! b) then r_pc rc' = Grace grace_attempts (int b) else listening K rc'" by auto
  have fl: "f + mset out = sent ?s ps b n'" unfolding f out by (rule sent_append [OF bn(1) n'])
  have hear: "sender_recv ?s (Datagram a (sc_dest ?s)) (s1\<lparr>s_pc := DataRecv\<rparr>) =
      ([], sender_data_ack ?s (int b) (s1\<lparr>s_pc := DataRecv\<rparr>))"
    by (rule sender_hears_ack) (use rc'(2) in simp_all)
  let ?s2 = "sender_data_ack ?s (int b) (s1\<lparr>s_pc := DataRecv\<rparr>)"
  have w1': "window_at ?s ps None (s1\<lparr>s_pc := DataRecv\<rparr>) b n'" using w1 by simp
  from data_ack_window [OF w1', of "int b"] bn' have w2: "window_at ?s ps None ?s2 (Suc b) n'" by auto
  have tc: "s_timeout_count ?s2 = 0"
    using w1 bn' by (simp add: sender_data_ack_def Let_def window_at_def split: prod.splits)
  have at1: "s_attempt ?s2 = 1"
    using sender_data_ack_frame [of ?s "int b" "s1\<lparr>s_pc := DataRecv\<rparr>"] fill_window_frame [OF fw] s(3) by simp
  let ?l' = "\<lparr>l_sender = ?s2, l_receiver = rc', l_fwd = sent ?s ps (Suc b) n', l_back = {#}\<rparr>"
  have "link_path K l ?l'"
    unfolding l bk
    by (rule path_run [OF top], unfold fl, rule path_got [OF rc'(1)], simp add: sent_split [OF bn'] d,
        rule path_hear [OF hear], simp, simp add: sent_split [OF bn'] d path_refl)
  moreover have "round_at K ps (Suc b) ?l'"
    using w2 tc at1 rc rc'(3-5) b last
    by (auto simp: round_at_def sender_data_ack_pc take_Suc_conv_app_nth)
  ultimately show ?thesis by blast
qed

lemma rounds:
  assumes "link_ready K cs" and "round_at K ps 0 l"
    and "\<forall>i<length ps. \<exists>p. data_packet (k_send K) (int i) (ps ! i) = Inr p"
    and "\<forall>ch\<in>set ps. length (fst ch) \<le> 1024" and "\<forall>i<length ps. snd (ps ! i) \<longleftrightarrow> Suc i = length ps"
    and "b \<le> length ps"
  shows "\<exists>l'. link_path K l l' \<and> round_at K ps b l'"
  using assms(6)
proof (induction b)
  case 0
  with assms(2) path_refl show ?case by blast
next
  case (Suc b)
  then obtain l1 where l1: "link_path K l l1" "round_at K ps b l1" by auto
  from round_step [OF assms(1) l1(2) _ assms(3-5)] Suc.prems obtain l2 where
    "link_path K l1 l2" "round_at K ps (Suc b) l2" by auto
  with path_trans [OF l1(1)] show ?case by blast
qed

text \<open>
  After the last acknowledgement. When the window was exactly full the lookahead has not been seen to
  be exhausted, and the sender polls an empty window once: it needs a timeout to notice the end.
\<close>

lemma last_round:
  assumes ready: "link_ready K cs" and r: "round_at K ps (length ps) l"
  shows "\<exists>l'. link_path K l l' \<and> s_pc (l_sender l') = SendReturned (total_len ps) \<and> l_receiver l' = l_receiver l
    \<and> s_attempt (l_sender l') = 1"
proof -
  let ?s = "k_send K"
  obtain s rc f bk where l: "l = \<lparr>l_sender = s, l_receiver = rc, l_fwd = f, l_back = bk\<rparr>" by (cases l)
  from r obtain n where s: "s_pc s = DataTop" "s_timeout_count s = 0" "s_attempt s = 1"
    and w: "window_at ?s ps None s (length ps) n"
    by (auto simp: round_at_def l)
  have win: "2 \<le> sc_retry_limit ?s" "2 \<le> sc_window_size ?s" using ready by (auto simp: link_ready_def Let_def)
  have e: "s_window s = []" "s_pending s = []" "s_pending_err s = None" "s_transferred s = total_len ps"
    using w by (auto simp: window_at_def)
  show ?thesis
  proof (cases "s_pending_exhausted s")
    case True
    have "sender_top ?s False s = ([], s\<lparr>s_pc := SendReturned (total_len ps)\<rparr>)"
      using s e True by (simp add: sender_top_def sender_done_def)
    from path_run [OF this path_refl] have
      "link_path K l \<lparr>l_sender = s\<lparr>s_pc := SendReturned (total_len ps)\<rparr>, l_receiver = rc, l_fwd = f + mset [], l_back = bk\<rparr>"
      unfolding l .
    then show ?thesis using s(3) by (intro exI conjI) (assumption, simp_all add: l)
  next
    case False
    define s1 where "s1 = s\<lparr>s_pc := DataRecv, s_pending_exhausted := True\<rparr>"
    define s2 where "s2 = s1\<lparr>s_timeout_count := 1, s_pc := DataTop\<rparr>"
    have t1: "sender_top ?s False s = ([], s1)"
      using s e False win by (simp add: sender_top_def sender_done_def s1_def)
    have t2: "sender_recv ?s Timeout s1 = ([], s2)"
      using s e win by (simp add: sender_recv_def sender_data_timeout_def s1_def s2_def)
    have t3: "sender_top ?s False s2 = ([], s2\<lparr>s_pc := SendReturned (total_len ps)\<rparr>)"
      using e by (simp add: sender_top_def sender_done_def s1_def s2_def)
    from path_run [OF t1 path_wait [OF t2 path_run [OF t3 path_refl]]] have
      "link_path K l \<lparr>l_sender = s2\<lparr>s_pc := SendReturned (total_len ps)\<rparr>, l_receiver = rc,
         l_fwd = f + mset [] + mset [] + mset [], l_back = bk\<rparr>"
      unfolding l .
    then show ?thesis using s(3) by (intro exI conjI) (assumption, simp_all add: l s1_def s2_def)
  qed
qed

lemma grace_ends:
  assumes "r_pc rc = Grace m f"
  shows "\<exists>rc'. link_path K \<lparr>l_sender = s, l_receiver = rc, l_fwd = fw, l_back = bk\<rparr>
      \<lparr>l_sender = s, l_receiver = rc', l_fwd = fw, l_back = bk\<rparr> \<and> r_pc rc' = RecvReturned
      \<and> r_yielded rc' = r_yielded rc"
  using assms
proof (induction m arbitrary: rc)
  case 0
  let ?rc = "rc\<lparr>r_pc := RecvReturned\<rparr>"
  have "receiver_step (k_recv K) (False, Timeout) rc = ([], ?rc)"
    using 0 by (simp add: receiver_step_def after_grace_def)
  from receiver_times_out [of K False "\<lparr>l_sender = s, l_receiver = rc, l_fwd = fw, l_back = bk\<rparr>"] this
  have "link_step K \<lparr>l_sender = s, l_receiver = rc, l_fwd = fw, l_back = bk\<rparr>
      \<lparr>l_sender = s, l_receiver = ?rc, l_fwd = fw, l_back = bk\<rparr>" by (fastforce simp: acks_for_def)
  from path_step [OF this path_refl] show ?case by (intro exI [of _ ?rc]) simp
next
  case (Suc m)
  let ?rc = "rc\<lparr>r_pc := (if m = 0 then RecvReturned else Grace m f)\<rparr>"
  have "receiver_step (k_recv K) (False, Timeout) rc = ([], ?rc)"
    using Suc.prems by (simp add: receiver_step_def after_grace_def)
  from receiver_times_out [of K False "\<lparr>l_sender = s, l_receiver = rc, l_fwd = fw, l_back = bk\<rparr>"] this
  have st: "link_step K \<lparr>l_sender = s, l_receiver = rc, l_fwd = fw, l_back = bk\<rparr>
      \<lparr>l_sender = s, l_receiver = ?rc, l_fwd = fw, l_back = bk\<rparr>" by (fastforce simp: acks_for_def)
  show ?case
  proof (cases "m = 0")
    case True
    with path_step [OF st path_refl] show ?thesis by (intro exI [of _ ?rc]) simp
  next
    case False
    with Suc.IH [of ?rc] obtain rc' where
      "link_path K \<lparr>l_sender = s, l_receiver = ?rc, l_fwd = fw, l_back = bk\<rparr>
        \<lparr>l_sender = s, l_receiver = rc', l_fwd = fw, l_back = bk\<rparr>"
      "r_pc rc' = RecvReturned" "r_yielded rc' = r_yielded rc" by auto
    with path_step [OF st] show ?thesis by blast
  qed
qed

lemma first_round:
  assumes ready: "link_ready K cs" and la: "lookahead (cs, None) = (ps, None)" and ne: "ps \<noteq> []"
  shows "\<exists>l. link_path K (link_init K (cs, None)) l \<and> round_at K ps 0 l"
proof -
  let ?s = "k_send K" and ?rc = "receiver_init (k_recv K)"
  define s0 where "s0 = sender_init ?s (cs, None)"
  have win: "2 \<le> sc_window_size ?s" "2 \<le> sc_retry_limit ?s" using ready by (auto simp: link_ready_def Let_def)
  have s0: "s_pc s0 = StartTop" "s_attempt s0 = 0" "s_timeout_count s0 = 0"
    using win by (simp_all add: s0_def sender_init_def)
  have w0: "window_at ?s ps None s0 0 0"
    using la by (simp add: s0_def sender_init_def window_at_def total_len_def)
  obtain p where p: "start_packet ?s = Inr p" using ready_start [OF ready] by blast
  have lis: "listening K ?rc" using ready by (auto simp: listening_def receiver_init_def link_ready_def Let_def)
  from receiver_hears_start [OF ready p lis] obtain a rc where
    rc: "receiver_step (k_recv K) (False, Datagram p (k_addr K)) ?rc = ([(k_addr K, a)], rc)"
    "ack_packet (sc_transfer_id ?s) 0 = Inr a" "listening K rc" "r_yielded rc = []" "r_expected_seq rc = 0"
    by (auto simp: receiver_init_def)
  define s1 where "s1 = s0\<lparr>s_pc := StartRecv, s_attempt := 1\<rparr>"
  have t1: "sender_top ?s False s0 = ([p], s1)" using sender_starts [of s0 ?s p] s0 win p by (simp add: s1_def)
  have t2: "sender_recv ?s (Datagram a (sc_dest ?s)) s1 = ([], s1\<lparr>s_pc := DataTop\<rparr>)"
    using sender_hears_start_ack [OF _ rc(2), of s1] by (simp add: s1_def)
  let ?l = "\<lparr>l_sender = s1\<lparr>s_pc := DataTop\<rparr>, l_receiver = rc, l_fwd = {#}, l_back = {#}\<rparr>"
  have "link_path K \<lparr>l_sender = s0, l_receiver = ?rc, l_fwd = {#}, l_back = {#}\<rparr> ?l"
    by (rule path_run [OF t1], rule path_got [OF rc(1)], simp, rule path_hear [OF t2], simp, simp add: path_refl)
  moreover have "round_at K ps 0 ?l"
    using w0 s0 rc ne by (auto simp: round_at_def s1_def sent_def)
  ultimately show ?thesis by (auto simp: link_init_def s0_def)
qed

lemma can_complete:
  assumes ready: "link_ready K cs"
  shows "\<exists>l. link_reach K (cs, None) l \<and> s_pc (l_sender l) = SendReturned (int (length (concat cs)))
    \<and> s_attempt (l_sender l) = 1
    \<and> r_pc (l_receiver l) = RecvReturned \<and> r_yielded (l_receiver l) = (if cs = [] then [[]] else cs)"
proof -
  obtain ps e where la: "lookahead (cs, None) = (ps, e)" by (metis surj_pair)
  have e: "e = None" using lookahead_err [of "(cs, None)"] la by simp
  from lookahead_chunks [OF la] have ps: "map fst ps = (if cs = [] then [[]] else cs)" "ps \<noteq> []"
    "\<forall>i<length ps. snd (ps ! i) \<longleftrightarrow> Suc i = length ps" by simp_all
  have small: "\<forall>ch\<in>set ps. length (fst ch) \<le> 1024"
    by (rule lookahead_small [OF la]) (use ready in \<open>simp add: link_ready_def Let_def\<close>)
  have "length ps = length (if cs = [] then [[]] else cs)" by (metis length_map ps(1))
  then have "length ps \<le> max 1 (length cs)" by (simp split: if_splits)
  then have ok: "\<forall>i<length ps. \<exists>p. data_packet (k_send K) (int i) (ps ! i) = Inr p"
    using ready_data [OF ready _ _ small] by blast
  from first_round [OF ready la [unfolded e] ps(2)] obtain l0 where
    l0: "link_path K (link_init K (cs, None)) l0" "round_at K ps 0 l0" by blast
  from rounds [OF ready l0(2) ok small ps(3) order.refl] obtain l1 where
    l1: "link_path K l0 l1" "round_at K ps (length ps) l1" by blast
  from last_round [OF ready l1(2)] obtain l2 where
    l2: "link_path K l1 l2" "s_pc (l_sender l2) = SendReturned (total_len ps)" "l_receiver l2 = l_receiver l1"
    "s_attempt (l_sender l2) = 1" by blast
  from l1(2) obtain m f where "r_pc (l_receiver l2) = Grace m f" by (auto simp: round_at_def l2(3))
  from grace_ends [OF this, of K "l_sender l2" "l_fwd l2" "l_back l2"] obtain rc where
    rc: "link_path K l2 (l2\<lparr>l_receiver := rc\<rparr>)" "r_pc rc = RecvReturned" "r_yielded rc = r_yielded (l_receiver l2)"
    by (cases l2) auto
  have y: "r_yielded rc = map fst ps" using l1(2) rc(3) l2(3) by (simp add: round_at_def)
  have "total_len ps = int (length (concat cs))" unfolding total_len_concat ps(1) by simp
  moreover have "link_reach K (cs, None) (l2\<lparr>l_receiver := rc\<rparr>)"
    using reach_path [OF rc(1) reach_path [OF l2(1) reach_path [OF l1(1) reach_path [OF l0(1) reach_init]]]] .
  ultimately show ?thesis using l2(2,4) rc(2) y ps(1) by (intro exI [of _ "l2\<lparr>l_receiver := rc\<rparr>"]) simp
qed

text \<open>With a retry limit of one, that poll turns a fully acknowledged transfer into a failure.\<close>

lemma full_window_fails:
  assumes "sc_window_size cfg = 1" and "sc_retry_limit cfg = 1"
    and "start_packet cfg = Inr p" and "data_packet cfg 0 (c, True) = Inr d"
    and "ack_packet (sc_transfer_id cfg) 0 = Inr a"
  defines "ack \<equiv> Datagram a (sc_dest cfg)"
  shows "\<exists>st. send_chunks_rdt cfg ([c], None) [(False, ack), (False, ack), (False, Timeout)] = ([p, d], st)
    \<and> s_last_acked st = 0 \<and> s_window st = [] \<and> s_transferred st = int (length c)
    \<and> s_pc st = SendRaised (RuntimeError ''[RDT] Retry limit 1 exceeded for seq=1'')"
proof -
  have "ack_of cfg a (sc_dest cfg) = Some 0" by (rule ack_of_ack_packet [OF assms(5)])
  moreover have "show_nat 1 = ''1''" "show_int 1 = ''1''"
    by code_simp+
  ultimately show ?thesis
    using assms(1-4)
    by (simp add: send_chunks_rdt_def sender_init_def sender_top_def sender_recv_def sender_done_def
        sender_data_ack_def sender_data_timeout_def ack_def)
qed

end
