(* ===== verification/RDT_Properties.thy ===== *)
theory RDT_Properties
  imports RDT_Link
begin

text \<open>
  What the RDT sender, the receiver and the two joined by a network guarantee to the layers above.
  The first sections finish the receiver's lemmas about whole runs; the properties follow.
\<close>

section \<open>Acknowledgements of a whole run\<close>

definition acks_of_run :: "acks \<Rightarrow> receiver \<Rightarrow> bool" where
  "acks_of_run out st \<longleftrightarrow>
     (\<forall>(a, p)\<in>set out. \<exists>tid k. r_transfer_id st = Some tid \<and> ack_packet tid k = Inr p
        \<and> (k < r_expected_seq st \<or> k = 0))"

lemma step_keeps_tid:
  assumes "receiver_step cfg (c, rv) st = (out, st')" and "receiver_inv st" and "grace_inv st"
    and "r_transfer_id st = Some tid"
  shows "r_transfer_id st' = Some tid"
  using receiver_step_cases [OF assms(1-3)] assms(4) by (auto simp: same_data_def delivers_def)

lemma run_keeps:
  "receiver_inv st \<Longrightarrow> grace_inv st \<Longrightarrow>
     r_expected_seq st \<le> r_expected_seq (snd (receiver_run cfg st ins))
     \<and> (\<forall>tid. r_transfer_id st = Some tid \<longrightarrow> r_transfer_id (snd (receiver_run cfg st ins)) = Some tid)"
proof (induction ins arbitrary: st)
  case (Cons i ins)
  obtain c rv out st' where i: "i = (c, rv)" and s: "receiver_step cfg (c, rv) st = (out, st')"
    by (metis surj_pair)
  from receiver_step_inv [OF Cons.prems, of cfg i] have inv: "receiver_inv st'" "grace_inv st'"
    by (simp_all add: i s)
  from Cons.IH [OF inv] step_seq_mono [OF s Cons.prems] step_keeps_tid [OF s Cons.prems]
  show ?case by (auto simp: i s split_beta Let_def)
qed simp

lemma run_acks:
  "receiver_inv st \<Longrightarrow> grace_inv st \<Longrightarrow> acks_of_run (fst (receiver_run cfg st ins)) (snd (receiver_run cfg st ins))"
proof (induction ins arbitrary: st)
  case (Cons i ins)
  obtain c rv out st' where i: "i = (c, rv)" and s: "receiver_step cfg (c, rv) st = (out, st')"
    by (metis surj_pair)
  from receiver_step_inv [OF Cons.prems, of cfg i] have inv: "receiver_inv st'" "grace_inv st'"
    by (simp_all add: i s)
  let ?r = "receiver_run cfg st' ins"
  from run_keeps [OF inv, of cfg ins] have mono: "r_expected_seq st' \<le> r_expected_seq (snd ?r)"
    "\<And>tid. r_transfer_id st' = Some tid \<Longrightarrow> r_transfer_id (snd ?r) = Some tid" by auto
  have "acks_sound out st'" using receiver_step_cases [OF s Cons.prems] by blast
  then have "acks_of_run out (snd ?r)"
    using mono unfolding acks_sound_def acks_of_run_def by (fastforce dest: order_less_le_trans)
  with Cons.IH [OF inv] show ?case by (auto simp: i s split_beta Let_def acks_of_run_def)
qed (simp add: acks_of_run_def)

section \<open>A silent sender ends the receiver\<close>

fun receiver_final :: "receiver_pc \<Rightarrow> bool" where
  "receiver_final RecvReturned = True"
| "receiver_final (RecvRaised e) = True"
| "receiver_final pc = False"

definition patience :: "receiver_cfg \<Rightarrow> receiver \<Rightarrow> nat" where
  "patience cfg st =
     (case r_pc st of RecvTop \<Rightarrow> Suc (rc_max_timeouts cfg - r_timeout_count st) | Grace n f \<Rightarrow> Suc n | _ \<Rightarrow> 0)"

lemma receiver_final_run: "receiver_final (r_pc st) \<Longrightarrow> snd (receiver_run cfg st ins) = st"
proof (induction ins arbitrary: st)
  case (Cons i ins)
  then have "receiver_step cfg i st = ([], st)"
    by (cases "r_pc st") (simp_all add: receiver_step_def split: prod.splits)
  with Cons show ?case by simp
qed simp

lemma timeout_patience:
  assumes "\<not> receiver_final (r_pc st)"
  shows "receiver_final (r_pc (snd (receiver_step cfg (False, Timeout) st)))
    \<or> patience cfg (snd (receiver_step cfg (False, Timeout) st)) < patience cfg st"
  using assms by (cases "r_pc st") (auto simp: receiver_step_def after_grace_def patience_def Let_def)

lemma silence_from:
  "patience cfg st \<le> k \<Longrightarrow> receiver_final (r_pc (snd (receiver_run cfg st (replicate k (False, Timeout)))))"
proof (induction k arbitrary: st)
  case 0
  then show ?case by (cases "r_pc st") (simp_all add: patience_def)
next
  case (Suc k)
  show ?case
  proof (cases "receiver_final (r_pc st)")
    case True
    then show ?thesis by (simp only: receiver_final_run)
  next
    case False
    let ?st = "snd (receiver_step cfg (False, Timeout) st)"
    have run: "snd (receiver_run cfg st (replicate (Suc k) (False, Timeout))) =
        snd (receiver_run cfg ?st (replicate k (False, Timeout)))"
      by (simp add: split_beta Let_def)
    from timeout_patience [OF False, of cfg] show ?thesis
      unfolding run using Suc receiver_final_run [of ?st cfg] by force
  qed
qed

lemma receiver_run_append:
  "snd (receiver_run cfg st (xs @ ys)) = snd (receiver_run cfg (snd (receiver_run cfg st xs)) ys)"
  by (induction xs arbitrary: st) (auto simp: split_beta Let_def)

lemma grace_small:
  "receiver_inv st \<Longrightarrow> grace_inv st \<Longrightarrow> (\<forall>n f. r_pc st = Grace n f \<longrightarrow> n \<le> grace_attempts) \<Longrightarrow>
     \<forall>n f. r_pc (snd (receiver_run cfg st ins)) = Grace n f \<longrightarrow> n \<le> grace_attempts"
proof (induction ins arbitrary: st)
  case (Cons i ins)
  obtain c rv out st' where i: "i = (c, rv)" and s: "receiver_step cfg (c, rv) st = (out, st')"
    by (metis surj_pair)
  from receiver_step_inv [OF Cons.prems(1,2), of cfg i] have inv: "receiver_inv st'" "grace_inv st'"
    by (simp_all add: i s)
  have "\<forall>n f. r_pc st' = Grace n f \<longrightarrow> n \<le> grace_attempts"
  proof (cases "r_pc st")
    case RecvTop
    with receiver_step_cases [OF s Cons.prems(1,2)] show ?thesis
      by (auto simp: same_data_def delivers_def split: if_splits)
  next
    case (Grace n f)
    with s Cons.prems(3) show ?thesis
      by (auto simp: receiver_step_def after_grace_def grace_datagram_def send_ack_def Let_def
          split: if_splits recv.splits sum.splits)
  qed (use s in \<open>auto simp: receiver_step_def\<close>)
  from Cons.IH [OF inv this] show ?case by (simp add: i s split_beta Let_def)
qed simp

lemma receive_silence:
  "receiver_final (r_pc (snd (receive_chunks_rdt cfg
     (ins @ replicate (Suc (max (rc_max_timeouts cfg) grace_attempts)) (False, Timeout)))))"
proof -
  let ?st = "snd (receiver_run cfg (receiver_init cfg) ins)"
  have "\<forall>n f. r_pc ?st = Grace n f \<longrightarrow> n \<le> grace_attempts"
    by (rule grace_small [OF receiver_inv_init]) (simp_all add: grace_inv_def receiver_init_def)
  then have "patience cfg ?st \<le> Suc (max (rc_max_timeouts cfg) grace_attempts)"
    by (auto simp: patience_def split: receiver_pc.splits)
  from silence_from [OF this] show ?thesis
    by (simp only: receive_chunks_rdt_def receiver_run_append)
qed

section \<open>A START of another MODE or TYPE\<close>

lemma start_mismatch:
  assumes p: "start_packet scfg = Inr p" and st: "r_pc st = RecvTop" "r_transfer_id st = Some (sc_transfer_id scfg)"
      "r_peer_addr st \<in> {None, Some a}"
    and em: "rc_expected_mode cfg = Some m"
    and ne: "m \<noteq> ascii_upper (strip (sc_transfer_mode scfg))"
  shows "\<exists>st'. receiver_step cfg (False, Datagram p a) st = ([], st')
    \<and> r_pc st' = RecvRaised (RuntimeError (''[RDT] MODE mismatch: expected '' @ m @ '', got ''
         @ ascii_upper (strip (sc_transfer_mode scfg))))
    \<and> r_yielded st' = r_yielded st"
proof -
  obtain mp where mp: "encode_start_metadata (sc_total_bytes scfg) (sc_transfer_mode scfg) (sc_transfer_type scfg) = Inr mp"
    and pk: "make_packet (sc_transfer_id scfg) 0 0 FLAG_START mp = Inr p"
    using p by (auto simp: start_packet_def split: sum.splits)
  from make_packet_parses [OF pk] obtain h where h: "deserialize p = Inr h" "h_transfer_id h = sc_transfer_id scfg"
    "h_seq_num h = 0" "h_flags h = FLAG_START" "h_length h = int (length mp)" "validate_length h p"
    "verify_checksum h mp = Inr True" "drop header_size p = mp" "length p = header_size + length mp"
    by blast
  have t: "take RECV_BUF p = p"
    using h(9) encode_start_metadata_length [OF mp] by (simp add: RECV_BUF_def)
  let ?st1 = "st\<lparr>r_timeout_count := 0, r_transfer_id := Some (sc_transfer_id scfg)\<rparr>"
  have hs: "receiver_step cfg (False, Datagram p a) st = handle_start cfg (sc_transfer_id scfg) h p a ?st1"
    using st h(1-4,9) t by (auto simp: receiver_step_def handle_datagram_def Let_def)
  have pl: "take (nat (h_length h)) (drop header_size p) = mp" using h(5,8) by simp
  have ok: "\<not> (h_flags h \<noteq> FLAG_START \<or> h_seq_num h \<noteq> 0)" "\<not> \<not> validate_length h p"
    "\<not> verify_checksum h mp \<noteq> Inr True" using h by simp_all
  show ?thesis
    unfolding hs handle_start_def Let_def pl if_not_P [OF ok(1)] if_not_P [OF ok(2)] if_not_P [OF ok(3)]
      start_metadata_roundtrip [OF mp] sum.case prod.case
    using em ne by (simp add: mismatch_text_def)
qed

section \<open>Properties of the sender\<close>

text \<open>C10: The send window. Whatever the peer and the caller do, the window holds exactly the consecutive
  packets between the first unacknowledged one and the next to be sent, never more than window_size of
  them, and the byte count is that of the acknowledged chunks.\<close>

theorem send_window:
  fixes cfg chunks ins
  defines "st \<equiv> snd (send_chunks_rdt cfg chunks ins)" and "ps \<equiv> fst (lookahead chunks)"
  shows "\<exists>b n. b \<le> n \<and> n \<le> length ps \<and> s_last_acked st = int b - 1 \<and> s_next_seq st = int n
    \<and> s_window st = map (win_entry cfg ps) [b..<n] \<and> int (length (s_window st)) \<le> max 0 (sc_window_size cfg)
    \<and> s_transferred st = int (length (concat (map fst (take b ps))))"
proof -
  obtain err where l: "lookahead chunks = (ps, err)" unfolding ps_def by (metis prod.collapse)
  have "sender_inv cfg ps err st"
    unfolding st_def send_chunks_rdt_def by (intro sender_run_inv sender_inv_init l)
  then show ?thesis by (fastforce simp: sender_inv_def window_at_def total_len_concat)
qed


definition sample_link :: link_cfg where
  "sample_link =
     \<lparr> k_send = \<lparr> sc_transfer_id = 7, sc_dest = (''127.0.0.1'', 5000), sc_retry_limit = 10, sc_window_size = 4,
                 sc_total_bytes = Some 3, sc_transfer_mode = ''S'', sc_transfer_type = ''I'' \<rparr>,
       k_recv = \<lparr> rc_transfer_id_hint = Some 7, rc_timeout_ms = 500, rc_max_timeouts = 10,
                 rc_expected_mode = Some ''S'', rc_expected_type = Some ''I'' \<rparr>,
       k_addr = (''127.0.0.1'', 6000), k_dup = False \<rparr>"

lemma sample_names: "ascii_upper (strip ''S'') = ''S''" "ascii_upper (strip ''I'') = ''I''"
  by code_simp+

lemma sample_ready: "link_ready sample_link [[1, 2], [3]]"
  by (simp add: link_ready_def sample_link_def sample_names modes_def types_def)

lemma sample_run:
  "\<exists>ins. s_pc (snd (send_chunks_rdt (k_send sample_link) ([[1, 2, 3]], None) ins)) = SendReturned 3"
proof -
  let ?s = "k_send sample_link"
  have r: "link_ready sample_link [[1, 2, 3]]"
    by (simp add: link_ready_def sample_link_def sample_names modes_def types_def)
  obtain p where p: "start_packet ?s = Inr p" using ready_start [OF r] by blast
  obtain d where d: "data_packet ?s 0 ([1, 2, 3], True) = Inr d"
    using ready_data [OF r, of 0 "[([1, 2, 3], True)]"] by auto
  obtain a where a: "ack_packet (sc_transfer_id ?s) 0 = Inr a"
    using ack_packet_ok [of 7 0] by (auto simp: sample_link_def)
  have k: "ack_of ?s a (sc_dest ?s) = Some 0" by (rule ack_of_ack_packet [OF a])
  have c: "sc_window_size ?s = 4" "sc_retry_limit ?s = 10" by (simp_all add: sample_link_def)
  have "s_pc (snd (send_chunks_rdt ?s ([[1, 2, 3]], None)
      [(False, Datagram a (sc_dest ?s)), (False, Datagram a (sc_dest ?s)), (False, Timeout)])) = SendReturned 3"
    using p d k c
    by (simp add: send_chunks_rdt_def sender_init_def sender_top_def sender_recv_def sender_done_def sender_data_ack_def)
  then show ?thesis by blast
qed


text \<open>C19: The sender always ends. After any history, if the peer stays silent the sender has returned or
  raised within retry_limit + 1 receive timeouts.\<close>

theorem send_terminates:
  "sender_final (s_pc (snd (send_chunks_rdt cfg chunks
     (ins @ replicate (Suc (sc_retry_limit cfg)) (False, Timeout)))))"
  by (rule send_silence_terminates)

section \<open>Properties of the receiver\<close>

text \<open>The receiver's counters. Whatever datagrams arrive, the committed byte count is the size of what
  was yielded and the expected sequence number is the number of chunks yielded.\<close>

theorem receive_counters:
  "let st = snd (receive_chunks_rdt cfg ins) in
     r_committed_bytes st = int (length (concat (r_yielded st))) \<and> r_expected_seq st = int (length (r_yielded st))"
proof -
  have "grace_inv (receiver_init cfg)" by (simp add: grace_inv_def receiver_init_def)
  from receiver_run_inv [OF receiver_inv_init this] show ?thesis
    by (simp add: receive_chunks_rdt_def receiver_inv_def)
qed


text \<open>The receiver of the sample link hears its START and acknowledges it.\<close>

lemma sample_hears:
  "\<exists>p a st. receive_chunks_rdt (k_recv sample_link) [(False, Datagram p (k_addr sample_link))]
     = ([(k_addr sample_link, a)], st) \<and> start_packet (k_send sample_link) = Inr p"
proof -
  obtain p where p: "start_packet (k_send sample_link) = Inr p" using ready_start [OF sample_ready] by blast
  have "listening sample_link (receiver_init (k_recv sample_link))"
    by (simp add: listening_def receiver_init_def sample_link_def)
  from receiver_hears_start [OF sample_ready p this] p show ?thesis
    by (auto simp: receive_chunks_rdt_def)
qed


text \<open>C5: In-order delivery over a hostile network. When each datagram that arrives is one of the sender's,
  a copy of one damaged by a burst of at most four bytes, one that fails the integrity checks, or one of
  another transfer, in any order, number and at any time, the chunks yielded are a prefix of the sender's
  chunks, and a generator that returns normally has yielded all of them.\<close>

theorem receive_in_order:
  assumes "lookahead chunks = (ps, err)" and "\<forall>ch\<in>set ps. length (fst ch) \<le> 1024"
    and "rc_transfer_id_hint rcfg = Some (sc_transfer_id scfg)"
    and "\<forall>c d a. (c, Datagram d a) \<in> set ins \<longrightarrow> channel_ok scfg ps d"
  shows "\<exists>k\<le>length ps. r_yielded (snd (receive_chunks_rdt rcfg ins)) = map fst (take k ps)
    \<and> (r_pc (snd (receive_chunks_rdt rcfg ins)) = RecvReturned \<longrightarrow> k = length ps)"
proof -
  have "last_only ps" using last_only_lookahead [OF assms(1)] by blast
  from receive_prefix [OF assms(4,2) this assms(3)] show ?thesis by (auto simp: prefix_inv_def)
qed

theorem receive_in_order_witness:
  "\<exists>d. data_packet (k_send sample_link) 0 ([1, 2], False) = Inr d
     \<and> (\<exists>k\<le>2. r_yielded (snd (receive_chunks_rdt (k_recv sample_link)
            [(False, Datagram [9, 9] (k_addr sample_link)), (False, Datagram d (k_addr sample_link))]))
          = map fst (take k [([1, 2], False), ([3 :: byte], True)]))"
proof -
  let ?ps = "[([1, 2], False), ([3 :: byte], True)]"
  obtain d where d: "data_packet (k_send sample_link) 0 ([1, 2], False) = Inr d"
    using ready_data [OF sample_ready, of 0 ?ps] by auto
  have "\<not> intact (take RECV_BUF [9, 9])" by (simp add: intact_def deserialize_def header_size_def RECV_BUF_def)
  moreover have "sender_packet (k_send sample_link) ?ps d"
    using d by (auto simp: sender_packet_def intro!: exI [of _ "0::nat"])
  ultimately have ch: "\<forall>c e a. (c, Datagram e a) \<in> set [(False, Datagram [9, 9] (k_addr sample_link)),
      (False, Datagram d (k_addr sample_link))] \<longrightarrow> channel_ok (k_send sample_link) ?ps e"
    by (auto simp: channel_ok_def)
  have "lookahead ([[1, 2], [3]], None) = (?ps, None)" by simp
  moreover have "\<forall>ch\<in>set ?ps. length (fst ch) \<le> 1024" by simp
  moreover have "rc_transfer_id_hint (k_recv sample_link) = Some (sc_transfer_id (k_send sample_link))"
    by (simp add: sample_link_def)
  ultimately obtain k where k: "k \<le> length ?ps"
    "r_yielded (snd (receive_chunks_rdt (k_recv sample_link) [(False, Datagram [9, 9] (k_addr sample_link)),
       (False, Datagram d (k_addr sample_link))])) = map fst (take k ?ps)"
    using receive_in_order [OF _ _ _ ch] by blast
  have "k \<le> 2" using k(1) by simp
  with k(2) d show ?thesis by blast
qed

text \<open>C20: The receiver always ends. After any history, if nothing more arrives the generator has returned
  or raised within max(max_timeouts, 3) + 1 receive timeouts.\<close>

theorem receive_terminates:
  "receiver_final (r_pc (snd (receive_chunks_rdt cfg
     (ins @ replicate (Suc (max (rc_max_timeouts cfg) grace_attempts)) (False, Timeout)))))"
  by (rule receive_silence)

text \<open>C21: MODE agreement. A receiver that expects another MODE than the sender's START announces raises,
  sends no acknowledgement and yields nothing.\<close>

theorem mode_mismatch_rejected:
  assumes "start_packet scfg = Inr p" and "r_pc st = RecvTop"
    and "r_transfer_id st = Some (sc_transfer_id scfg)" and "r_peer_addr st \<in> {None, Some a}"
    and "rc_expected_mode cfg = Some m" and "m \<noteq> ascii_upper (strip (sc_transfer_mode scfg))"
  shows "fst (receiver_step cfg (False, Datagram p a) st) = []
    \<and> (\<exists>e. r_pc (snd (receiver_step cfg (False, Datagram p a) st)) = RecvRaised (RuntimeError e))
    \<and> r_yielded (snd (receiver_step cfg (False, Datagram p a) st)) = r_yielded st"
  using start_mismatch [OF assms] by force

theorem mode_mismatch_rejected_witness:
  "\<exists>p. start_packet (k_send sample_link) = Inr p
     \<and> (let cfg = (k_recv sample_link)\<lparr>rc_expected_mode := Some ''C''\<rparr>;
            r = receiver_step cfg (False, Datagram p (k_addr sample_link)) (receiver_init cfg)
        in fst r = [] \<and> (\<exists>e. r_pc (snd r) = RecvRaised (RuntimeError e)))"
proof -
  obtain p where p: "start_packet (k_send sample_link) = Inr p" using ready_start [OF sample_ready] by blast
  let ?cfg = "(k_recv sample_link)\<lparr>rc_expected_mode := Some ''C''\<rparr>"
  have "ascii_upper (strip (sc_transfer_mode (k_send sample_link))) = ''S''"
    by (simp add: sample_link_def sample_names)
  then have ne: "''C'' \<noteq> ascii_upper (strip (sc_transfer_mode (k_send sample_link)))" by simp
  from mode_mismatch_rejected [OF p _ _ _ _ ne, of "receiver_init ?cfg" "k_addr sample_link" ?cfg] p
  show ?thesis by (simp add: receiver_init_def sample_link_def Let_def)
qed

section \<open>Properties of both ends joined by a network\<close>

text \<open>C7: Safety in every interleaving. In every reachable state of sender, receiver and a network that
  loses, reorders, duplicates and injects damaged datagrams, the receiver has yielded a prefix of the
  chunks, and all of them once its generator is past FIN.\<close>

theorem link_in_order:
  assumes "link_reach K (cs, None) l" and "\<forall>c\<in>set cs. length c \<le> 1024"
    and "rc_transfer_id_hint (k_recv K) = Some (sc_transfer_id (k_send K))"
  shows "\<exists>k. r_yielded (l_receiver l) = take k (if cs = [] then [[]] else cs)
    \<and> (r_pc (l_receiver l) = RecvReturned \<longrightarrow> r_yielded (l_receiver l) = (if cs = [] then [[]] else cs))"
proof -
  obtain ps e where la: "lookahead (cs, None) = (ps, e)" by (metis surj_pair)
  from lookahead_chunks [of cs ps e] lookahead_err [of "(cs, None)"] la
  have ps: "map fst ps = (if cs = [] then [[]] else cs)" and e: "e = None" by auto
  have "\<forall>ch\<in>set ps. length (fst ch) \<le> 1024"
    by (rule lookahead_small [OF la]) (use assms(2) in simp)
  then have "link_agrees K ps" using assms(3) by (simp add: link_agrees_def)
  from link_reach_inv [OF assms(1) la this] obtain k where k: "k \<le> length ps"
    "r_yielded (l_receiver l) = map fst (take k ps)" "r_pc (l_receiver l) = RecvReturned \<longrightarrow> k = length ps"
    by (auto simp: link_inv_def prefix_inv_def)
  then show ?thesis unfolding ps [symmetric] by (auto simp: take_map)
qed

lemma sample_agrees:
  "rc_transfer_id_hint (k_recv sample_link) = Some (sc_transfer_id (k_send sample_link))" "\<not> k_dup sample_link"
  by (simp_all add: sample_link_def)

theorem link_in_order_witness:
  "\<exists>l. link_reach sample_link ([[1, 2], [3]], None) l \<and> r_pc (l_receiver l) = RecvReturned
     \<and> r_yielded (l_receiver l) = [[1, 2], [3]]"
proof -
  obtain l where l: "link_reach sample_link ([[1, 2], [3]], None) l" "r_pc (l_receiver l) = RecvReturned"
    using can_complete [OF sample_ready] by blast
  from link_in_order [OF l(1) _ sample_agrees(1)] l show ?thesis by auto
qed

text \<open>C6: A success report is right when START was sent once. On a network that does not duplicate, in
  every reachable state where the sender has returned and its START was not retransmitted, the receiver has
  yielded every chunk, in order.\<close>

theorem link_success_complete:
  assumes "link_reach K (cs, None) l" and "\<not> k_dup K" and "\<forall>c\<in>set cs. length c \<le> 1024"
    and "rc_transfer_id_hint (k_recv K) = Some (sc_transfer_id (k_send K))"
    and "s_attempt (l_sender l) \<le> 1" and "s_pc (l_sender l) = SendReturned m"
  shows "r_yielded (l_receiver l) = (if cs = [] then [[]] else cs) \<and> m = int (length (concat cs))"
proof -
  obtain ps e where la: "lookahead (cs, None) = (ps, e)" by (metis surj_pair)
  from lookahead_chunks [of cs ps e] lookahead_err [of "(cs, None)"] la
  have ps: "map fst ps = (if cs = [] then [[]] else cs)" and e: "e = None" by auto
  have small: "\<forall>ch\<in>set ps. length (fst ch) \<le> 1024"
    by (rule lookahead_small [OF la]) (use assms(3) in simp)
  then have ag: "link_agrees K ps" using assms(4) by (simp add: link_agrees_def)
  have "sender_inv (k_send K) ps e (l_sender l)"
    using link_reach_inv [OF assms(1) la ag] by (simp add: link_inv_def)
  from sender_inv_returned [OF this assms(6)] have "m = int (length (concat (map fst ps)))"
    by (simp add: total_len_concat)
  then show ?thesis
    using once_complete [OF assms(1,2) la ag assms(5,6)] by (simp add: ps)
qed

theorem link_success_complete_witness:
  "\<exists>l. link_reach sample_link ([[1, 2], [3]], None) l \<and> s_pc (l_sender l) = SendReturned 3
     \<and> r_yielded (l_receiver l) = [[1, 2], [3]]"
proof -
  obtain l where l: "link_reach sample_link ([[1, 2], [3]], None) l" "s_attempt (l_sender l) = 1"
    "s_pc (l_sender l) = SendReturned (int (length (concat [[1, 2], [3 :: byte]])))"
    using can_complete [OF sample_ready] by blast
  from link_success_complete [OF l(1) sample_agrees(2) _ sample_agrees(1) _ l(3)] l show ?thesis by auto
qed

text \<open>C15: Every transfer can be completed: from the initial state of a sensible configuration some run ends
  with the sender reporting the full size and the receiver having yielded every chunk and returned.\<close>

theorem link_can_finish:
  assumes "link_ready K cs"
  shows "\<exists>l. link_reach K (cs, None) l \<and> s_pc (l_sender l) = SendReturned (int (length (concat cs)))
    \<and> r_pc (l_receiver l) = RecvReturned \<and> r_yielded (l_receiver l) = (if cs = [] then [[]] else cs)"
  using can_complete [OF assms] by blast

theorem link_can_finish_witness:
  "\<exists>l. link_reach sample_link ([[1, 2], [3]], None) l \<and> s_pc (l_sender l) = SendReturned 3
     \<and> r_pc (l_receiver l) = RecvReturned"
  using link_can_finish [OF sample_ready] by auto

text \<open>C16: The acknowledgement of START and that of the first DATA packet are the same datagram. When START
  is retransmitted once, and although nothing is duplicated, a run exists in which a one-chunk transfer is
  reported successful while the receiver has yielded nothing and nothing is left in flight.\<close>

theorem start_ack_ambiguity:
  assumes "link_ready K [c]"
  shows "\<exists>l. link_reach K ([c], None) l \<and> s_pc (l_sender l) = SendReturned (int (length c))
    \<and> r_yielded (l_receiver l) = [] \<and> l_fwd l = {#} \<and> l_back l = {#}"
  using assms by (rule start_ack_misread)

theorem start_ack_ambiguity_witness:
  "\<exists>l. link_reach sample_link ([[1, 2, 3]], None) l \<and> s_pc (l_sender l) = SendReturned 3
     \<and> r_yielded (l_receiver l) = []"
proof -
  have "link_ready sample_link [[1, 2, 3]]"
    by (simp add: link_ready_def sample_link_def sample_names modes_def types_def)
  from start_ack_ambiguity [OF this] show ?thesis by auto
qed

text \<open>A window that is exactly full with the last chunk. The sender then polls its empty window once
  more; with a retry limit of one it reports failure although every byte was acknowledged.\<close>

theorem full_window_reports_failure:
  assumes "sc_window_size cfg = 1" and "sc_retry_limit cfg = 1"
    and "start_packet cfg = Inr p" and "data_packet cfg 0 (c, True) = Inr d"
    and "ack_packet (sc_transfer_id cfg) 0 = Inr a"
  shows "\<exists>st. send_chunks_rdt cfg ([c], None)
        [(False, Datagram a (sc_dest cfg)), (False, Datagram a (sc_dest cfg)), (False, Timeout)] = ([p, d], st)
    \<and> s_last_acked st = 0 \<and> s_window st = [] \<and> s_transferred st = int (length c)
    \<and> s_pc st = SendRaised (RuntimeError ''[RDT] Retry limit 1 exceeded for seq=1'')"
  using assms by (rule full_window_fails)

theorem full_window_reports_failure_witness:
  "\<exists>cfg p d a st. start_packet cfg = Inr p \<and> data_packet cfg 0 ([1, 2, 3], True) = Inr d
     \<and> send_chunks_rdt cfg ([[1, 2, 3]], None)
        [(False, Datagram a (sc_dest cfg)), (False, Datagram a (sc_dest cfg)), (False, Timeout)] = ([p, d], st)
     \<and> s_transferred st = 3 \<and> s_window st = []"
proof -
  let ?K = "sample_link" and ?c = "[1, 2, 3] :: bytes"
  let ?s = "(k_send ?K)\<lparr>sc_window_size := 1, sc_retry_limit := 1\<rparr>"
  have r: "link_ready ?K [?c]"
    by (simp add: link_ready_def sample_link_def sample_names modes_def types_def)
  obtain p where p: "start_packet ?s = Inr p"
    using ready_start [OF r] by (auto simp: start_packet_def sample_link_def cong: sum.case_cong)
  obtain d where d: "data_packet ?s 0 (?c, True) = Inr d"
    using ready_data [OF r, of 0 "[(?c, True)]"] by (auto simp: data_packet_def sample_link_def)
  obtain a where a: "ack_packet (sc_transfer_id ?s) 0 = Inr a"
    using ack_packet_ok [of 7 0] by (auto simp: sample_link_def)
  from full_window_reports_failure [OF _ _ p d a] p d show ?thesis by fastforce
qed

end
