(* ===== verification/Mode_Codec.thy ===== *)
theory Mode_Codec
  imports Prelude
begin

text \<open>
  The transmission-mode codecs of common/mode_codec.py. Each generator maps the iterable it consumes
  to the iterable it yields, chunk boundaries and failures included. The inner loops that fetch more
  input are fill, whose source may raise in the middle.
\<close>

definition mode_error :: "string \<Rightarrow> exn" where
  "mode_error msg = FsError ''mode'' 426 msg"

definition MODE_STREAM :: string where "MODE_STREAM = ''S''"
definition MODE_BLOCK :: string where "MODE_BLOCK = ''B''"
definition MODE_COMPRESSED :: string where "MODE_COMPRESSED = ''C''"

definition VALID_MODES :: "string list" where
  "VALID_MODES = [MODE_STREAM, MODE_BLOCK, MODE_COMPRESSED]"

lemmas mode_defs = MODE_STREAM_def MODE_BLOCK_def MODE_COMPRESSED_def

definition WIRE_CHUNK_SIZE :: nat where
  "WIRE_CHUNK_SIZE = 1024"

definition BLOCK_FLAG_EOF :: byte where
  "BLOCK_FLAG_EOF = 0x40"

definition COMPRESSED_MAX_LITERAL :: nat where
  "COMPRESSED_MAX_LITERAL = 127"

definition COMPRESSED_MAX_RUN :: nat where
  "COMPRESSED_MAX_RUN = 63"

definition normalize_mode :: "string option \<Rightarrow> exn + string" where
  "normalize_mode mode =
     (case mode of
        None \<Rightarrow> Inr MODE_STREAM
      | Some m \<Rightarrow> let normalized = ascii_upper (strip m) in
          if normalized \<notin> set VALID_MODES
          then Inl (mode_error (''Unknown transfer mode: '' @ py_repr m)) else Inr normalized)"

definition normalize_transfer_type :: "string option \<Rightarrow> exn + string" where
  "normalize_transfer_type transfer_type =
     (case transfer_type of
        None \<Rightarrow> Inr ''I''
      | Some t \<Rightarrow> let normalized = ascii_upper (strip t) in
          if normalized \<notin> {''A'', ''I''}
          then Inl (mode_error (''Unknown transfer type: '' @ py_repr t)) else Inr normalized)"

definition compressed_filler_byte :: "string option \<Rightarrow> exn + byte" where
  "compressed_filler_byte transfer_type =
     (case normalize_transfer_type transfer_type of
        Inl e \<Rightarrow> Inl e
      | Inr t \<Rightarrow> Inr (if t = ''A'' then 0x20 else 0x00))"

text \<open>The fetching loop: false when the source ended first, an exception when the source raised.\<close>

definition fill :: "nat \<Rightarrow> bytes \<Rightarrow> source \<Rightarrow> exn + (bool \<times> bytes \<times> bytes list)" where
  "fill needed buffer src =
     (case pull needed buffer (fst src) of
        (ok, buf, cs) \<Rightarrow>
          (case snd src of
             Some e \<Rightarrow> (if ok then Inr (ok, buf, cs) else Inl e)
           | None \<Rightarrow> Inr (ok, buf, cs)))"

lemma fill_Inr:
  "fill n buf src = Inr (ok, buf', cs') \<Longrightarrow> pull n buf (fst src) = (ok, buf', cs')"
  by (auto simp: fill_def split: prod.splits option.splits if_splits)

lemma fill_length:
  "fill n buf src = Inr (ok, buf', cs') \<Longrightarrow> length buf' + length (concat cs') = length buf + length (concat (fst src))"
  by (rule pull_length [OF fill_Inr])

lemma fill_enough: "fill n buf src = Inr (True, buf', cs') \<Longrightarrow> n \<le> length buf'"
  by (rule pull_enough [OF fill_Inr])

lemma fill_progress: "fill n buf src = Inr (ok, buf', cs') \<Longrightarrow>
    length buf' + length (concat cs') = length buf + length (concat (fst src)) \<and> (ok \<longrightarrow> n \<le> length buf')
    \<and> length buf \<le> length buf'"
  using pull_prefix [OF fill_Inr] by (fastforce dest: fill_enough simp: fill_length)

definition emit :: "bytes \<Rightarrow> source \<Rightarrow> source" where
  "emit y rest = (y # fst rest, snd rest)"

lemma emit_simps [simp]: "fst (emit y r) = y # fst r" "snd (emit y r) = snd r"
  by (simp_all add: emit_def)

section \<open>Block mode\<close>

definition block_packet :: "bytes \<Rightarrow> bool \<Rightarrow> exn + bytes" where
  "block_packet payload eof =
     (case pack_be 2 (int (length payload)) of
        Inl e \<Rightarrow> Inl e
      | Inr count \<Rightarrow> Inr ([if eof then BLOCK_FLAG_EOF else 0] @ count @ payload))"

text \<open>The loop of block_encode; the check of the block size is repeated at every turn.\<close>

function block_encode_from :: "nat \<Rightarrow> bytes \<Rightarrow> source \<Rightarrow> source" where
  "block_encode_from block_size buffer src =
     (if block_size < 1 \<or> 0xFFFF < block_size then ([], Some (mode_error ''Invalid block size''))
      else case fill (block_size + 1) buffer src of
        Inl e \<Rightarrow> ([], Some e)
      | Inr (ok, buf, cs) \<Rightarrow>
          if \<not> ok then
            (case block_packet buf True of Inl e \<Rightarrow> ([], Some e) | Inr p \<Rightarrow> ([p], None))
          else
            (case block_packet (take block_size buf) False of
               Inl e \<Rightarrow> ([], Some e)
             | Inr p \<Rightarrow> emit p (block_encode_from block_size (drop block_size buf) (cs, snd src))))"
  by pat_completeness auto
termination
  by (relation "measure (\<lambda>(n, buf, src). length buf + length (concat (fst src)))")
    (auto dest!: fill_progress)

declare block_encode_from.simps [simp del]

definition block_encode :: "source \<Rightarrow> source" where
  "block_encode chunks = block_encode_from WIRE_CHUNK_SIZE [] chunks"

text \<open>
  block_decode. At the top of its loop eof_seen is always false, because the turn that sets it
  returns or raises.
\<close>

function block_decode_from :: "bytes \<Rightarrow> source \<Rightarrow> source" where
  "block_decode_from buffer src =
     (case fill 3 buffer src of
        Inl e \<Rightarrow> ([], Some e)
      | Inr (ok, buf, cs) \<Rightarrow>
          if \<not> ok then ([], Some (mode_error ''Truncated block header; missing EOF''))
          else
            let descriptor = buf ! 0; count = nat (be_int (take 2 (drop 1 buf))) in
            (case fill count (drop 3 buf) (cs, snd src) of
               Inl e \<Rightarrow> ([], Some e)
             | Inr (ok2, buf2, cs2) \<Rightarrow>
                 if \<not> ok2 then ([], Some (mode_error ''Truncated block payload; missing EOF''))
                 else
                   let payload = take count buf2; rest = drop count buf2 in
                   if descriptor AND BLOCK_FLAG_EOF \<noteq> 0 then
                     emit payload
                       (if rest \<noteq> [] then ([], Some (mode_error ''Data received after EOF block''))
                        else case cs2 of
                          [] \<Rightarrow> ([], snd src)
                        | extra # _ \<Rightarrow> ([], Some (mode_error (''Data received after EOF block (''
                             @ show_nat (length extra) @ '' bytes)''))))
                   else emit payload (block_decode_from rest (cs2, snd src))))"
  by pat_completeness auto
termination
  by (relation "measure (\<lambda>(buf, src). length buf + length (concat (fst src)))")
    (auto dest!: fill_progress)

declare block_decode_from.simps [simp del]

definition block_decode :: "source \<Rightarrow> source" where
  "block_decode chunks = block_decode_from [] chunks"

section \<open>Compressed mode\<close>

text \<open>The length of a run: \<open>while run < 63 and run < len(buffer) and buffer[run] == byte: run += 1\<close>.\<close>

function run_from :: "byte \<Rightarrow> bytes \<Rightarrow> nat \<Rightarrow> nat" where
  "run_from b buffer run =
     (if run < COMPRESSED_MAX_RUN \<and> run < length buffer \<and> buffer ! run = b
      then run_from b buffer (run + 1) else run)"
  by pat_completeness auto
termination
  by (relation "measure (\<lambda>(b, buffer, run). COMPRESSED_MAX_RUN - run)") auto

declare run_from.simps [simp del]

text \<open>The length of a literal: up to the next pair of equal bytes or the maximum.\<close>

function literal_from :: "bytes \<Rightarrow> nat \<Rightarrow> nat" where
  "literal_from buffer count =
     (if count < COMPRESSED_MAX_LITERAL \<and> count + 1 < length buffer
         \<and> buffer ! count \<noteq> buffer ! (count + 1)
      then literal_from buffer (count + 1) else count)"
  by pat_completeness auto
termination
  by (relation "measure (\<lambda>(buffer, count). COMPRESSED_MAX_LITERAL - count)") auto

declare literal_from.simps [simp del]

lemma run_from_bounds: "n \<le> COMPRESSED_MAX_RUN \<Longrightarrow> n \<le> length buf \<Longrightarrow>
    n \<le> run_from b buf n \<and> run_from b buf n \<le> COMPRESSED_MAX_RUN \<and> run_from b buf n \<le> length buf
    \<and> (\<forall>i. n \<le> i \<and> i < run_from b buf n \<longrightarrow> buf ! i = b)"
proof (induction b buf n rule: run_from.induct)
  case (1 b buf n)
  show ?case
  proof (cases "n < COMPRESSED_MAX_RUN \<and> n < length buf \<and> buf ! n = b")
    case True
    with 1 show ?thesis
      by (subst (1 2 3 4) run_from.simps) (auto simp: le_less_Suc_eq, metis le_neq_implies_less Suc_leI)
  next
    case False
    with 1 show ?thesis by (subst (1 2 3 4) run_from.simps) auto
  qed
qed

lemma literal_from_bounds: "n \<le> COMPRESSED_MAX_LITERAL \<Longrightarrow> n \<le> length buf \<Longrightarrow>
    n \<le> literal_from buf n \<and> literal_from buf n \<le> COMPRESSED_MAX_LITERAL \<and> literal_from buf n \<le> length buf"
proof (induction buf n rule: literal_from.induct)
  case (1 buf n)
  then show ?case by (subst (1 2 3) literal_from.simps) auto
qed

text \<open>
  One turn of compressed_encode: the primitive it yields, or None when the source ended, and the
  buffer and chunks left. A run that reaches the end of the buffer fetches more input once; a
  literal first fills the buffer.
\<close>

definition compressed_run :: "bytes \<Rightarrow> source \<Rightarrow> exn + (nat \<times> bytes \<times> bytes list)" where
  "compressed_run buffer src =
     (let b = buffer ! 0; run = run_from b buffer 1 in
      if run < COMPRESSED_MAX_RUN \<and> run = length buffer then
        (case fill (run + 1) buffer src of
           Inl e \<Rightarrow> Inl e
         | Inr (more, buf, cs) \<Rightarrow> Inr (if more then run_from b buf run else run, buf, cs))
      else Inr (run, buffer, fst src))"

definition compressed_turn :: "byte \<Rightarrow> bytes \<Rightarrow> source \<Rightarrow> exn + (bytes \<times> bytes \<times> bytes list) option" where
  "compressed_turn filler buffer src =
     (case fill 1 buffer src of
        Inl e \<Rightarrow> Inl e
      | Inr (ok, buf, cs) \<Rightarrow>
          if \<not> ok then Inr None
          else
            let b = buf ! 0 in
            (case compressed_run buf (cs, snd src) of
               Inl e \<Rightarrow> Inl e
             | Inr (run, buf2, cs2) \<Rightarrow>
                 if 2 \<le> run then
                   Inr (Some (if b = filler then [0xC0 OR word_of_nat run] else [0x80 OR word_of_nat run, b],
                              drop run buf2, cs2))
                 else
                   (case fill (COMPRESSED_MAX_LITERAL + 2) buf2 (cs2, snd src) of
                      Inl e \<Rightarrow> Inl e
                    | Inr (_, buf3, cs3) \<Rightarrow>
                        let count = literal_from buf3 1
                        in Inr (Some (word_of_nat count # take count buf3, drop count buf3, cs3)))))"

lemma compressed_run_spec:
  assumes "compressed_run buf src = Inr (run, buf', cs')" and "1 \<le> length buf"
  shows "buf' @ concat cs' = buf @ concat (fst src) \<and> 1 \<le> run \<and> run \<le> length buf'
    \<and> run \<le> COMPRESSED_MAX_RUN \<and> (\<forall>i<run. buf' ! i = buf ! 0) \<and> buf' ! 0 = buf ! 0"
proof -
  define b where "b = buf ! 0"
  define r where "r = run_from b buf 1"
  have r: "1 \<le> r" "r \<le> length buf" "r \<le> COMPRESSED_MAX_RUN" "\<forall>i<r. buf ! i = b"
  proof -
    have "1 \<le> COMPRESSED_MAX_RUN" by (simp add: COMPRESSED_MAX_RUN_def)
    note rf = run_from_bounds [OF this assms(2), of b, folded r_def]
    then show "1 \<le> r" "r \<le> length buf" "r \<le> COMPRESSED_MAX_RUN" by blast+
    show "\<forall>i<r. buf ! i = b"
    proof (intro allI impI)
      fix i assume "i < r"
      with rf show "buf ! i = b" by (cases "i = 0") (auto simp: b_def Suc_le_eq)
    qed
  qed
  show ?thesis
  proof (cases "r < COMPRESSED_MAX_RUN \<and> r = length buf")
    case False
    with assms r show ?thesis
      unfolding compressed_run_def Let_def b_def [symmetric] r_def [symmetric] by (auto split: if_splits)
  next
    case True
    with assms(1) obtain more where f2: "fill (r + 1) buf src = Inr (more, buf', cs')"
      and run: "run = (if more then run_from b buf' r else r)"
      unfolding compressed_run_def Let_def b_def [symmetric] r_def [symmetric] by (auto split: sum.splits)
    obtain ys where ys: "buf' = buf @ ys" using pull_prefix [OF fill_Inr [OF f2]] by blast
    have b2: "\<forall>i<r. buf' ! i = b" "r \<le> length buf'"
      using r(2,4) by (simp_all add: ys nth_append)
    have b3: "buf' ! 0 = b" using b2(1) r(1) by simp
    note rf = run_from_bounds [OF r(3) b2(2), of b]
    have all: "\<forall>i<run_from b buf' r. buf' ! i = b"
    proof (intro allI impI)
      fix i assume "i < run_from b buf' r"
      with rf b2(1) show "buf' ! i = b" by (cases "i < r") simp_all
    qed
    have "r \<le> run" "run \<le> length buf'" "run \<le> COMPRESSED_MAX_RUN" "\<forall>i<run. buf' ! i = b"
      unfolding run using rf all b2 r(3) by simp_all
    with r(1) b3 pull_concat [OF fill_Inr [OF f2]] show ?thesis
      unfolding b_def [symmetric] by (meson order_trans)
  qed
qed

text \<open>A turn that yields: a run of at least two bytes, or a literal.\<close>

lemma compressed_turn_cases:
  assumes "compressed_turn filler buffer src = Inr (Some (p, buf, cs))"
  shows "\<exists>v. 1 \<le> length v \<and> v @ buf @ concat cs = buffer @ concat (fst src)
    \<and> ((\<exists>n b. 2 \<le> n \<and> n \<le> COMPRESSED_MAX_RUN \<and> v = replicate n b
          \<and> p = (if b = filler then [0xC0 OR word_of_nat n] else [0x80 OR word_of_nat n, b]))
       \<or> (length v \<le> COMPRESSED_MAX_LITERAL \<and> p = word_of_nat (length v) # v))"
proof -
  obtain b1 c1 where f1: "fill 1 buffer src = Inr (True, b1, c1)"
    using assms by (auto simp: compressed_turn_def split: sum.splits if_splits)
  have l1: "1 \<le> length b1" using fill_progress [OF f1(1)] by simp
  have e1: "b1 @ concat c1 = buffer @ concat (fst src)" using pull_concat [OF fill_Inr [OF f1(1)]] .
  obtain run b2 c2 where s2: "compressed_run b1 (c1, snd src) = Inr (run, b2, c2)"
    using assms f1 by (auto simp: compressed_turn_def Let_def split: sum.splits)
  from compressed_run_spec [OF s2 l1] have run: "b2 @ concat c2 = b1 @ concat c1" "1 \<le> run" "run \<le> length b2"
    "run \<le> COMPRESSED_MAX_RUN" "\<forall>i<run. b2 ! i = b1 ! 0" by auto
  show ?thesis
  proof (cases "2 \<le> run")
    case True
    with assms f1 s2 have p: "buf = drop run b2" "cs = c2"
      "p = (if b1 ! 0 = filler then [0xC0 OR word_of_nat run] else [0x80 OR word_of_nat run, b1 ! 0])"
      by (auto simp: compressed_turn_def Let_def)
    have "take run b2 = replicate run (b1 ! 0)" using run(3,5) by (intro nth_equalityI) simp_all
    then have "replicate run (b1 ! 0) @ buf @ concat cs = buffer @ concat (fst src)"
      unfolding p(1,2) e1 [symmetric] run(1) [symmetric] by (metis append.assoc append_take_drop_id)
    with p(3) True run(2,4) show ?thesis
      by (intro exI [of _ "replicate run (b1 ! 0)"] conjI disjI1 exI [of _ run] exI [of _ "b1 ! 0"])
        (simp_all del: replicate.simps)
  next
    case False
    with assms f1 s2 obtain ok3 b3 where f3: "fill (COMPRESSED_MAX_LITERAL + 2) b2 (c2, snd src) = Inr (ok3, b3, cs)"
      "buf = drop (literal_from b3 1) b3" "p = word_of_nat (literal_from b3 1) # take (literal_from b3 1) b3"
      by (auto simp: compressed_turn_def Let_def split: sum.splits)
    from fill_progress [OF f3(1)] run have "1 \<le> length b3" by auto
    with literal_from_bounds [of 1 b3] have l: "1 \<le> literal_from b3 1" "literal_from b3 1 \<le> length b3"
      "literal_from b3 1 \<le> COMPRESSED_MAX_LITERAL" by (simp_all add: COMPRESSED_MAX_LITERAL_def)
    have "take (literal_from b3 1) b3 @ buf @ concat cs = buffer @ concat (fst src)"
      unfolding f3(2) append.assoc [symmetric] append_take_drop_id
      using pull_concat [OF fill_Inr [OF f3(1)]] run(1) e1 by simp
    with l f3(3) show ?thesis by (intro exI [of _ "take (literal_from b3 1) b3"] conjI disjI2) simp_all
  qed
qed

lemma compressed_turn_progress:
  assumes "compressed_turn filler buffer src = Inr (Some (prim, buf, cs))"
  shows "length buf + length (concat cs) < length buffer + length (concat (fst src))"
proof -
  obtain v where "1 \<le> length v" "v @ buf @ concat cs = buffer @ concat (fst src)"
    using compressed_turn_cases [OF assms] by blast
  from this(1) arg_cong [OF this(2), of length] show ?thesis by simp
qed

function compressed_encode_from :: "byte \<Rightarrow> bytes \<Rightarrow> source \<Rightarrow> source" where
  "compressed_encode_from filler buffer src =
     (case compressed_turn filler buffer src of
        Inl e \<Rightarrow> ([], Some e)
      | Inr None \<Rightarrow> ([[0, BLOCK_FLAG_EOF]], None)
      | Inr (Some (prim, buf, cs)) \<Rightarrow> emit prim (compressed_encode_from filler buf (cs, snd src)))"
  by pat_completeness auto
termination
  by (relation "measure (\<lambda>(f, buf, src). length buf + length (concat (fst src)))")
    (auto dest!: compressed_turn_progress)

declare compressed_encode_from.simps [simp del]

definition compressed_encode :: "source \<Rightarrow> string option \<Rightarrow> source" where
  "compressed_encode chunks transfer_type =
     (case compressed_filler_byte transfer_type of
        Inl e \<Rightarrow> ([], Some e)
      | Inr filler \<Rightarrow> compressed_encode_from filler [] chunks)"

text \<open>
  compressed_decode. As in block mode, eof_seen is false at the top of the loop, so neither the
  duplicate-EOF test nor the return after the loop can succeed.
\<close>

function compressed_decode_from :: "byte \<Rightarrow> bytes \<Rightarrow> source \<Rightarrow> source" where
  "compressed_decode_from filler buffer src =
     (case fill 1 buffer src of
        Inl e \<Rightarrow> ([], Some e)
      | Inr (ok, buf, cs) \<Rightarrow>
          if \<not> ok then ([], Some (mode_error ''Missing EOF escape in compressed stream''))
          else
            let header = buf ! 0; buf1 = drop 1 buf in
            if header AND 0x80 = 0 then
              let count = unat (header AND 0x7F) in
              if count = 0 then
                (case fill 1 buf1 (cs, snd src) of
                   Inl e \<Rightarrow> ([], Some e)
                 | Inr (ok2, buf2, cs2) \<Rightarrow>
                     if \<not> ok2 then ([], Some (mode_error ''Truncated compressed escape; missing descriptor''))
                     else
                       let descriptor = buf2 ! 0; buf3 = drop 1 buf2 in
                       if descriptor = 0 \<or> descriptor AND 0x0F \<noteq> 0
                       then ([], Some (mode_error ''Invalid compressed control byte''))
                       else if descriptor AND BLOCK_FLAG_EOF \<noteq> 0 then
                         (case fill 1 buf3 (cs2, snd src) of
                            Inl e \<Rightarrow> ([], Some e)
                          | Inr (more, _, _) \<Rightarrow>
                              if more then ([], Some (mode_error ''Data received after EOF escape''))
                              else ([], None))
                       else compressed_decode_from filler buf3 (cs2, snd src))
              else
                (case fill count buf1 (cs, snd src) of
                   Inl e \<Rightarrow> ([], Some e)
                 | Inr (ok2, buf2, cs2) \<Rightarrow>
                     if \<not> ok2 then ([], Some (mode_error ''Truncated compressed literal run''))
                     else emit (take count buf2) (compressed_decode_from filler (drop count buf2) (cs2, snd src)))
            else if header AND 0x40 \<noteq> 0 then
              let count = unat (header AND 0x3F) in
              if count = 0 then ([], Some (mode_error ''Invalid zero-length filler run''))
              else emit (replicate count filler) (compressed_decode_from filler buf1 (cs, snd src))
            else
              let count = unat (header AND 0x3F) in
              if count = 0 then ([], Some (mode_error ''Invalid zero-length repeated byte run''))
              else
                (case fill 1 buf1 (cs, snd src) of
                   Inl e \<Rightarrow> ([], Some e)
                 | Inr (ok2, buf2, cs2) \<Rightarrow>
                     if \<not> ok2 then ([], Some (mode_error ''Truncated compressed repeated byte''))
                     else emit (replicate count (buf2 ! 0))
                       (compressed_decode_from filler (drop 1 buf2) (cs2, snd src))))"
  by pat_completeness auto
termination
  by (relation "measure (\<lambda>(f, buf, src). length buf + length (concat (fst src)))")
    (auto dest!: fill_progress)

declare compressed_decode_from.simps [simp del]

definition compressed_decode :: "source \<Rightarrow> string option \<Rightarrow> source" where
  "compressed_decode chunks transfer_type =
     (case compressed_filler_byte transfer_type of
        Inl e \<Rightarrow> ([], Some e)
      | Inr filler \<Rightarrow> compressed_decode_from filler [] chunks)"

section \<open>Batching and dispatch\<close>

text \<open>The inner loop of _batch_wire: full wire chunks leave the buffer.\<close>

function batch_full :: "bytes \<Rightarrow> bytes list \<times> bytes" where
  "batch_full buffer =
     (if WIRE_CHUNK_SIZE \<le> length buffer
      then (case batch_full (drop WIRE_CHUNK_SIZE buffer) of
              (ys, rest) \<Rightarrow> (take WIRE_CHUNK_SIZE buffer # ys, rest))
      else ([], buffer))"
  by pat_completeness auto
termination
  by (relation "measure length") (auto simp: WIRE_CHUNK_SIZE_def)

declare batch_full.simps [simp del]

fun batch_wire_from :: "bytes \<Rightarrow> bytes list \<Rightarrow> exn option \<Rightarrow> source" where
  "batch_wire_from buffer [] None = ((if buffer \<noteq> [] then [buffer] else []), None)"
| "batch_wire_from buffer [] (Some e) = ([], Some e)"
| "batch_wire_from buffer (primitive # ps) err =
     (let (ys, rest) = batch_full (buffer @ primitive); (zs, e) = batch_wire_from rest ps err
      in (ys @ zs, e))"

definition batch_wire :: "source \<Rightarrow> source" where
  "batch_wire primitives = batch_wire_from [] (fst primitives) (snd primitives)"

definition encode_chunks :: "source \<Rightarrow> string option \<Rightarrow> string option \<Rightarrow> source" where
  "encode_chunks chunks mode transfer_type =
     (case normalize_mode mode of
        Inl e \<Rightarrow> ([], Some e)
      | Inr normalized \<Rightarrow>
          if normalized = MODE_STREAM then chunks
          else if normalized = MODE_BLOCK then batch_wire (block_encode chunks)
          else batch_wire (compressed_encode chunks transfer_type))"

definition decode_chunks :: "source \<Rightarrow> string option \<Rightarrow> string option \<Rightarrow> source" where
  "decode_chunks chunks mode transfer_type =
     (case normalize_mode mode of
        Inl e \<Rightarrow> ([], Some e)
      | Inr normalized \<Rightarrow>
          if normalized = MODE_STREAM then chunks
          else if normalized = MODE_BLOCK then block_decode chunks
          else compressed_decode chunks transfer_type)"

section \<open>Decoding a byte string\<close>

text \<open>
  The two wire formats as functions of the whole byte string, without buffers or chunks: the pieces
  decoded, and whether the string is a complete well-formed encoding.
\<close>

function block_spec :: "bytes \<Rightarrow> bytes list \<times> bool" where
  "block_spec w =
     (if length w < 3 then ([], False)
      else
        let count = nat (be_int (take 2 (drop 1 w))); body = drop 3 w in
        if length body < count then ([], False)
        else if w ! 0 AND BLOCK_FLAG_EOF \<noteq> 0 then ([take count body], drop count body = [])
        else (case block_spec (drop count body) of (ys, ok) \<Rightarrow> (take count body # ys, ok)))"
  by pat_completeness auto
termination by (relation "measure length") auto

declare block_spec.simps [simp del]

function compressed_spec :: "byte \<Rightarrow> bytes \<Rightarrow> bytes list \<times> bool" where
  "compressed_spec filler w =
     (case w of
        [] \<Rightarrow> ([], False)
      | header # w1 \<Rightarrow>
          if header AND 0x80 = 0 then
            let count = unat (header AND 0x7F) in
            if count = 0 then
              (case w1 of
                 [] \<Rightarrow> ([], False)
               | d # w2 \<Rightarrow>
                   if d = 0 \<or> d AND 0x0F \<noteq> 0 then ([], False)
                   else if d AND BLOCK_FLAG_EOF \<noteq> 0 then ([], w2 = [])
                   else compressed_spec filler w2)
            else if length w1 < count then ([], False)
            else (case compressed_spec filler (drop count w1) of (ys, ok) \<Rightarrow> (take count w1 # ys, ok))
          else
            let count = unat (header AND 0x3F) in
            if count = 0 then ([], False)
            else if header AND 0x40 \<noteq> 0 then
              (case compressed_spec filler w1 of (ys, ok) \<Rightarrow> (replicate count filler # ys, ok))
            else (case w1 of
                    [] \<Rightarrow> ([], False)
                  | d # w2 \<Rightarrow> (case compressed_spec filler w2 of (ys, ok) \<Rightarrow> (replicate count d # ys, ok))))"
  by pat_completeness auto
termination by (relation "measure (\<lambda>(f, w). length w)") auto

declare compressed_spec.simps [simp del]

text \<open>Fetching from a source that does not raise, in terms of all the bytes still to come.\<close>

lemma fill_total:
  "\<exists>b c. fill n buf (cs, None) = Inr (n \<le> length (buf @ concat cs), b, c)
    \<and> b @ concat c = buf @ concat cs \<and> (n \<le> length (buf @ concat cs) \<longrightarrow> n \<le> length b)
    \<and> set c \<subseteq> set cs"
proof -
  obtain ok b c where p: "pull n buf cs = (ok, b, c)" by (metis prod_cases3)
  from pull_ok_iff [OF p] have ok: "ok = (n \<le> length (buf @ concat cs))" by simp
  have "fill n buf (cs, None) = Inr (ok, b, c)" by (simp add: fill_def p)
  then show ?thesis
    using pull_concat [OF p] pull_enough [of n buf cs b c] pull_suffix [OF p] p ok by auto
qed

lemma nth_append_take: "n \<le> length b \<Longrightarrow> b @ r = w \<Longrightarrow> take n b = take n w \<and> drop n b @ r = drop n w"
  by auto

lemma block_decode_spec:
  assumes "[] \<notin> set cs"
  shows "fst (block_decode_from buf (cs, None)) = fst (block_spec (buf @ concat cs))
    \<and> (snd (block_decode_from buf (cs, None)) = None \<longleftrightarrow> snd (block_spec (buf @ concat cs)))"
  using assms
proof (induction "length buf + length (concat cs)" arbitrary: buf cs rule: less_induct)
  case less
  define w where "w = buf @ concat cs"
  obtain b1 c1 where f1: "fill 3 buf (cs, None) = Inr (3 \<le> length w, b1, c1)"
    and e1: "b1 @ concat c1 = w" and l1: "3 \<le> length w \<Longrightarrow> 3 \<le> length b1" and s1: "set c1 \<subseteq> set cs"
    using fill_total [of 3 buf cs] unfolding w_def by blast
  have "fst (block_decode_from buf (cs, None)) = fst (block_spec w)
    \<and> (snd (block_decode_from buf (cs, None)) = None \<longleftrightarrow> snd (block_spec w))"
  proof (cases "3 \<le> length w")
    case False
    with f1 show ?thesis
      by (subst (1 2) block_decode_from.simps, subst (1 2) block_spec.simps) simp
  next
    case True
    note l1 = l1 [OF True]
    have hd1: "b1 ! 0 = w ! 0" "take 2 (drop (Suc 0) b1) = take 2 (drop (Suc 0) w)" "drop 3 b1 @ concat c1 = drop 3 w"
      using l1 by (auto simp flip: e1 simp add: nth_append)
    define n where "n = nat (be_int (take 2 (drop (Suc 0) w)))"
    obtain b2 c2 where f2: "fill n (drop 3 b1) (c1, None) = Inr (n \<le> length (drop 3 w), b2, c2)"
      and e2: "b2 @ concat c2 = drop 3 w" and l2: "n \<le> length (drop 3 w) \<Longrightarrow> n \<le> length b2"
      and s2: "set c2 \<subseteq> set c1"
      using fill_total [of n "drop 3 b1" c1] unfolding hd1(3) by blast
    show ?thesis
    proof (cases "n \<le> length (drop 3 w)")
      case False
      with f1 f2 True hd1 show ?thesis
        by (subst (1 2) block_decode_from.simps, subst (1 2) block_spec.simps) (simp add: n_def Let_def)
    next
      case n: True
      note l2 = l2 [OF n]
      have t: "take n b2 = take n (drop 3 w)" "drop n b2 @ concat c2 = drop n (drop 3 w)"
        using nth_append_take [OF l2 e2] by simp_all
      have ne: "[] \<notin> set c2" using less.prems s1 s2 by blast
      have dn: "block_decode_from buf (cs, None) = emit (take n (drop 3 w))
         (if w ! 0 AND BLOCK_FLAG_EOF \<noteq> 0 then
            (if drop n b2 \<noteq> [] then ([], Some (mode_error ''Data received after EOF block''))
             else case c2 of [] \<Rightarrow> ([], None)
               | extra # _ \<Rightarrow> ([], Some (mode_error (''Data received after EOF block (''
                             @ show_nat (length extra) @ '' bytes)''))))
          else block_decode_from (drop n b2) (c2, None))"
        using f1 f2 True n hd1 t
        by (subst block_decode_from.simps) (simp add: n_def [symmetric] Let_def snd_conv split: list.split)
      have sp: "block_spec w = (take n (drop 3 w) # (if w ! 0 AND BLOCK_FLAG_EOF \<noteq> 0 then []
            else fst (block_spec (drop n (drop 3 w)))),
          if w ! 0 AND BLOCK_FLAG_EOF \<noteq> 0 then drop n (drop 3 w) = [] else snd (block_spec (drop n (drop 3 w))))"
        using True n by (subst block_spec.simps) (simp add: n_def [symmetric] Let_def split: prod.splits)
      have "length (drop n b2) + length (concat c2) < length buf + length (concat cs)"
        using arg_cong [OF t(2), of length] True arg_cong [OF w_def, of length] by simp
      from less.hyps [OF this ne] have IH: "fst (block_decode_from (drop n b2) (c2, None)) = fst (block_spec (drop n (drop 3 w)))"
        "snd (block_decode_from (drop n b2) (c2, None)) = None \<longleftrightarrow> snd (block_spec (drop n (drop 3 w)))"
        unfolding t(2) by simp_all
      have fin: "drop n (drop 3 w) = [] \<longleftrightarrow> drop n b2 = [] \<and> c2 = []"
        unfolding t(2) [symmetric] append_is_Nil_conv using ne by (cases c2) (simp_all only: concat.simps append_is_Nil_conv, auto)
      show ?thesis
      proof (cases "w ! 0 AND BLOCK_FLAG_EOF \<noteq> 0")
        case True
        then show ?thesis unfolding dn sp using fin by (simp split: list.splits)
      next
        case False
        with IH show ?thesis unfolding dn sp by simp
      qed
    qed
  qed
  then show ?case by (simp add: w_def)
qed

text \<open>The same for compressed mode, where even the pieces and the empty chunks do not matter.\<close>

lemma fill_one:
  "\<exists>b c. fill 1 buf (cs, None) = Inr (buf @ concat cs \<noteq> [], b, c) \<and> b @ concat c = buf @ concat cs
    \<and> (buf @ concat cs \<noteq> [] \<longrightarrow> b ! 0 = hd (buf @ concat cs) \<and> b \<noteq> [] \<and> drop 1 b @ concat c = tl (buf @ concat cs))"
proof -
  obtain b c where f: "fill 1 buf (cs, None) = Inr (1 \<le> length (buf @ concat cs), b, c)"
    "b @ concat c = buf @ concat cs" "1 \<le> length (buf @ concat cs) \<longrightarrow> 1 \<le> length b"
    using fill_total [of 1 buf cs] by blast
  have "(1 \<le> length (buf @ concat cs)) = (buf @ concat cs \<noteq> [])" by (simp add: Suc_le_eq)
  with f show ?thesis by (cases b) (auto simp flip: f(2))
qed

lemma compressed_decode_spec:
  "fst (compressed_decode_from filler buf (cs, None)) = fst (compressed_spec filler (buf @ concat cs))
    \<and> (snd (compressed_decode_from filler buf (cs, None)) = None \<longleftrightarrow> snd (compressed_spec filler (buf @ concat cs)))"
proof (induction "length (buf @ concat cs)" arbitrary: buf cs rule: less_induct)
  case less
  define w where "w = buf @ concat cs"
  have IH: "fst (compressed_decode_from filler b (c, None)) = fst (compressed_spec filler v)
      \<and> (snd (compressed_decode_from filler b (c, None)) = None \<longleftrightarrow> snd (compressed_spec filler v))"
    if "b @ concat c = v" "length v < length w" for b c v
    using less [of b c] that unfolding w_def by blast
  obtain b1 c1 where f1: "fill 1 buf (cs, None) = Inr (w \<noteq> [], b1, c1)"
    and w1: "w \<noteq> [] \<Longrightarrow> b1 ! 0 = hd w \<and> drop 1 b1 @ concat c1 = tl w"
    using fill_one [of buf cs] unfolding w_def by blast
  have "fst (compressed_decode_from filler buf (cs, None)) = fst (compressed_spec filler w)
    \<and> (snd (compressed_decode_from filler buf (cs, None)) = None \<longleftrightarrow> snd (compressed_spec filler w))"
  proof (cases w)
    case Nil
    with f1 show ?thesis by (simp add: compressed_decode_from.simps [of filler buf] compressed_spec.simps)
  next
    case (Cons h t)
    with w1 have h: "b1 ! 0 = h" and t: "drop 1 b1 @ concat c1 = t" by simp_all
    obtain b2 c2 where f2: "fill 1 (drop 1 b1) (c1, None) = Inr (t \<noteq> [], b2, c2)"
      and w2: "t \<noteq> [] \<Longrightarrow> b2 ! 0 = hd t \<and> drop 1 b2 @ concat c2 = tl t"
      using fill_one [of "drop 1 b1" c1] unfolding t by blast
    obtain b3 c3 where f3: "fill 1 (drop 1 b2) (c2, None) = Inr (drop 1 b2 @ concat c2 \<noteq> [], b3, c3)"
      using fill_one [of "drop 1 b2" c2] by blast
    define n where "n = unat (h AND 0x7F)"
    obtain b4 c4 where f4: "fill n (drop 1 b1) (c1, None) = Inr (n \<le> length t, b4, c4)"
      and w4: "n \<le> length t \<Longrightarrow> take n b4 = take n t \<and> drop n b4 @ concat c4 = drop n t"
      using fill_total [of n "drop 1 b1" c1] nth_append_take unfolding t by metis
    note unf = compressed_decode_from.simps [of filler buf] compressed_spec.simps [of filler "h # v" for v]
    show ?thesis
    proof (cases "h AND 0x80 = 0")
      case lit: True
      show ?thesis
      proof (cases "n = 0")
        case True
        show ?thesis
        proof (cases t)
          case Nil
          with f1 f2 h lit True Cons show ?thesis by (simp add: unf n_def Let_def)
        next
          case (Cons d u)
          then have d: "b2 ! 0 = d" "drop 1 b2 @ concat c2 = u" using w2 by simp_all
          have "length u < length w" using \<open>w = h # t\<close> Cons by simp
          from IH [OF d(2) this] f1 f2 f3 h lit True Cons \<open>w = h # t\<close> d show ?thesis
            by (auto simp: unf n_def [symmetric] Let_def)
        qed
      next
        case n: False
        show ?thesis
        proof (cases "n \<le> length t")
          case True
          have "length (drop n t) < length w" using Cons by simp
          from IH [OF conjunct2 [OF w4 [OF True]] this] f1 f4 h lit n True w4 Cons show ?thesis
            by (simp add: unf n_def [symmetric] Let_def split: prod.splits)
        next
          case False
          with f1 f4 h lit n Cons show ?thesis by (simp add: unf n_def [symmetric] Let_def)
        qed
      qed
    next
      case run: False
      have lt: "length t < length w" using Cons by simp
      show ?thesis
      proof (cases "h AND 0x40 = 0")
        case False
        with IH [OF t lt] f1 h run Cons show ?thesis
          by (simp add: unf Let_def split: prod.splits)
      next
        case True
        show ?thesis
        proof (cases t)
          case Nil
          with f1 f2 h run True Cons show ?thesis by (simp add: unf Let_def)
        next
          case (Cons d u)
          then have d: "b2 ! 0 = d" "drop 1 b2 @ concat c2 = u" using w2 by simp_all
          have "length u < length w" using \<open>w = h # t\<close> Cons by simp
          from IH [OF d(2) this] f1 f2 h run True Cons \<open>w = h # t\<close> d show ?thesis
            by (simp add: unf Let_def split: prod.splits)
        qed
      qed
    qed
  qed
  then show ?case by (simp add: w_def)
qed

section \<open>What the encoders produce\<close>

text \<open>A sequence of block frames for given data: all but the last without the EOF bit.\<close>

inductive block_frames :: "bytes list \<Rightarrow> bytes \<Rightarrow> bool" where
  last_frame: "block_packet d True = Inr p \<Longrightarrow> block_frames [p] d"
| more_frames: "block_packet d False = Inr p \<Longrightarrow> block_frames ps d' \<Longrightarrow> block_frames (p # ps) (d @ d')"

lemma block_packet_Inr: "block_packet d eof = Inr p \<longleftrightarrow>
    length d \<le> 0xFFFF \<and> p = (if eof then BLOCK_FLAG_EOF else 0) # be_bytes 2 (int (length d)) @ d"
  by (auto simp: block_packet_def pack_be_def simp del: be_bytes.simps)

lemma block_encode_frames:
  assumes "1 \<le> n" and "n \<le> 0xFFFF"
  shows "\<exists>ps. block_encode_from n buf (cs, None) = (ps, None) \<and> block_frames ps (buf @ concat cs)"
proof (induction "length (buf @ concat cs)" arbitrary: buf cs rule: less_induct)
  case less
  define w where "w = buf @ concat cs"
  obtain b c where f: "fill (n + 1) buf (cs, None) = Inr (n + 1 \<le> length w, b, c)" and e: "b @ concat c = w"
    and l: "n + 1 \<le> length w \<Longrightarrow> n + 1 \<le> length b"
    using fill_total [of "n + 1" buf cs] unfolding w_def by blast
  note unf = block_encode_from.simps [of n buf "(cs, None)"]
  show ?case
  proof (cases "n + 1 \<le> length w")
    case False
    with f have "b = w" using pull_short [OF fill_Inr [OF f [simplified False]]] e by auto
    with False assms have "\<exists>p. block_packet b True = Inr p" by (auto simp: block_packet_Inr)
    then obtain p where p: "block_packet b True = Inr p" by blast
    with f False assms have "block_encode_from n buf (cs, None) = ([p], None)" by (simp add: unf)
    with last_frame [OF p] \<open>b = w\<close> show ?thesis unfolding w_def [symmetric] by simp
  next
    case True
    have tk: "take n b = take n w" "drop n b @ concat c = drop n w"
      using nth_append_take [OF _ e, of n] l [OF True] by simp_all
    have "length (drop n b @ concat c) < length (buf @ concat cs)"
      using tk(2) True assms(1) unfolding w_def [symmetric] by simp
    from less [OF this] obtain ps where ps: "block_encode_from n (drop n b) (c, None) = (ps, None)"
      "block_frames ps (drop n w)" unfolding tk(2) by blast
    obtain p where p: "block_packet (take n w) False = Inr p"
      using assms by (auto simp: block_packet_Inr)
    have "block_encode_from n buf (cs, None) = (p # ps, None)"
      using f True assms p ps tk by (simp add: unf emit_def)
    moreover have "block_frames (p # ps) w" using more_frames [OF p ps(2)] by simp
    ultimately show ?thesis unfolding w_def [symmetric] by blast
  qed
qed

lemma block_spec_packet:
  assumes "block_packet d eof = Inr p"
  shows "block_spec (p @ w) = (if eof then ([d], w = []) else (d # fst (block_spec w), snd (block_spec w)))"
proof -
  from assms have p: "p = (if eof then BLOCK_FLAG_EOF else 0) # be_bytes 2 (int (length d)) @ d"
    and d: "int (length d) < 256 ^ 2" by (auto simp: block_packet_Inr)
  have n: "nat (be_int (be_bytes 2 (int (length d)))) = length d" using d by (simp add: be_int_be_bytes)
  have "(BLOCK_FLAG_EOF AND BLOCK_FLAG_EOF :: byte) \<noteq> 0" "(0 :: byte) AND BLOCK_FLAG_EOF = 0"
    by (simp_all add: BLOCK_FLAG_EOF_def)
  then show ?thesis
    by (subst block_spec.simps) (simp add: p n Let_def split: prod.splits del: be_bytes.simps)
qed

lemma block_frames_spec: "block_frames ps d \<Longrightarrow> \<exists>ys. block_spec (concat ps) = (ys, True) \<and> concat ys = d"
proof (induction rule: block_frames.induct)
  case (last_frame d p)
  from block_spec_packet [OF this, of "[]"] show ?case by simp
next
  case (more_frames d p ps d')
  then show ?case using block_spec_packet [OF more_frames.hyps(1), of "concat ps"] by auto
qed

text \<open>The primitives of compressed mode and the bytes they stand for.\<close>

inductive primitive :: "byte \<Rightarrow> bytes \<Rightarrow> bytes \<Rightarrow> bool" for filler where
  literal: "1 \<le> length v \<Longrightarrow> length v \<le> COMPRESSED_MAX_LITERAL \<Longrightarrow>
     primitive filler (word_of_nat (length v) # v) v"
| repeated: "2 \<le> n \<Longrightarrow> n \<le> COMPRESSED_MAX_RUN \<Longrightarrow>
     primitive filler [0x80 OR word_of_nat n, b] (replicate n b)"
| filling: "2 \<le> n \<Longrightarrow> n \<le> COMPRESSED_MAX_RUN \<Longrightarrow>
     primitive filler [0xC0 OR word_of_nat n] (replicate n filler)"

lemma run_headers:
  "list_all (\<lambda>n. (0xC0 OR (word_of_nat n :: byte)) AND 0x80 \<noteq> 0 \<and> (0xC0 OR (word_of_nat n :: byte)) AND 0x40 \<noteq> 0
     \<and> unat ((0xC0 OR (word_of_nat n :: byte)) AND 0x3F) = n
     \<and> (0x80 OR (word_of_nat n :: byte)) AND 0x80 \<noteq> 0 \<and> (0x80 OR (word_of_nat n :: byte)) AND 0x40 = 0
     \<and> unat ((0x80 OR (word_of_nat n :: byte)) AND 0x3F) = n) [0..<64]"
  by code_simp

lemma literal_headers:
  "list_all (\<lambda>n. (word_of_nat n :: byte) AND 0x80 = 0 \<and> unat ((word_of_nat n :: byte) AND 0x7F) = n) [0..<128]"
  by code_simp

lemma run_header:
  assumes "n \<le> COMPRESSED_MAX_RUN"
  shows "(0xC0 OR (word_of_nat n :: byte)) AND 0x80 \<noteq> 0" "(0xC0 OR (word_of_nat n :: byte)) AND 0x40 \<noteq> 0"
    "unat ((0xC0 OR (word_of_nat n :: byte)) AND 0x3F) = n"
    "(0x80 OR (word_of_nat n :: byte)) AND 0x80 \<noteq> 0" "(0x80 OR (word_of_nat n :: byte)) AND 0x40 = 0"
    "unat ((0x80 OR (word_of_nat n :: byte)) AND 0x3F) = n"
proof -
  have "n \<in> set [0..<64]" using assms by (simp add: COMPRESSED_MAX_RUN_def)
  with run_headers show "(0xC0 OR (word_of_nat n :: byte)) AND 0x80 \<noteq> 0" "(0xC0 OR (word_of_nat n :: byte)) AND 0x40 \<noteq> 0"
    "unat ((0xC0 OR (word_of_nat n :: byte)) AND 0x3F) = n"
    "(0x80 OR (word_of_nat n :: byte)) AND 0x80 \<noteq> 0" "(0x80 OR (word_of_nat n :: byte)) AND 0x40 = 0"
    "unat ((0x80 OR (word_of_nat n :: byte)) AND 0x3F) = n"
    unfolding list_all_iff by blast+
qed

lemma literal_header:
  assumes "n \<le> COMPRESSED_MAX_LITERAL"
  shows "(word_of_nat n :: byte) AND 0x80 = 0" "unat ((word_of_nat n :: byte) AND 0x7F) = n"
proof -
  have "n \<in> set [0..<128]" using assms by (simp add: COMPRESSED_MAX_LITERAL_def)
  with literal_headers show "(word_of_nat n :: byte) AND 0x80 = 0" "unat ((word_of_nat n :: byte) AND 0x7F) = n"
    unfolding list_all_iff by blast+
qed

lemma compressed_spec_primitive:
  assumes "primitive filler p v"
  shows "compressed_spec filler (p @ w) = (v # fst (compressed_spec filler w), snd (compressed_spec filler w))"
  using assms
proof cases
  case literal
  then have "v \<noteq> []" by auto
  with literal literal_header [of "length v"] show ?thesis
    by (subst compressed_spec.simps) (simp add: Let_def split: prod.splits)
next
  case (repeated n b)
  with run_header [of n] show ?thesis
    by (subst compressed_spec.simps) (simp add: Let_def split: prod.splits)
next
  case (filling n)
  with run_header [of n] show ?thesis
    by (subst compressed_spec.simps) (simp add: Let_def split: prod.splits)
qed

lemma compressed_spec_eof: "compressed_spec filler [0, BLOCK_FLAG_EOF] = ([], True)"
  by (subst compressed_spec.simps) (simp add: BLOCK_FLAG_EOF_def)

text \<open>A turn of the encoder takes the value of the primitive it yields off the input.\<close>

lemma compressed_turn_primitive:
  assumes "compressed_turn filler buffer src = Inr (Some (p, buf, cs'))"
  shows "\<exists>v. primitive filler p v \<and> v @ buf @ concat cs' = buffer @ concat (fst src)"
proof -
  obtain v where v: "1 \<le> length v" "v @ buf @ concat cs' = buffer @ concat (fst src)"
    and c: "(\<exists>n b. 2 \<le> n \<and> n \<le> COMPRESSED_MAX_RUN \<and> v = replicate n b
          \<and> p = (if b = filler then [0xC0 OR word_of_nat n] else [0x80 OR word_of_nat n, b]))
       \<or> (length v \<le> COMPRESSED_MAX_LITERAL \<and> p = word_of_nat (length v) # v)"
    using compressed_turn_cases [OF assms] by blast
  from c have "primitive filler p v"
  proof (elim disjE exE conjE)
    fix n b assume n: "2 \<le> n" "n \<le> COMPRESSED_MAX_RUN" and v: "v = replicate n b"
      and p: "p = (if b = filler then [0xC0 OR word_of_nat n] else [0x80 OR word_of_nat n, b])"
    show ?thesis unfolding v p using filling [OF n] repeated [OF n] by (cases "b = filler") (simp_all only: if_True if_False simp_thms)
  next
    assume "length v \<le> COMPRESSED_MAX_LITERAL" "p = word_of_nat (length v) # v"
    with literal [OF v(1)] show ?thesis by simp
  qed
  with v(2) show ?thesis by blast
qed

inductive primitives :: "byte \<Rightarrow> bytes list \<Rightarrow> bytes \<Rightarrow> bool" for filler where
  no_more: "primitives filler [[0, BLOCK_FLAG_EOF]] []"
| one_more: "primitive filler p v \<Longrightarrow> primitives filler ps d \<Longrightarrow> primitives filler (p # ps) (v @ d)"

lemma compressed_encode_primitives:
  "\<exists>ps. compressed_encode_from filler buf (cs, None) = (ps, None) \<and> primitives filler ps (buf @ concat cs)"
proof (induction "length (buf @ concat cs)" arbitrary: buf cs rule: less_induct)
  case less
  have noerr: "compressed_turn filler buf (cs, None) \<noteq> Inl e" for e
    by (auto simp: compressed_turn_def compressed_run_def fill_def Let_def split: prod.splits)
  then obtain t where t: "compressed_turn filler buf (cs, None) = Inr t"
    by (cases "compressed_turn filler buf (cs, None)") auto
  show ?case
  proof (cases t)
    case None
    with t have "fill 1 buf (cs, None) = Inr (False, snd (projr (fill 1 buf (cs, None))))"
      by (auto simp: compressed_turn_def Let_def split: sum.splits if_splits)
    with fill_one [of buf cs] have "buf @ concat cs = []" by auto
    moreover have "compressed_encode_from filler buf (cs, None) = ([[0, BLOCK_FLAG_EOF]], None)"
      using t None by (simp add: compressed_encode_from.simps [of filler buf])
    ultimately show ?thesis using no_more by metis
  next
    case (Some x)
    obtain p b c where x: "x = (p, b, c)" by (metis prod_cases3)
    from compressed_turn_primitive [OF t [unfolded Some x]] obtain v where
      v: "primitive filler p v" "v @ b @ concat c = buf @ concat cs" by auto
    have "length (b @ concat c) < length (buf @ concat cs)"
      using compressed_turn_progress [OF t [unfolded Some x]] by simp
    from less [OF this] obtain ps where ps: "compressed_encode_from filler b (c, None) = (ps, None)"
      "primitives filler ps (b @ concat c)" by blast
    have "compressed_encode_from filler buf (cs, None) = (p # ps, None)"
      using t Some x ps by (simp add: compressed_encode_from.simps [of filler buf] emit_def)
    with one_more [OF v(1) ps(2)] v(2) show ?thesis by auto
  qed
qed

lemma primitives_spec:
  "primitives filler ps d \<Longrightarrow> \<exists>ys. compressed_spec filler (concat ps) = (ys, True) \<and> concat ys = d"
proof (induction rule: primitives.induct)
  case no_more
  show ?case by (simp add: compressed_spec_eof)
next
  case (one_more p v ps d)
  then show ?case using compressed_spec_primitive [OF one_more.hyps(1), of "concat ps"] by auto
qed

section \<open>Failures\<close>

text \<open>A source that raises makes every codec raise: no failure is turned into a short success.\<close>

lemma fill_error: "fill n buf (cs, Some e) = Inr (ok, b, c) \<Longrightarrow> ok"
  by (auto simp: fill_def split: prod.splits if_splits)

lemma block_encode_error:
  "1 \<le> n \<Longrightarrow> n \<le> 0xFFFF \<Longrightarrow> snd (block_encode_from n buf (cs, Some e)) = Some e"
proof (induction "length (buf @ concat cs)" arbitrary: buf cs rule: less_induct)
  case less
  note unf = block_encode_from.simps [of n buf "(cs, Some e)"]
  show ?case
  proof (cases "fill (n + 1) buf (cs, Some e)")
    case (Inl x)
    then have "x = e" by (auto simp: fill_def split: prod.splits if_splits)
    with Inl less.prems show ?thesis by (simp add: unf)
  next
    case (Inr t)
    obtain ok b c where t: "t = (ok, b, c)" by (metis prod_cases3)
    with fill_error Inr have ok: "ok" by blast
    with fill_progress [of "n + 1"] Inr t have l: "length b + length (concat c) = length buf + length (concat cs)"
      "n + 1 \<le> length b" by fastforce+
    obtain p where p: "block_packet (take n b) False = Inr p" using less.prems by (auto simp: block_packet_Inr)
    have "length (drop n b @ concat c) < length (buf @ concat cs)" using l less.prems by simp
    from less.hyps [OF this less.prems] Inr t ok p less.prems show ?thesis by (simp add: unf)
  qed
qed

lemma compressed_turn_error:
  "compressed_turn filler buf (cs, Some e) = Inl x \<Longrightarrow> x = e"
  "compressed_turn filler buf (cs, Some e) \<noteq> Inr None"
  by (auto simp: compressed_turn_def compressed_run_def fill_def Let_def split: prod.splits if_splits sum.splits)

lemma compressed_encode_error: "snd (compressed_encode_from filler buf (cs, Some e)) = Some e"
proof (induction "length (buf @ concat cs)" arbitrary: buf cs rule: less_induct)
  case less
  note unf = compressed_encode_from.simps [of filler buf "(cs, Some e)"]
  show ?case
  proof (cases "compressed_turn filler buf (cs, Some e)")
    case (Inl x)
    with compressed_turn_error(1) unf show ?thesis by fastforce
  next
    case (Inr t)
    with compressed_turn_error(2) obtain p b c where t: "t = Some (p, b, c)" by (metis option.exhaust prod_cases3)
    with compressed_turn_progress Inr have "length (b @ concat c) < length (buf @ concat cs)" by fastforce
    from less [OF this] Inr t show ?thesis by (simp add: unf)
  qed
qed

lemma block_decode_error: "snd (block_decode_from buf (cs, Some e)) \<noteq> None"
proof (induction "length (buf @ concat cs)" arbitrary: buf cs rule: less_induct)
  case less
  note unf = block_decode_from.simps [of buf "(cs, Some e)"]
  show ?case
  proof (cases "fill 3 buf (cs, Some e)")
    case (Inl x)
    then show ?thesis by (simp add: unf)
  next
    case (Inr t)
    obtain ok b c where t: "t = (ok, b, c)" by (metis prod_cases3)
    with fill_error Inr have ok: "ok" by blast
    with fill_progress [of 3] Inr t have l: "length b + length (concat c) = length buf + length (concat cs)"
      "3 \<le> length b" by fastforce+
    define n where "n = nat (be_int (take 2 (drop (Suc 0) b)))"
    show ?thesis
    proof (cases "fill n (drop 3 b) (c, Some e)")
      case (Inl x)
      with Inr t ok show ?thesis by (simp add: unf n_def Let_def)
    next
      case f2: (Inr t2)
      obtain ok2 b2 c2 where t2: "t2 = (ok2, b2, c2)" by (metis prod_cases3)
      with fill_error f2 have ok2: "ok2" by blast
      with fill_progress [of n] f2 t2 have "length b2 + length (concat c2) = length (drop 3 b) + length (concat c)"
        by fastforce
      with l have "length (drop n b2 @ concat c2) < length (buf @ concat cs)" by simp
      from less [OF this] Inr t ok f2 t2 ok2 show ?thesis
        by (simp add: unf n_def [symmetric] Let_def split: list.splits)
    qed
  qed
qed

lemma compressed_decode_error: "snd (compressed_decode_from filler buf (cs, Some e)) \<noteq> None"
proof (induction "length (buf @ concat cs)" arbitrary: buf cs rule: less_induct)
  case less
  have IH: "\<exists>x. snd (compressed_decode_from filler b (c, Some e)) = Some x"
    if "length b + length (concat c) < length buf + length (concat cs)" for b c
    using less that by fastforce
  note unf = compressed_decode_from.simps [of filler buf "(cs, Some e)"]
  show ?case
  proof (cases "fill 1 buf (cs, Some e)")
    case (Inl x)
    then show ?thesis by (simp add: unf)
  next
    case (Inr t)
    obtain ok b c where t: "t = (ok, b, c)" by (metis prod_cases3)
    with fill_error Inr have ok: "ok" by blast
    with fill_progress [of 1] Inr t have l: "length b + length (concat c) = length buf + length (concat cs)"
      "1 \<le> length b" by fastforce+
    have sub: "\<exists>x. snd (compressed_decode_from filler (drop m b2) (c2, Some e)) = Some x"
      if "fill n (drop 1 b) (c, Some e) = Inr (ok2, b2, c2)" for m n ok2 b2 c2
      using IH [of "drop m b2" c2] fill_progress [OF that] l by fastforce
    have here: "\<exists>x. snd (compressed_decode_from filler (drop 1 b) (c, Some e)) = Some x"
      using IH [of "drop 1 b" c] l by fastforce
    from Inr t ok here sub fill_error show ?thesis
      by (auto simp: unf Let_def split: sum.splits prod.splits if_splits) (fastforce dest: sub)+
  qed
qed

section \<open>Batching\<close>

lemma batch_full_spec:
  "batch_full buf = (ys, rest) \<Longrightarrow> concat ys @ rest = buf \<and> length rest < WIRE_CHUNK_SIZE
     \<and> (\<forall>y\<in>set ys. length y = WIRE_CHUNK_SIZE)"
proof (induction buf arbitrary: ys rest rule: batch_full.induct)
  case (1 buf)
  show ?case
  proof (cases "WIRE_CHUNK_SIZE \<le> length buf")
    case True
    obtain zs r where z: "batch_full (drop WIRE_CHUNK_SIZE buf) = (zs, r)" by (metis surj_pair)
    with 1(2) True have "ys = take WIRE_CHUNK_SIZE buf # zs" "rest = r"
      by (simp_all add: batch_full.simps [of buf])
    with "1.IH" [OF True z] True show ?thesis by auto
  next
    case False
    with 1(2) show ?thesis by (auto simp: batch_full.simps [of buf])
  qed
qed

lemma batch_wire_spec:
  "length buf < WIRE_CHUNK_SIZE \<Longrightarrow>
     snd (batch_wire_from buf ps err) = err
     \<and> (\<forall>y\<in>set (fst (batch_wire_from buf ps err)). y \<noteq> [] \<and> length y \<le> WIRE_CHUNK_SIZE)
     \<and> (err = None \<longrightarrow> concat (fst (batch_wire_from buf ps err)) = buf @ concat ps)"
proof (induction buf ps err rule: batch_wire_from.induct)
  case (3 buf p ps err)
  obtain ys r where y: "batch_full (buf @ p) = (ys, r)" by (metis surj_pair)
  from batch_full_spec [OF y] have s: "concat ys @ r = buf @ p" "length r < WIRE_CHUNK_SIZE"
    "\<forall>y\<in>set ys. length y = WIRE_CHUNK_SIZE" by auto
  have "0 < WIRE_CHUNK_SIZE" by (simp add: WIRE_CHUNK_SIZE_def)
  with "3.IH" [OF y [symmetric] _ s(2)] s y show ?case
    by (auto simp: split_beta Let_def)
qed auto

section \<open>The codec contract\<close>

text \<open>
  What the transfer layer relies on from a framed MODE: the encoder is total and passes failures on,
  the decoder inverts it however the bytes are cut into non-empty chunks, and a source that fails is
  never taken for a complete one.
\<close>

locale frame_codec =
  fixes enc dec :: "source \<Rightarrow> source"
  assumes enc_total: "snd (enc (cs, None)) = None"
    and enc_error: "snd (enc (cs, Some e)) = Some e"
    and dec_enc: "[] \<notin> set ws \<Longrightarrow> concat ws = concat (fst (enc (cs, None))) \<Longrightarrow>
        snd (dec (ws, None)) = None \<and> concat (fst (dec (ws, None))) = concat cs"
    and dec_error: "snd (dec (ws, Some e)) \<noteq> None"
begin

lemma batched_total: "snd (batch_wire (enc (cs, None))) = None"
  using batch_wire_spec [of "[]"] enc_total [of cs] by (simp add: batch_wire_def WIRE_CHUNK_SIZE_def)

lemma batched_bounds: "y \<in> set (fst (batch_wire (enc src))) \<Longrightarrow> y \<noteq> [] \<and> length y \<le> WIRE_CHUNK_SIZE"
  using batch_wire_spec [of "[]" "fst (enc src)" "snd (enc src)"]
  by (auto simp: batch_wire_def WIRE_CHUNK_SIZE_def)

lemma batched_error: "snd (batch_wire (enc (cs, Some e))) = Some e"
  using batch_wire_spec [of "[]"] enc_error [of cs e] by (simp add: batch_wire_def WIRE_CHUNK_SIZE_def)

lemma batched_concat: "concat (fst (batch_wire (enc (cs, None)))) = concat (fst (enc (cs, None)))"
  using batch_wire_spec [of "[]"] enc_total [of cs] by (simp add: batch_wire_def WIRE_CHUNK_SIZE_def)

lemma batched_roundtrip:
  "[] \<notin> set ws \<Longrightarrow> concat ws = concat (fst (batch_wire (enc (cs, None)))) \<Longrightarrow>
     snd (dec (ws, None)) = None \<and> concat (fst (dec (ws, None))) = concat cs"
  by (rule dec_enc) (simp_all add: batched_concat)

text \<open>Wire chunks delivered complete and in order decode to the data that was encoded.\<close>

lemma delivered_decodes:
  "snd (dec (fst (batch_wire (enc (cs, None))), None)) = None
     \<and> concat (fst (dec (fst (batch_wire (enc (cs, None))), None))) = concat cs"
  using batched_bounds [of "[]" "(cs, None)"] by (intro batched_roundtrip) auto

end

interpretation block_codec: frame_codec block_encode block_decode
proof
  fix cs ws :: "bytes list" and e
  have n: "1 \<le> WIRE_CHUNK_SIZE" "WIRE_CHUNK_SIZE \<le> 0xFFFF" by (simp_all add: WIRE_CHUNK_SIZE_def)
  obtain ps where ps: "block_encode (cs, None) = (ps, None)" "block_frames ps (concat cs)"
    using block_encode_frames [OF n, of "[]" cs] by (auto simp: block_encode_def)
  show "snd (block_encode (cs, None)) = None" by (simp add: ps)
  show "snd (block_encode (cs, Some e)) = Some e" by (simp add: block_encode_def block_encode_error [OF n])
  show "snd (block_decode (ws, Some e)) \<noteq> None" by (simp add: block_decode_def block_decode_error)
  assume ws: "[] \<notin> set ws" "concat ws = concat (fst (block_encode (cs, None)))"
  obtain ys where "block_spec (concat ps) = (ys, True)" "concat ys = concat cs"
    using block_frames_spec [OF ps(2)] by blast
  with block_decode_spec [OF ws(1), of "[]"] ws(2) ps(1)
  show "snd (block_decode (ws, None)) = None \<and> concat (fst (block_decode (ws, None))) = concat cs"
    by (simp add: block_decode_def)
qed

lemma compressed_contract:
  "frame_codec (compressed_encode_from filler []) (compressed_decode_from filler [])"
proof
  fix cs ws :: "bytes list" and e
  obtain ps where ps: "compressed_encode_from filler [] (cs, None) = (ps, None)" "primitives filler ps (concat cs)"
    using compressed_encode_primitives [of filler "[]" cs] by auto
  show "snd (compressed_encode_from filler [] (cs, None)) = None" by (simp add: ps)
  show "snd (compressed_encode_from filler [] (cs, Some e)) = Some e" by (rule compressed_encode_error)
  show "snd (compressed_decode_from filler [] (ws, Some e)) \<noteq> None" by (rule compressed_decode_error)
  assume "concat ws = concat (fst (compressed_encode_from filler [] (cs, None)))"
  with primitives_spec [OF ps(2)] compressed_decode_spec [of filler "[]" ws] ps(1)
  show "snd (compressed_decode_from filler [] (ws, None)) = None
      \<and> concat (fst (compressed_decode_from filler [] (ws, None))) = concat cs" by auto
qed

interpretation compressed_codec: frame_codec "compressed_encode_from filler []" "compressed_decode_from filler []"
  for filler
  by (rule compressed_contract)

section \<open>The dispatchers\<close>

text \<open>An accepted MODE and TYPE, as both ends of a transfer name them.\<close>

definition accepted :: "string option \<Rightarrow> string option \<Rightarrow> bool" where
  "accepted mode typ \<longleftrightarrow> \<not> isl (normalize_mode mode) \<and> \<not> isl (normalize_transfer_type typ)"

lemma accepted_cases:
  assumes "accepted mode typ"
  obtains (stream) "\<And>c. encode_chunks c mode typ = c" "\<And>c. decode_chunks c mode typ = c"
      "normalize_mode mode = Inr MODE_STREAM"
  | (block) "\<And>c. encode_chunks c mode typ = batch_wire (block_encode c)" "\<And>c. decode_chunks c mode typ = block_decode c"
  | (compressed) filler where
      "\<And>c. encode_chunks c mode typ = batch_wire (compressed_encode_from filler [] c)"
      "\<And>c. decode_chunks c mode typ = compressed_decode_from filler [] c"
proof -
  obtain m where m: "normalize_mode mode = Inr m"
    using assms by (cases "normalize_mode mode") (auto simp: accepted_def)
  obtain t where t: "normalize_transfer_type typ = Inr t"
    using assms by (cases "normalize_transfer_type typ") (auto simp: accepted_def)
  let ?f = "if t = ''A'' then 0x20 else 0x00 :: byte"
  have f: "compressed_filler_byte typ = Inr ?f" using t by (simp add: compressed_filler_byte_def)
  consider "m = MODE_STREAM" | "m \<noteq> MODE_STREAM" "m = MODE_BLOCK" | "m \<noteq> MODE_STREAM" "m \<noteq> MODE_BLOCK"
    by blast
  then show thesis
  proof cases
    case 1
    with m show ?thesis by (intro stream) (simp_all add: encode_chunks_def decode_chunks_def)
  next
    case 2
    with m show ?thesis by (intro block) (simp_all add: encode_chunks_def decode_chunks_def)
  next
    case 3
    with m f show ?thesis
      by (intro compressed [of ?f])
        (simp_all add: encode_chunks_def decode_chunks_def compressed_encode_def compressed_decode_def)
  qed
qed

lemma dispatch_roundtrip:
  assumes "accepted mode typ" and "[] \<notin> set ws"
    and "concat ws = concat (fst (encode_chunks (cs, None) mode typ))"
  shows "snd (decode_chunks (ws, None) mode typ) = None \<and> concat (fst (decode_chunks (ws, None) mode typ)) = concat cs"
  using assms(1)
proof (cases rule: accepted_cases)
  case stream
  with assms(3) show ?thesis by simp
next
  case block
  with block_codec.batched_roundtrip assms(2,3) show ?thesis by simp
next
  case (compressed filler)
  with compressed_codec.batched_roundtrip assms(2,3) show ?thesis by simp
qed

text \<open>What the receiver yields for these chunks: a single empty chunk when there is none.\<close>

lemma dispatch_delivered:
  assumes "accepted mode typ" and "encode_chunks (cs, None) mode typ = (ws, None)"
  shows "snd (decode_chunks (if ws = [] then [[]] else ws, None) mode typ) = None
    \<and> concat (fst (decode_chunks (if ws = [] then [[]] else ws, None) mode typ)) = concat cs"
  using assms(1)
proof (cases rule: accepted_cases)
  case stream
  with assms(2) show ?thesis by simp
next
  case block
  obtain ps where ps: "block_encode (cs, None) = (ps, None)" "block_frames ps (concat cs)"
    using block_encode_frames [of WIRE_CHUNK_SIZE "[]" cs] by (auto simp: block_encode_def WIRE_CHUNK_SIZE_def)
  have "concat ps \<noteq> []" using ps(2) by cases (auto simp: block_packet_Inr)
  moreover have "concat ws = concat ps" using block_codec.batched_concat [of cs] assms(2) block(1) ps(1) by simp
  ultimately have "ws \<noteq> []" by auto
  with block_codec.delivered_decodes [of cs] assms(2) block show ?thesis by simp
next
  case (compressed filler)
  obtain ps where ps: "compressed_encode_from filler [] (cs, None) = (ps, None)" "primitives filler ps (concat cs)"
    using compressed_encode_primitives [of filler "[]" cs] by auto
  have "concat ps \<noteq> []" using ps(2) by cases (auto elim: primitive.cases)
  moreover have "concat ws = concat ps"
    using compressed_codec.batched_concat [of filler cs] assms(2) compressed(1) ps(1) by simp
  ultimately have "ws \<noteq> []" by auto
  with compressed_codec.delivered_decodes [of filler cs] assms(2) compressed show ?thesis by simp
qed

lemma dispatch_total: "accepted mode typ \<Longrightarrow> snd (encode_chunks (cs, None) mode typ) = None"
  by (erule accepted_cases) (simp_all add: block_codec.batched_total compressed_codec.batched_total)

lemma dispatch_bounds:
  assumes "accepted mode typ" and "\<forall>c\<in>set (fst src). length c \<le> WIRE_CHUNK_SIZE"
    and "y \<in> set (fst (encode_chunks src mode typ))"
  shows "length y \<le> WIRE_CHUNK_SIZE"
  using assms(1)
proof (cases rule: accepted_cases)
  case block
  with assms(3) block_codec.batched_bounds [of y src] show ?thesis by simp
next
  case (compressed filler)
  with assms(3) compressed_codec.batched_bounds [of y filler src] show ?thesis by simp
qed (use assms in simp)

lemma dispatch_error:
  "accepted mode typ \<Longrightarrow> snd (encode_chunks (cs, Some e) mode typ) = Some e
     \<and> snd (decode_chunks (ws, Some e) mode typ) \<noteq> None"
  by (erule accepted_cases)
    (simp_all add: block_codec.batched_error compressed_codec.batched_error block_decode_error
      compressed_decode_error block_decode_def)

section \<open>Properties of the codecs\<close>

text \<open>C8: Round trip of every MODE and TYPE. Encoding never fails on a source that does not, and decoding
  the wire bytes gives back the data, however those bytes are cut into non-empty chunks.\<close>

theorem mode_roundtrip:
  assumes "accepted mode typ" and "[] \<notin> set ws"
    and "concat ws = concat (fst (encode_chunks (cs, None) mode typ))"
  shows "snd (encode_chunks (cs, None) mode typ) = None \<and> snd (decode_chunks (ws, None) mode typ) = None
    \<and> concat (fst (decode_chunks (ws, None) mode typ)) = concat cs"
  using dispatch_roundtrip [OF assms] dispatch_total [OF assms(1)] by simp

lemma sample_compressed:
  "encode_chunks ([[7, 7], [7, 32, 32, 1]], None) (Some ''c'') (Some ''A'') = ([[0x83, 7, 0xC2, 1, 1, 0, 0x40]], None)"
  by code_simp

theorem mode_roundtrip_witness:
  "concat (fst (decode_chunks ([[0x83], [7, 0xC2, 1], [1, 0], [0x40]], None) (Some ''c'') (Some ''A''))) = [7, 7, 7, 32, 32, 1]"
proof -
  have a: "accepted (Some ''c'') (Some ''A'')" by code_simp
  from mode_roundtrip [OF a, of "[[0x83], [7, 0xC2, 1], [1, 0], [0x40]]" "[[7, 7], [7, 32, 32, 1]]"]
  show ?thesis by (simp add: sample_compressed)
qed

text \<open>C13: The streaming block decoder, with its buffer and its source cut into arbitrary non-empty chunks,
  computes the reference decoder of the whole byte string: the same blocks, and success exactly on a
  well-formed encoding that ends with its EOF block.\<close>

theorem block_decoder_correct:
  assumes "[] \<notin> set cs"
  shows "fst (block_decode (cs, None)) = fst (block_spec (concat cs))
    \<and> (snd (block_decode (cs, None)) = None \<longleftrightarrow> snd (block_spec (concat cs)))"
  using block_decode_spec [OF assms, of "[]"] by (simp add: block_decode_def)

theorem block_decoder_correct_witness:
  "fst (block_decode ([[0], [0, 2, 5], [6, 0x40, 0, 1, 7]], None)) = [[5, 6], [7]]
   \<and> snd (block_decode ([[0], [0, 2, 5], [6, 0x40, 0, 1, 7]], None)) = None"
proof -
  have "block_spec [0, 0, 2, 5, 6, 0x40, 0, 1, 7] = ([[5, 6], [7]], True)" by code_simp
  with block_decoder_correct [of "[[0], [0, 2, 5], [6, 0x40, 0, 1, 7]]"] show ?thesis by simp
qed

text \<open>C14: The streaming run-length decoder computes its reference decoder, for every cut of the input, empty
  chunks included.\<close>

theorem compressed_decoder_correct:
  assumes "compressed_filler_byte typ = Inr filler"
  shows "fst (compressed_decode (cs, None) typ) = fst (compressed_spec filler (concat cs))
    \<and> (snd (compressed_decode (cs, None) typ) = None \<longleftrightarrow> snd (compressed_spec filler (concat cs)))"
  using compressed_decode_spec [of filler "[]" cs] assms by (simp add: compressed_decode_def)

theorem compressed_decoder_correct_witness:
  "fst (compressed_decode ([[0x83], [], [7, 0xC2], [0, 0x40]], None) None) = [[7, 7, 7], [0, 0]]
   \<and> snd (compressed_decode ([[0x83], [], [7, 0xC2], [0, 0x40]], None) None) = None"
proof -
  have f: "compressed_filler_byte None = Inr 0" by code_simp
  have "compressed_spec 0 [0x83, 7, 0xC2, 0, 0x40] = ([[7, 7, 7], [0, 0]], True)" by code_simp
  with compressed_decoder_correct [OF f, of "[[0x83], [], [7, 0xC2], [0, 0x40]]"] show ?thesis by simp
qed

text \<open>C22: Every wire chunk fits a datagram: no chunk of an encoded transfer is longer than 1024 bytes when
  the file chunks are not.\<close>

theorem wire_chunk_bound:
  assumes "accepted mode typ" and "\<forall>c\<in>set (fst src). length c \<le> WIRE_CHUNK_SIZE"
  shows "\<forall>y\<in>set (fst (encode_chunks src mode typ)). length y \<le> 1024"
  using dispatch_bounds [OF assms] by (simp add: WIRE_CHUNK_SIZE_def)

theorem wire_chunk_bound_witness:
  "list_all (\<lambda>y. length y \<le> 1024) (fst (encode_chunks ([[7, 7], [7, 32, 32, 1]], None) (Some ''c'') (Some ''A'')))"
proof -
  have "accepted (Some ''c'') (Some ''A'')" by code_simp
  from wire_chunk_bound [OF this, of "([[7, 7], [7, 32, 32, 1]], None)"] show ?thesis
    by (simp add: WIRE_CHUNK_SIZE_def list_all_iff)
qed

text \<open>Failures pass through. A source that raises makes the encoder end with that exception and the
  decoder end with some exception: a broken transfer is never taken for a complete file.\<close>

theorem failures_propagate:
  assumes "accepted mode typ"
  shows "snd (encode_chunks (cs, Some e) mode typ) = Some e \<and> snd (decode_chunks (ws, Some e) mode typ) \<noteq> None"
  using assms by (rule dispatch_error)

theorem failures_propagate_witness:
  "snd (decode_chunks ([[0x40, 0, 1, 7]], Some (RuntimeError ''Transfer aborted by sender'')) (Some ''B'') None) \<noteq> None"
proof -
  have "accepted (Some ''B'') None" by code_simp
  from failures_propagate [OF this] show ?thesis by blast
qed

end
