(* ===== verification/RDT_Adapters.thy ===== *)
theory RDT_Adapters
  imports RDT_Receiver
begin

text \<open>
  RDTSenderAdapter and RDTReceiverAdapter of src/common/rdt_sender.py and rdt_receiver.py, through
  which the transfer layer uses the RDT.
\<close>

section \<open>Adapters\<close>

text \<open>
  RDTSenderAdapter.send and RDTReceiverAdapter.receive turn a context into the arguments of the RDT
  functions. The host name is resolved by the parameter resolve (socket.gethostbyname).
\<close>

definition ctx_wire_id :: "transfer_context \<Rightarrow> int" where
  "ctx_wire_id ctx = normalize_transfer_id (TidStr (ctx_transfer_id ctx))"

definition sender_adapter :: "(string \<Rightarrow> string) \<Rightarrow> endpoint \<Rightarrow> transfer_context \<Rightarrow> sender_cfg" where
  "sender_adapter resolve ep ctx =
     \<lparr> sc_transfer_id = ctx_wire_id ctx, sc_dest = (resolve (ep_host ep), ep_port ep),
       sc_retry_limit = ctx_retry_limit ctx, sc_window_size = ctx_window_size ctx,
       sc_total_bytes = ctx_total_bytes ctx, sc_transfer_mode = ctx_transfer_mode ctx,
       sc_transfer_type = ctx_transfer_type ctx \<rparr>"

definition receiver_adapter :: "transfer_context \<Rightarrow> receiver_cfg" where
  "receiver_adapter ctx =
     \<lparr> rc_transfer_id_hint = Some (ctx_wire_id ctx), rc_timeout_ms = ctx_timeout_ms ctx,
       rc_max_timeouts = ctx_max_timeouts ctx, rc_expected_mode = Some (ctx_transfer_mode ctx),
       rc_expected_type = Some (ctx_transfer_type ctx) \<rparr>"

text \<open>RDTSenderAdapter.send re-raises a RuntimeError with the same text and passes the rest on.\<close>

definition adapter_send :: "(string \<Rightarrow> string) \<Rightarrow> endpoint \<Rightarrow> transfer_context \<Rightarrow> source \<Rightarrow> (bool \<times> recv) list
    \<Rightarrow> bytes list \<times> sender" where
  "adapter_send resolve ep ctx chunks ins = send_chunks_rdt (sender_adapter resolve ep ctx) chunks ins"

definition adapter_receive :: "transfer_context \<Rightarrow> (bool \<times> recv) list \<Rightarrow> acks \<times> receiver" where
  "adapter_receive ctx ins = receive_chunks_rdt (receiver_adapter ctx) ins"

text \<open>Two contexts for the same transfer name give both ends the same wire identifier.\<close>

lemma adapters_agree:
  "ctx_transfer_id c1 = ctx_transfer_id c2 \<Longrightarrow>
     rc_transfer_id_hint (receiver_adapter c2) = Some (sc_transfer_id (sender_adapter r ep c1))"
  by (simp add: receiver_adapter_def sender_adapter_def ctx_wire_id_def)

end
