(* ===== verification/Data_Channel.thy ===== *)
theory Data_Channel
  imports RDT_Properties Mode_Codec RDT_Adapters
begin

text \<open>
  The whole path of a file's bytes from the encoder over the network to the decoder.
\<close>

section \<open>From file chunks to file chunks\<close>

text \<open>C1: End to end. The sender sends the encoding of a file's chunks under any MODE and TYPE; the network
  loses, reorders and damages datagrams but does not duplicate them. When the sender has returned after a
  single START, decoding what the receiver yielded succeeds and gives exactly the file's bytes.\<close>

theorem end_to_end:
  assumes "accepted mode typ" and "\<forall>c\<in>set cs. length c \<le> WIRE_CHUNK_SIZE"
    and "link_reach K (encode_chunks (cs, None) mode typ) l" and "\<not> k_dup K"
    and "rc_transfer_id_hint (k_recv K) = Some (sc_transfer_id (k_send K))"
    and "s_attempt (l_sender l) \<le> 1" and "s_pc (l_sender l) = SendReturned m"
  shows "snd (decode_chunks (r_yielded (l_receiver l), None) mode typ) = None
    \<and> concat (fst (decode_chunks (r_yielded (l_receiver l), None) mode typ)) = concat cs"
proof -
  obtain ws where ws: "encode_chunks (cs, None) mode typ = (ws, None)"
    using dispatch_total [OF assms(1), of cs] by (cases "encode_chunks (cs, None) mode typ") auto
  have small: "\<forall>y\<in>set ws. length y \<le> 1024"
    using dispatch_bounds [OF assms(1), of "(cs, None)"] assms(2) ws by (simp add: WIRE_CHUNK_SIZE_def)
  obtain ps e where la: "lookahead (ws, None) = (ps, e)" by (metis surj_pair)
  from lookahead_chunks [OF la] have ps: "map fst ps = (if ws = [] then [[]] else ws)" by simp
  have "\<forall>ch\<in>set ps. length (fst ch) \<le> 1024"
    by (rule lookahead_small [OF la]) (use small in simp)
  then have "link_agrees K ps" using assms(5) by (simp add: link_agrees_def)
  from once_complete [OF assms(3) [unfolded ws] assms(4) la this assms(6,7)] ps
  have "r_yielded (l_receiver l) = (if ws = [] then [[]] else ws)" by simp
  with dispatch_delivered [OF assms(1) ws] show ?thesis by simp
qed

theorem end_to_end_witness:
  "\<exists>l. link_reach sample_link (encode_chunks ([[7, 7], [7, 32]], None) (Some ''B'') (Some ''I'')) l
     \<and> concat (fst (decode_chunks (r_yielded (l_receiver l), None) (Some ''B'') (Some ''I''))) = [7, 7, 7, 32]"
proof -
  have acc: "accepted (Some ''B'') (Some ''I'')" by code_simp
  have "block_encode ([[7, 7], [7, 32]], None) = ([[0x40, 0, 4, 7, 7, 7, 32]], None)"
    by (simp add: block_encode_def block_encode_from.simps WIRE_CHUNK_SIZE_def fill_def block_packet_def pack_be_def
        numeral_2_eq_2 BLOCK_FLAG_EOF_def)
  moreover have "batch_wire ([[0x40, 0, 4, 7, 7, 7, 32]], None) = ([[0x40, 0, 4, 7, 7, 7, 32]], None)"
    by (simp add: batch_wire_def batch_full.simps WIRE_CHUNK_SIZE_def)
  moreover have "normalize_mode (Some ''B'') = Inr MODE_BLOCK" by code_simp
  ultimately have enc: "encode_chunks ([[7, 7], [7, 32]], None) (Some ''B'') (Some ''I'') = ([[0x40, 0, 4, 7, 7, 7, 32]], None)"
    by (simp add: encode_chunks_def mode_defs)
  have "link_ready sample_link [[0x40, 0, 4, 7, 7, 7, 32]]"
    by (simp add: link_ready_def sample_link_def sample_names modes_def types_def)
  from can_complete [OF this] obtain l where
    l: "link_reach sample_link ([[0x40, 0, 4, 7, 7, 7, 32]], None) l" "s_attempt (l_sender l) = 1"
    "s_pc (l_sender l) = SendReturned (int (length (concat [[0x40, 0, 4, 7, 7, 7, 32 :: byte]])))" by blast
  from end_to_end [OF acc _ _ sample_agrees(2,1) _ l(3), of "[[7, 7], [7, 32]]"] l(1,2)
  show ?thesis by (auto simp: enc WIRE_CHUNK_SIZE_def)
qed

end
