(* ===== verification/Paths.thy ===== *)
theory Paths
  imports Prelude "HOL-Library.AList" "HOL-Library.Sublist"
begin

text \<open>
  POSIX paths and the file tree they name. A resolved path is the list of its components; strings
  appear where the program compares or prints them. realpath follows symbolic links the way
  posixpath does, with its table of links already seen, so links that loop are left unresolved.
\<close>

type_synonym path = "string list"

datatype kind = FileN bytes | DirN | LinkN string

record inode =
  i_kind :: kind
  i_mode :: int
  i_mtime :: int

text \<open>
  The tree is an association list from paths to inodes; its order is the order in which the
  operating system lists a directory. The other fields are what the system answers: the clock,
  the process's umask, the size reported for a directory and the offset of the local time zone.
\<close>

record file_system =
  nodes :: "(path \<times> inode) list"
  now :: int
  umask :: int
  dir_size :: "path \<Rightarrow> int"
  zone :: "int \<Rightarrow> int"

definition node :: "file_system \<Rightarrow> path \<Rightarrow> inode option" where
  "node fs p = map_of (nodes fs) p"

section \<open>Strings\<close>

text \<open>str.split(sep), str.join and str.startswith.\<close>

fun split_on :: "char \<Rightarrow> string \<Rightarrow> string list" where
  "split_on c [] = [[]]"
| "split_on c (x # xs) =
     (if x = c then [] # split_on c xs
      else (case split_on c xs of [] \<Rightarrow> [[x]] | w # ws \<Rightarrow> (x # w) # ws))"

fun join_with :: "string \<Rightarrow> string list \<Rightarrow> string" where
  "join_with sep [] = []"
| "join_with sep [w] = w"
| "join_with sep (w # ws) = w @ sep @ join_with sep ws"

definition starts_with :: "string \<Rightarrow> string \<Rightarrow> bool" where
  "starts_with s p \<longleftrightarrow> take (length p) s = p"

definition slash :: char where
  "slash = CHR ''/''"

definition name_ok :: "string \<Rightarrow> bool" where
  "name_ok n \<longleftrightarrow> n \<noteq> [] \<and> n \<noteq> ''.'' \<and> n \<noteq> ''..'' \<and> slash \<notin> set n"

definition path_str :: "path \<Rightarrow> string" where
  "path_str p = (if p = [] then [slash] else concat (map (\<lambda>c. slash # c) p))"

lemma split_on_nonempty [simp]: "split_on c s \<noteq> []"
  by (induction s) (auto split: list.splits)

lemma split_on_no_sep: "w \<in> set (split_on c s) \<Longrightarrow> c \<notin> set w"
proof (induction s arbitrary: w)
  case (Cons x xs)
  obtain v vs where v: "split_on c xs = v # vs" by (meson list.exhaust split_on_nonempty)
  with Cons show ?case by (auto split: if_splits)
qed simp

lemma join_split: "join_with [c] (split_on c s) = s"
proof (induction s)
  case (Cons x xs)
  obtain v vs where v: "split_on c xs = v # vs" by (meson list.exhaust split_on_nonempty)
  with Cons show ?case by (cases vs) auto
qed simp

lemma split_join: "ws \<noteq> [] \<Longrightarrow> (\<forall>w\<in>set ws. c \<notin> set w) \<Longrightarrow> split_on c (join_with [c] ws) = ws"
proof -
  have one: "split_on c w = [w]" if "c \<notin> set w" for w
    using that by (induction w) auto
  have app: "split_on c (w @ c # s) = w # split_on c s" if "c \<notin> set w" for w s
    using that by (induction w) auto
  assume "ws \<noteq> []" "\<forall>w\<in>set ws. c \<notin> set w"
  then show ?thesis
  proof (induction "[c]" ws rule: join_with.induct)
    case (3 w v vs)
    then show ?case by (simp add: app)
  qed (simp_all add: one)
qed

section \<open>Resolving links\<close>

text \<open>
  The recursion of posixpath.realpath: path is resolved so far, the list is what remains, seen maps
  the links met to their targets, None while one is being resolved. The flag is false when a link
  loops; then the rest is appended as it is. Fuel bounds the nesting of links.
\<close>

type_synonym seen = "(path \<times> path option) list"

definition is_link :: "file_system \<Rightarrow> path \<Rightarrow> string option" where
  "is_link fs p = (case node fs p of Some i \<Rightarrow> (case i_kind i of LinkN t \<Rightarrow> Some t | _ \<Rightarrow> None) | None \<Rightarrow> None)"

fun walk :: "nat \<Rightarrow> file_system \<Rightarrow> seen \<Rightarrow> path \<Rightarrow> string list \<Rightarrow> (path \<times> bool \<times> seen) option" where
  "walk fuel fs seen path [] = Some (path, True, seen)"
| "walk fuel fs seen path (name # rest) =
     (if name = [] \<or> name = ''.'' then walk fuel fs seen path rest
      else if name = ''..'' then walk fuel fs seen (butlast path) rest
      else
        let newpath = path @ [name] in
        (case is_link fs newpath of
           None \<Rightarrow> walk fuel fs seen newpath rest
         | Some target \<Rightarrow>
             (case map_of seen newpath of
                Some (Some p) \<Rightarrow> walk fuel fs seen p rest
              | Some None \<Rightarrow> Some (newpath @ rest, False, seen)
              | None \<Rightarrow>
                  (case fuel of
                     0 \<Rightarrow> None
                   | Suc n \<Rightarrow>
                       (case walk n fs ((newpath, None) # seen)
                               (if starts_with target [slash] then [] else path) (split_on slash target) of
                          None \<Rightarrow> None
                        | Some (p, ok, seen') \<Rightarrow>
                            if ok then walk fuel fs ((newpath, Some p) # seen') p rest
                            else Some (p @ rest, False, seen'))))))"

text \<open>The lexical normalization of posixpath.normpath on the components of an absolute path.\<close>

fun norm_from :: "path \<Rightarrow> string list \<Rightarrow> path" where
  "norm_from p [] = p"
| "norm_from p (n # ns) =
     (if n = [] \<or> n = ''.'' then norm_from p ns
      else if n = ''..'' then norm_from (butlast p) ns
      else norm_from (p @ [n]) ns)"

definition link_fuel :: "file_system \<Rightarrow> nat" where
  "link_fuel fs = length (nodes fs)"

text \<open>realpath of an absolute path given by components; every link can be met once.\<close>

definition realpath :: "file_system \<Rightarrow> string list \<Rightarrow> path" where
  "realpath fs names =
     (case walk (link_fuel fs) fs [] [] names of
        None \<Rightarrow> norm_from [] names
      | Some (p, ok, seen) \<Rightarrow> norm_from [] p)"

section \<open>The fuel is enough\<close>

definition unseen :: "file_system \<Rightarrow> seen \<Rightarrow> path set" where
  "unseen fs seen = fst ` set (nodes fs) - fst ` set seen"

lemma finite_unseen [simp]: "finite (unseen fs seen)"
  by (simp add: unseen_def)

lemma is_link_dom: "is_link fs p = Some t \<Longrightarrow> p \<in> fst ` set (nodes fs)"
  by (force simp: is_link_def node_def split: option.splits dest: map_of_SomeD)

lemma card_unseen_less:
  assumes "is_link fs p = Some t" and "map_of seen p = None"
  shows "card (unseen fs ((p, v) # seen)) < card (unseen fs seen)"
proof (rule psubset_card_mono)
  show "unseen fs ((p, v) # seen) \<subset> unseen fs seen"
    using is_link_dom [OF assms(1)] assms(2) by (auto simp: unseen_def map_of_eq_None_iff)
qed simp

lemma card_unseen_mono: "fst ` set s \<subseteq> fst ` set s' \<Longrightarrow> card (unseen fs s') \<le> card (unseen fs s)"
  by (rule card_mono) (auto simp: unseen_def)

text \<open>The branches of the walk as equations; the recursion is unfolded only through them.\<close>

lemma walk_skip: "name = [] \<or> name = ''.'' \<Longrightarrow> walk f fs seen p (name # rest) = walk f fs seen p rest"
  by auto

lemma walk_up: "walk f fs seen p (''..'' # rest) = walk f fs seen (butlast p) rest"
  by simp

lemma walk_entry: "n \<noteq> [] \<Longrightarrow> n \<noteq> ''.'' \<Longrightarrow> n \<noteq> ''..'' \<Longrightarrow> is_link fs (p @ [n]) = None \<Longrightarrow>
    walk f fs seen p (n # rest) = walk f fs seen (p @ [n]) rest"
  by simp

lemma walk_known: "n \<noteq> [] \<Longrightarrow> n \<noteq> ''.'' \<Longrightarrow> n \<noteq> ''..'' \<Longrightarrow> is_link fs (p @ [n]) = Some t \<Longrightarrow>
    map_of seen (p @ [n]) = Some (Some q) \<Longrightarrow> walk f fs seen p (n # rest) = walk f fs seen q rest"
  by simp

lemma walk_loop: "n \<noteq> [] \<Longrightarrow> n \<noteq> ''.'' \<Longrightarrow> n \<noteq> ''..'' \<Longrightarrow> is_link fs (p @ [n]) = Some t \<Longrightarrow>
    map_of seen (p @ [n]) = Some None \<Longrightarrow> walk f fs seen p (n # rest) = Some (p @ [n] @ rest, False, seen)"
  by simp

lemma walk_enter: "n \<noteq> [] \<Longrightarrow> n \<noteq> ''.'' \<Longrightarrow> n \<noteq> ''..'' \<Longrightarrow> is_link fs (p @ [n]) = Some t \<Longrightarrow>
    map_of seen (p @ [n]) = None \<Longrightarrow>
    walk (Suc f) fs seen p (n # rest) =
      (case walk f fs ((p @ [n], None) # seen) (if starts_with t [slash] then [] else p) (split_on slash t) of
         None \<Rightarrow> None
       | Some (q, ok, seen') \<Rightarrow>
           if ok then walk (Suc f) fs ((p @ [n], Some q) # seen') q rest else Some (q @ rest, False, seen'))"
  by (simp add: Let_def)

lemma walk_stop: "n \<noteq> [] \<Longrightarrow> n \<noteq> ''.'' \<Longrightarrow> n \<noteq> ''..'' \<Longrightarrow> is_link fs (p @ [n]) = Some t \<Longrightarrow>
    map_of seen (p @ [n]) = None \<Longrightarrow> walk 0 fs seen p (n # rest) = None"
  by simp

declare walk.simps(2) [simp del]

text \<open>Induction over a walk that has an answer, one case per branch.\<close>

lemma walk_induct [consumes 1, case_names finish skip up entry known loop bad enter]:
  assumes "walk f fs seen p ns = Some r"
    and finish: "\<And>f seen p. P f seen p [] (p, True, seen)"
    and skip: "\<And>f seen p n ns r. n = [] \<or> n = ''.'' \<Longrightarrow> P f seen p ns r \<Longrightarrow> P f seen p (n # ns) r"
    and up: "\<And>f seen p ns r. P f seen (butlast p) ns r \<Longrightarrow> P f seen p (''..'' # ns) r"
    and entry: "\<And>f seen p n ns r. n \<noteq> [] \<Longrightarrow> n \<noteq> ''.'' \<Longrightarrow> n \<noteq> ''..'' \<Longrightarrow> is_link fs (p @ [n]) = None \<Longrightarrow>
        P f seen (p @ [n]) ns r \<Longrightarrow> P f seen p (n # ns) r"
    and known: "\<And>f seen p n ns r t q. n \<noteq> [] \<Longrightarrow> n \<noteq> ''.'' \<Longrightarrow> n \<noteq> ''..'' \<Longrightarrow> is_link fs (p @ [n]) = Some t \<Longrightarrow>
        map_of seen (p @ [n]) = Some (Some q) \<Longrightarrow> P f seen q ns r \<Longrightarrow> P f seen p (n # ns) r"
    and loop: "\<And>f seen p n ns t. n \<noteq> [] \<Longrightarrow> n \<noteq> ''.'' \<Longrightarrow> n \<noteq> ''..'' \<Longrightarrow> is_link fs (p @ [n]) = Some t \<Longrightarrow>
        map_of seen (p @ [n]) = Some None \<Longrightarrow> P f seen p (n # ns) (p @ [n] @ ns, False, seen)"
    and bad: "\<And>f seen p n ns t q s'. n \<noteq> [] \<Longrightarrow> n \<noteq> ''.'' \<Longrightarrow> n \<noteq> ''..'' \<Longrightarrow> is_link fs (p @ [n]) = Some t \<Longrightarrow>
        map_of seen (p @ [n]) = None \<Longrightarrow>
        P f ((p @ [n], None) # seen) (if starts_with t [slash] then [] else p) (split_on slash t) (q, False, s') \<Longrightarrow>
        P (Suc f) seen p (n # ns) (q @ ns, False, s')"
    and enter: "\<And>f seen p n ns t q s' r. n \<noteq> [] \<Longrightarrow> n \<noteq> ''.'' \<Longrightarrow> n \<noteq> ''..'' \<Longrightarrow> is_link fs (p @ [n]) = Some t \<Longrightarrow>
        map_of seen (p @ [n]) = None \<Longrightarrow>
        P f ((p @ [n], None) # seen) (if starts_with t [slash] then [] else p) (split_on slash t) (q, True, s') \<Longrightarrow>
        P (Suc f) ((p @ [n], Some q) # s') q ns r \<Longrightarrow> P (Suc f) seen p (n # ns) r"
  shows "P f seen p ns r"
  using assms(1)
proof (induction f arbitrary: seen p ns r rule: less_induct)
  case (less f)
  note outer = less.IH
  show ?case using less.prems
  proof (induction ns arbitrary: seen p)
    case Nil
    then have "r = (p, True, seen)" by simp
    then show ?case by (simp only: finish)
  next
    case (Cons n ns)
    consider "n = [] \<or> n = ''.''" | "n = ''..''" | "n \<noteq> []" "n \<noteq> ''.''" "n \<noteq> ''..''" by blast
    then show ?case
    proof cases
      case 1
      with Cons show ?thesis by (simp only: walk_skip) (rule skip)
    next
      case 2
      with Cons show ?thesis by (simp only: walk_up) (rule up)
    next
      case nm: 3
      let ?np = "p @ [n]"
      show ?thesis
      proof (cases "is_link fs ?np")
        case None
        from Cons.prems Cons.IH show ?thesis
          by (simp only: walk_entry [OF nm None]) (rule entry [OF nm None])
      next
        case l: (Some t)
        consider q where "map_of seen ?np = Some (Some q)" | "map_of seen ?np = Some None"
          | "map_of seen ?np = None" by (metis option.exhaust)
        then show ?thesis
        proof cases
          case (1 q)
          from Cons.prems Cons.IH show ?thesis
            by (simp only: walk_known [OF nm l 1]) (rule known [OF nm l 1])
        next
          case 2
          from Cons.prems have "r = (p @ [n] @ ns, False, seen)" by (simp only: walk_loop [OF nm l 2] option.inject)
          then show ?thesis using loop [OF nm l 2] by simp
        next
          case 3
          obtain g where g: "f = Suc g" using Cons.prems walk_stop [OF nm l 3] by (cases f) auto
          let ?start = "if starts_with t [slash] then [] else p"
          note e = walk_enter [OF nm l 3, of g ns, folded g]
          obtain q ok1 s1 where w: "walk g fs ((?np, None) # seen) ?start (split_on slash t) = Some (q, ok1, s1)"
            using Cons.prems unfolding e by (auto split: option.splits)
          have i1: "P g ((?np, None) # seen) ?start (split_on slash t) (q, ok1, s1)"
            by (rule outer [OF _ w]) (use g in simp)
          note e = e [unfolded w option.case prod.case]
          show ?thesis
          proof (cases ok1)
            case False
            with Cons.prems have "r = (q @ ns, False, s1)" unfolding e by simp
            with bad [OF nm l 3] i1 False g show ?thesis by simp
          next
            case True
            with Cons.prems have "walk f fs ((?np, Some q) # s1) q ns = Some r" unfolding e by simp
            from Cons.IH [OF this] have "P f ((?np, Some q) # s1) q ns r" .
            with enter [OF nm l 3] i1 True g show ?thesis by simp
          qed
        qed
      qed
    qed
  qed
qed

lemma walk_total:
  "card (unseen fs seen) \<le> fuel \<Longrightarrow>
     \<exists>p ok seen'. walk fuel fs seen path rest = Some (p, ok, seen') \<and> fst ` set seen \<subseteq> fst ` set seen'"
proof (induction fuel arbitrary: seen path rest rule: less_induct)
  case (less fuel)
  note outer = less.IH
  show ?case using less.prems
  proof (induction rest arbitrary: seen path)
    case (Cons name rest)
    consider "name = [] \<or> name = ''.''" | "name = ''..''"
      | "name \<noteq> []" "name \<noteq> ''.''" "name \<noteq> ''..''" by blast
    then show ?case
    proof cases
      case 1
      then show ?thesis using Cons.IH [OF Cons.prems, of path] by (simp only: walk_skip)
    next
      case 2
      then show ?thesis using Cons.IH [OF Cons.prems, of "butlast path"] by (simp only: walk_up)
    next
      case nm: 3
      let ?np = "path @ [name]"
      show ?thesis
      proof (cases "is_link fs ?np")
        case None
        then show ?thesis using Cons.IH [OF Cons.prems, of ?np] by (simp only: walk_entry [OF nm None])
      next
        case l: (Some t)
        consider q where "map_of seen ?np = Some (Some q)" | "map_of seen ?np = Some None"
          | "map_of seen ?np = None" by (metis option.exhaust)
        then show ?thesis
        proof cases
          case 1
          then show ?thesis using Cons.IH [OF Cons.prems, of q] by (simp only: walk_known [OF nm l 1])
        next
          case 2
          then show ?thesis by (simp only: walk_loop [OF nm l 2]) blast
        next
          case 3
          have small: "card (unseen fs ((?np, None) # seen)) < card (unseen fs seen)"
            by (rule card_unseen_less [OF l 3])
          with Cons.prems obtain n where n: "fuel = Suc n" by (cases fuel) auto
          let ?start = "if starts_with t [slash] then [] else path"
          obtain p ok s' where w: "walk n fs ((?np, None) # seen) ?start (split_on slash t) = Some (p, ok, s')"
            and sub: "fst ` set ((?np, None :: path option) # seen) \<subseteq> fst ` set s'"
            using outer [of n "(?np, None) # seen" ?start "split_on slash t"] small Cons.prems n by auto
          note e = walk_enter [OF nm l 3, of n rest, folded n, unfolded w option.case prod.case]
          show ?thesis
          proof (cases ok)
            case False
            with e sub show ?thesis by auto
          next
            case True
            have "card (unseen fs ((?np, Some p) # s')) \<le> fuel"
              by (rule order_trans [OF card_unseen_mono Cons.prems]) (use sub in auto)
            from Cons.IH [OF this, of p] e True sub show ?thesis by auto
          qed
        qed
      qed
    qed
  qed auto
qed

lemma link_fuel_enough: "card (unseen fs []) \<le> link_fuel fs"
proof -
  have "unseen fs [] = set (map fst (nodes fs))" by (simp add: unseen_def)
  then show ?thesis by (metis card_length length_map link_fuel_def)
qed

section \<open>Resolved paths stay resolved\<close>

definition plain :: "file_system \<Rightarrow> path \<Rightarrow> bool" where
  "plain fs p \<longleftrightarrow> (\<forall>n\<in>set p. n \<noteq> [] \<and> n \<noteq> ''.'' \<and> n \<noteq> ''..'')
     \<and> (\<forall>k<length p. is_link fs (take (Suc k) p) = None)"

lemma plain_code [code]: "plain fs p \<longleftrightarrow> list_all (\<lambda>n. n \<noteq> [] \<and> n \<noteq> ''.'' \<and> n \<noteq> ''..'') p
    \<and> list_all (\<lambda>k. is_link fs (take (Suc k) p) = None) [0..<length p]"
  by (auto simp: plain_def list_all_iff)

lemma plain_Nil [simp]: "plain fs []"
  by (simp add: plain_def)

lemma plain_take: "plain fs p \<Longrightarrow> plain fs (take k p)"
  by (auto simp: plain_def min_def dest: in_set_takeD)

lemma plain_butlast: "plain fs p \<Longrightarrow> plain fs (butlast p)"
  by (simp add: butlast_conv_take plain_take)

lemma plain_snoc: "plain fs p \<Longrightarrow> n \<noteq> [] \<Longrightarrow> n \<noteq> ''.'' \<Longrightarrow> n \<noteq> ''..'' \<Longrightarrow> is_link fs (p @ [n]) = None
    \<Longrightarrow> plain fs (p @ [n])"
  by (auto simp: plain_def less_Suc_eq)

lemma walk_plain:
  "walk fuel fs seen path rest = Some r \<Longrightarrow> plain fs path \<Longrightarrow>
     (\<forall>q r. (q, Some r) \<in> set seen \<longrightarrow> plain fs r) \<Longrightarrow>
     (fst (snd r) \<longrightarrow> plain fs (fst r)) \<and> (\<forall>q v. (q, Some v) \<in> set (snd (snd r)) \<longrightarrow> plain fs v)"
proof (induction rule: walk_induct)
  case (entry f seen p n ns r)
  then show ?case using plain_snoc by blast
next
  case (known f seen p n ns r t q)
  then show ?case using map_of_SomeD by fast
qed (auto intro: plain_butlast)

lemma walk_of_plain: "plain fs (path @ rest) \<Longrightarrow> walk fuel fs seen path rest = Some (path @ rest, True, seen)"
proof (induction rest arbitrary: path)
  case (Cons n rest)
  have "is_link fs (path @ [n]) = None"
  proof -
    have "take (Suc (length path)) (path @ n # rest) = path @ [n]" by simp
    with Cons.prems show ?thesis unfolding plain_def by (metis add_Suc_right length_append length_Cons
          less_add_Suc1)
  qed
  moreover have "n \<noteq> []" "n \<noteq> ''.''" "n \<noteq> ''..''" using Cons.prems by (auto simp: plain_def)
  ultimately show ?case using Cons.IH [of "path @ [n]"] Cons.prems by (simp add: walk_entry)
qed simp

lemma norm_plain: "(\<forall>n\<in>set r. n \<noteq> [] \<and> n \<noteq> ''.'' \<and> n \<noteq> ''..'') \<Longrightarrow> norm_from p r = p @ r"
  by (induction r arbitrary: p) auto

lemma realpath_plain: "plain fs p \<Longrightarrow> realpath fs p = p"
  using walk_of_plain [of fs "[]" p] norm_plain [of p "[]"] by (simp add: realpath_def plain_def)

text \<open>Whether every link on the way could be resolved.\<close>

definition resolves :: "file_system \<Rightarrow> string list \<Rightarrow> bool" where
  "resolves fs names \<longleftrightarrow> (case walk (link_fuel fs) fs [] [] names of None \<Rightarrow> False | Some (p, ok, s) \<Rightarrow> ok)"

lemma resolves_plain: "resolves fs names \<Longrightarrow> plain fs (realpath fs names)"
proof -
  assume r: "resolves fs names"
  then obtain p s where w: "walk (link_fuel fs) fs [] [] names = Some (p, True, s)"
    by (auto simp: resolves_def split: option.splits)
  from walk_plain [OF w] have "plain fs p" by auto
  with norm_plain [of p "[]"] w show ?thesis by (simp add: realpath_def plain_def)
qed

lemma resolves_of_plain: "plain fs p \<Longrightarrow> resolves fs p"
  using walk_of_plain [of fs "[]" p] by (simp add: resolves_def)

text \<open>A walk depends on the tree through its links only, and more fuel changes nothing.\<close>

lemma walk_mono: "walk f fs seen p ns = Some r \<Longrightarrow> is_link fs' = is_link fs \<Longrightarrow> f \<le> g \<Longrightarrow> walk g fs' seen p ns = Some r"
proof (induction arbitrary: g rule: walk_induct)
  case (bad f seen p n ns t q s')
  obtain h where h: "g = Suc h" using bad.prems by (cases g) auto
  with bad.IH [of h] bad.prems bad.hyps show ?case by (simp add: walk_enter)
next
  case (enter f seen p n ns t q s' r)
  obtain h where h: "g = Suc h" using enter.prems by (cases g) auto
  with enter.IH(1) [of h] enter.IH(2) [of g] enter.prems enter.hyps show ?case by (simp add: walk_enter)
qed (simp_all add: walk_skip walk_up walk_entry walk_known walk_loop)

lemma walk_answer:
  "\<exists>r. walk (link_fuel fs) fs [] [] ns = Some r" (is ?a)
  "is_link fs' = is_link fs \<Longrightarrow> walk (link_fuel fs') fs' [] [] ns = walk (link_fuel fs) fs [] [] ns" (is "?l \<Longrightarrow> ?e")
proof -
  have ans: "\<exists>r. walk (link_fuel fs) fs [] [] ns = Some r" for fs
    using walk_total [OF link_fuel_enough, of fs "[]" ns] by blast
  then show ?a .
  assume l: ?l
  obtain r r' where r: "walk (link_fuel fs) fs [] [] ns = Some r"
    and r': "walk (link_fuel fs') fs' [] [] ns = Some r'" using ans by blast
  let ?g = "max (link_fuel fs) (link_fuel fs')"
  have "walk ?g fs [] [] ns = Some r" using walk_mono [OF r, of fs ?g] by simp
  moreover have "walk ?g fs [] [] ns = Some r'" using walk_mono [OF r' l [symmetric], of ?g] by simp
  ultimately show ?e using r r' by simp
qed

lemma realpath_cong: "is_link fs' = is_link fs \<Longrightarrow> realpath fs' ns = realpath fs ns"
  unfolding realpath_def by (simp only: walk_answer(2) [of fs' fs ns])

lemma resolves_cong: "is_link fs' = is_link fs \<Longrightarrow> resolves fs' ns = resolves fs ns"
  unfolding resolves_def by (simp only: walk_answer(2) [of fs' fs ns])

text \<open>Every component of a resolved path is a proper name when the parts it came from have no separator.\<close>

definition slashless :: "string list \<Rightarrow> bool" where
  "slashless ns \<longleftrightarrow> (\<forall>n\<in>set ns. slash \<notin> set n)"

lemma slashless_simps [simp]:
  "slashless []" "slashless (n # ns) \<longleftrightarrow> slash \<notin> set n \<and> slashless ns"
  "slashless (a @ b) \<longleftrightarrow> slashless a \<and> slashless b" "slashless (split_on slash s)"
  by (auto simp: slashless_def dest: split_on_no_sep)

lemma slashless_butlast: "slashless p \<Longrightarrow> slashless (butlast p)"
  by (auto simp: slashless_def dest: in_set_butlastD)

lemma walk_slashless:
  "walk fuel fs seen path rest = Some r \<Longrightarrow> slashless path \<Longrightarrow> slashless rest \<Longrightarrow>
     (\<forall>q r. (q, Some r) \<in> set seen \<longrightarrow> slashless r) \<Longrightarrow>
     slashless (fst r) \<and> (\<forall>q v. (q, Some v) \<in> set (snd (snd r)) \<longrightarrow> slashless v)"
proof (induction rule: walk_induct)
  case (up f seen p ns r)
  then show ?case using slashless_butlast by simp
next
  case (known f seen p n ns r t q)
  from map_of_SomeD [OF known.hyps(5)] known.prems have "slashless q" by blast
  with known show ?case by simp
next
  case (bad f seen p n ns t q s')
  have "slashless (if starts_with t [slash] then [] else p)" using bad.prems by simp
  with bad show ?case by simp
next
  case (enter f seen p n ns t q s' r)
  have "slashless (if starts_with t [slash] then [] else p)" using enter.prems by simp
  with enter.IH(1) enter.prems have i: "slashless q" "\<forall>a v. (a, Some v) \<in> set s' \<longrightarrow> slashless v" by simp_all
  show ?case by (rule enter.IH(2)) (use i enter.prems in auto)
qed simp_all

definition names_ok :: "path \<Rightarrow> bool" where
  "names_ok p \<longleftrightarrow> (\<forall>n\<in>set p. name_ok n)"

lemma names_ok_simps [simp]:
  "names_ok []" "names_ok (n # p) \<longleftrightarrow> name_ok n \<and> names_ok p"
  "names_ok (p @ q) \<longleftrightarrow> names_ok p \<and> names_ok q"
  by (auto simp: names_ok_def)

lemma names_ok_butlast: "names_ok p \<Longrightarrow> names_ok (butlast p)"
  by (auto simp: names_ok_def dest: in_set_butlastD)

lemma norm_names_ok: "names_ok p \<Longrightarrow> slashless ns \<Longrightarrow> names_ok (norm_from p ns)"
  by (induction p ns rule: norm_from.induct) (simp_all add: names_ok_butlast name_ok_def)

lemma realpath_names_ok: "slashless ns \<Longrightarrow> names_ok (realpath fs ns)"
proof -
  assume s: "slashless ns"
  obtain p ok s' where w: "walk (link_fuel fs) fs [] [] ns = Some (p, ok, s')"
    using walk_answer(1) by (metis prod_cases3)
  from walk_slashless [OF w _ s] have "slashless p" by simp
  with w show ?thesis by (simp add: realpath_def norm_names_ok)
qed

lemma names_ok_slashless: "names_ok p \<Longrightarrow> slashless p"
  by (auto simp: names_ok_def slashless_def name_ok_def)

text \<open>
  The program compares paths as strings. On proper names that is the prefix order on components,
  except below the root directory, whose string already ends in the separator.
\<close>

lemma name_prefix_slash:
  "slash \<notin> set a \<Longrightarrow> slash \<notin> set b \<Longrightarrow> prefix (a @ slash # x) (b @ slash # y) \<longleftrightarrow> a = b \<and> prefix x y"
proof (induction a arbitrary: b)
  case Nil
  then show ?case by (cases b) auto
next
  case (Cons c a)
  then show ?case by (cases b) auto
qed

lemma starts_with_prefix: "starts_with s p \<longleftrightarrow> prefix p s"
  by (auto simp: starts_with_def prefix_def) (metis append_take_drop_id)

definition body_str :: "path \<Rightarrow> string" where
  "body_str p = concat (map (\<lambda>c. slash # c) p)"

lemma body_str_simps [simp]: "body_str [] = []" "body_str (c # p) = slash # c @ body_str p"
  "body_str (p @ q) = body_str p @ body_str q"
  by (simp_all add: body_str_def)

lemma path_str_body: "path_str p = (if p = [] then [slash] else body_str p)"
  by (simp add: path_str_def body_str_def)

lemma body_str_prefix:
  "names_ok p \<Longrightarrow> names_ok q \<Longrightarrow> prefix (body_str p @ [slash]) (body_str q @ [slash]) \<longleftrightarrow> prefix p q"
proof (induction p arbitrary: q)
  case Nil
  then show ?case by (cases q) auto
next
  case (Cons c p)
  show ?case
  proof (cases q)
    case Nil
    with Cons.prems show ?thesis by (cases c) (auto simp: name_ok_def)
  next
    case q: (Cons d r)
    obtain x y where xy: "body_str p @ [slash] = slash # x" "body_str r @ [slash] = slash # y"
      by (cases p; cases r) auto
    have "prefix (body_str (c # p) @ [slash]) (body_str q @ [slash]) \<longleftrightarrow> prefix (c @ slash # x) (d @ slash # y)"
      using q xy by simp
    also have "\<dots> \<longleftrightarrow> c = d \<and> prefix x y"
      by (rule name_prefix_slash) (use Cons.prems q in \<open>simp_all add: name_ok_def\<close>)
    also have "\<dots> \<longleftrightarrow> c = d \<and> prefix p r"
      using Cons.IH [of r] Cons.prems q xy by simp
    finally show ?thesis using q by auto
  qed
qed

lemma body_str_inject: "names_ok p \<Longrightarrow> names_ok q \<Longrightarrow> body_str p = body_str q \<longleftrightarrow> p = q"
  using body_str_prefix [of p q] body_str_prefix [of q p] by (auto intro: prefix_order.antisym)

lemma path_str_inject: "names_ok p \<Longrightarrow> names_ok q \<Longrightarrow> path_str p = path_str q \<longleftrightarrow> p = q"
  using body_str_inject [of p q]
  by (cases p; cases q) (auto simp: path_str_body name_ok_def)

lemma path_str_prefix:
  assumes "names_ok p" "names_ok q" "p \<noteq> []"
  shows "path_str q = path_str p \<or> starts_with (path_str q) (path_str p @ [slash]) \<longleftrightarrow> prefix p q"
proof (cases "q = []")
  case True
  with assms show ?thesis by (cases p) (auto simp: path_str_body starts_with_prefix name_ok_def)
next
  case False
  have "prefix (body_str p @ [slash]) (body_str q @ [slash]) \<longleftrightarrow>
      body_str q = body_str p \<or> prefix (body_str p @ [slash]) (body_str q)"
    by auto
  with assms False body_str_prefix [of p q] show ?thesis
    by (simp add: path_str_body starts_with_prefix)
qed

text \<open>Without links to themselves every path resolves; without links at all there are none.\<close>

definition loop_free :: "file_system \<Rightarrow> bool" where
  "loop_free fs \<longleftrightarrow> (\<forall>ns. resolves fs ns)"

lemma loop_free_cong: "is_link fs' = is_link fs \<Longrightarrow> loop_free fs' = loop_free fs"
  using resolves_cong [of fs' fs] by (simp add: loop_free_def)

lemma walk_no_links: "walk f fs seen p ns = Some r \<Longrightarrow> \<forall>q. is_link fs q = None \<Longrightarrow> fst (snd r)"
  by (induction rule: walk_induct) simp_all

lemma no_links_loop_free:
  assumes "list_all (\<lambda>(p, i). case i_kind i of LinkN t \<Rightarrow> False | _ \<Rightarrow> True) (nodes fs)"
  shows "loop_free fs"
  unfolding loop_free_def
proof
  fix ns
  have "is_link fs q = None" for q
    using assms by (force simp: is_link_def node_def list_all_iff split: option.split kind.split dest: map_of_SomeD)
  then show "resolves fs ns"
    using walk_answer(1) [of fs ns] walk_no_links [of "link_fuel fs" fs "[]" "[]" ns]
    by (auto simp: resolves_def)
qed

end
