(* ===== verification/Files.thy ===== *)
theory Files
  imports Paths
begin

text \<open>
  The system calls the program makes on the file tree, on POSIX semantics: path lookup with links,
  stat, mkdir, rmdir, unlink, rename, opening for reading and writing, directory scans, and the
  functions of os, os.path and tempfile built from them. Access permissions never deny anything
  here and every call is one atomic step. Directory time stamps are those of their creation.
\<close>

section \<open>Errors of the operating system\<close>

datatype errno = ENOENT | EBUSY | EEXIST | ENOTDIR | EISDIR | EINVAL | ENOSPC | ENOTEMPTY | ELOOP

fun errno_kind :: "errno \<Rightarrow> os_kind" where
  "errno_kind ENOENT = FileNotFound"
| "errno_kind EEXIST = FileExists"
| "errno_kind ENOTDIR = NotADirectory"
| "errno_kind EISDIR = IsADirectory"
| "errno_kind _ = OtherOS"

fun errno_text :: "errno \<Rightarrow> string" where
  "errno_text ENOENT = ''[Errno 2] No such file or directory''"
| "errno_text EBUSY = ''[Errno 16] Device or resource busy''"
| "errno_text EEXIST = ''[Errno 17] File exists''"
| "errno_text ENOTDIR = ''[Errno 20] Not a directory''"
| "errno_text EISDIR = ''[Errno 21] Is a directory''"
| "errno_text EINVAL = ''[Errno 22] Invalid argument''"
| "errno_text ENOSPC = ''[Errno 28] No space left on device''"
| "errno_text ENOTEMPTY = ''[Errno 39] Directory not empty''"
| "errno_text ELOOP = ''[Errno 40] Too many levels of symbolic links''"

text \<open>The OSError Python raises for a failed call on one path, and on two.\<close>

definition os_error :: "errno \<Rightarrow> path \<Rightarrow> exn" where
  "os_error e p = OSErr (errno_kind e) (errno_text e @ '': '' @ py_repr (path_str p))"

definition os_error2 :: "errno \<Rightarrow> path \<Rightarrow> path \<Rightarrow> exn" where
  "os_error2 e p q = OSErr (errno_kind e)
     (errno_text e @ '': '' @ py_repr (path_str p) @ '' -> '' @ py_repr (path_str q))"

text \<open>What an operation that may change the tree returns: the tree afterwards and the result or exception.\<close>

type_synonym 'a outcome = "file_system \<times> (exn + 'a)"

section \<open>Inodes\<close>

definition is_dir :: "file_system \<Rightarrow> path \<Rightarrow> bool" where
  "is_dir fs p \<longleftrightarrow> (case node fs p of Some i \<Rightarrow> i_kind i = DirN | None \<Rightarrow> False)"

fun kind_data :: "kind \<Rightarrow> bytes option" where
  "kind_data (FileN d) = Some d"
| "kind_data _ = None"

text \<open>The regular files and their contents, which is what a client of the server sees of the tree.\<close>

definition files :: "file_system \<Rightarrow> path \<Rightarrow> bytes option" where
  "files fs p = (case node fs p of Some i \<Rightarrow> kind_data (i_kind i) | None \<Rightarrow> None)"

definition put :: "file_system \<Rightarrow> path \<Rightarrow> inode \<Rightarrow> file_system" where
  "put fs p i = fs\<lparr>nodes := AList.update p i (nodes fs)\<rparr>"

definition cut :: "file_system \<Rightarrow> path \<Rightarrow> file_system" where
  "cut fs p = fs\<lparr>nodes := AList.delete p (nodes fs)\<rparr>"

definition entries :: "file_system \<Rightarrow> path \<Rightarrow> string list" where
  "entries fs d = map last (filter (\<lambda>p. p \<noteq> [] \<and> butlast p = d) (map fst (nodes fs)))"

definition new_dir :: "file_system \<Rightarrow> inode" where
  "new_dir fs = \<lparr>i_kind = DirN, i_mode = 511 AND NOT (umask fs), i_mtime = now fs\<rparr>"

definition new_file :: "file_system \<Rightarrow> int \<Rightarrow> bytes \<Rightarrow> inode" where
  "new_file fs mode d = \<lparr>i_kind = FileN d, i_mode = mode AND NOT (umask fs), i_mtime = now fs\<rparr>"

section \<open>Lookup\<close>

text \<open>
  The kernel's lookup of the components of an absolute path: every component but the last must
  exist and be a directory, links are followed, at most \<open>n\<close> of them. The last one may be missing.
\<close>

function look :: "nat \<Rightarrow> file_system \<Rightarrow> path \<Rightarrow> string list \<Rightarrow> errno + path" where
  "look n fs p [] = Inr p"
| "look n fs p (c # cs) =
     (case node fs p of
        None \<Rightarrow> Inl ENOENT
      | Some i \<Rightarrow>
          if i_kind i \<noteq> DirN then Inl ENOTDIR
          else if c = [] \<or> c = ''.'' then look n fs p cs
          else if c = ''..'' then look n fs (butlast p) cs
          else
            (case is_link fs (p @ [c]) of
               None \<Rightarrow> look n fs (p @ [c]) cs
             | Some t \<Rightarrow>
                 (case n of
                    0 \<Rightarrow> Inl ELOOP
                  | Suc m \<Rightarrow> look m fs (if starts_with t [slash] then [] else p) (split_on slash t @ cs))))"
  by pat_completeness auto
termination by (relation "measures [\<lambda>(n, fs, p, cs). n, \<lambda>(n, fs, p, cs). length cs]") auto

definition max_links :: nat where
  "max_links = 40"

text \<open>stat follows the last component, lstat and the calls that change an entry do not.\<close>

definition follow :: "file_system \<Rightarrow> path \<Rightarrow> errno + path" where
  "follow fs p =
     (case look max_links fs [] p of
        Inl e \<Rightarrow> Inl e
      | Inr q \<Rightarrow> if node fs q = None then Inl ENOENT else Inr q)"

definition locate :: "file_system \<Rightarrow> path \<Rightarrow> errno + path" where
  "locate fs p =
     (if p = [] then Inr []
      else case follow fs (butlast p) of
             Inl e \<Rightarrow> Inl e
           | Inr d \<Rightarrow> if is_dir fs d then Inr (d @ [last p]) else Inl ENOTDIR)"

definition os_stat :: "file_system \<Rightarrow> path \<Rightarrow> errno + (path \<times> inode)" where
  "os_stat fs p =
     (case follow fs p of
        Inl e \<Rightarrow> Inl e
      | Inr q \<Rightarrow> (case node fs q of None \<Rightarrow> Inl ENOENT | Some i \<Rightarrow> Inr (q, i)))"

text \<open>os.path.exists, isdir, isfile and lexists, which answer False when the lookup fails.\<close>

definition path_exists :: "file_system \<Rightarrow> path \<Rightarrow> bool" where
  "path_exists fs p = (case os_stat fs p of Inl e \<Rightarrow> False | Inr i \<Rightarrow> True)"

definition path_isdir :: "file_system \<Rightarrow> path \<Rightarrow> bool" where
  "path_isdir fs p = (case os_stat fs p of Inl e \<Rightarrow> False | Inr (q, i) \<Rightarrow> i_kind i = DirN)"

definition path_isfile :: "file_system \<Rightarrow> path \<Rightarrow> bool" where
  "path_isfile fs p = (case os_stat fs p of Inl e \<Rightarrow> False | Inr (q, i) \<Rightarrow> kind_data (i_kind i) \<noteq> None)"

definition path_lexists :: "file_system \<Rightarrow> path \<Rightarrow> bool" where
  "path_lexists fs p = (case locate fs p of Inl e \<Rightarrow> False | Inr q \<Rightarrow> node fs q \<noteq> None)"

definition stat_size :: "file_system \<Rightarrow> path \<times> inode \<Rightarrow> int" where
  "stat_size fs = (\<lambda>(q, i). case i_kind i of FileN d \<Rightarrow> int (length d) | _ \<Rightarrow> dir_size fs q)"

section \<open>Calls that change the tree\<close>

definition sys_mkdir :: "file_system \<Rightarrow> path \<Rightarrow> errno + file_system" where
  "sys_mkdir fs p =
     (case locate fs p of
        Inl e \<Rightarrow> Inl e
      | Inr q \<Rightarrow> if node fs q \<noteq> None then Inl EEXIST else Inr (put fs q (new_dir fs)))"

definition sys_rmdir :: "file_system \<Rightarrow> path \<Rightarrow> errno + file_system" where
  "sys_rmdir fs p =
     (case locate fs p of
        Inl e \<Rightarrow> Inl e
      | Inr q \<Rightarrow>
          if q = [] then Inl EBUSY
          else if node fs q = None then Inl ENOENT
          else if \<not> is_dir fs q then Inl ENOTDIR
          else if entries fs q \<noteq> [] then Inl ENOTEMPTY
          else Inr (cut fs q))"

definition sys_unlink :: "file_system \<Rightarrow> path \<Rightarrow> errno + file_system" where
  "sys_unlink fs p =
     (case locate fs p of
        Inl e \<Rightarrow> Inl e
      | Inr q \<Rightarrow>
          if node fs q = None then Inl ENOENT
          else if is_dir fs q then Inl EISDIR
          else Inr (cut fs q))"

definition move :: "file_system \<Rightarrow> path \<Rightarrow> path \<Rightarrow> file_system" where
  "move fs a b =
     fs\<lparr>nodes := map (\<lambda>(k, i). (if prefix a k then b @ drop (length a) k else k, i)) (nodes fs)\<rparr>"

definition sys_rename :: "file_system \<Rightarrow> path \<Rightarrow> path \<Rightarrow> errno + file_system" where
  "sys_rename fs p1 p2 =
     (case locate fs p1 of
        Inl e \<Rightarrow> Inl e
      | Inr a \<Rightarrow>
          (case locate fs p2 of
             Inl e \<Rightarrow> Inl e
           | Inr b \<Rightarrow>
               if a = [] \<or> b = [] then Inl EBUSY
               else if node fs a = None then Inl ENOENT
               else if a = b then Inr fs
               else if prefix a b then Inl EINVAL
               else if prefix b a then Inl ENOTEMPTY
               else if node fs b = None then Inr (move fs a b)
               else if is_dir fs a then
                 (if \<not> is_dir fs b then Inl ENOTDIR
                  else if entries fs b \<noteq> [] then Inl ENOTEMPTY
                  else Inr (move (cut fs b) a b))
               else if is_dir fs b then Inl EISDIR
               else Inr (move (cut fs b) a b)))"

text \<open>Opening for reading gives the contents; for writing, the resolved file, created or truncated.\<close>

definition open_read :: "file_system \<Rightarrow> path \<Rightarrow> errno + bytes" where
  "open_read fs p =
     (case os_stat fs p of
        Inl e \<Rightarrow> Inl e
      | Inr (q, i) \<Rightarrow> (case i_kind i of FileN d \<Rightarrow> Inr d | _ \<Rightarrow> Inl EISDIR))"

definition open_write :: "bool \<Rightarrow> file_system \<Rightarrow> path \<Rightarrow> errno + (path \<times> file_system)" where
  "open_write trunc fs p =
     (case look max_links fs [] p of
        Inl e \<Rightarrow> Inl e
      | Inr q \<Rightarrow>
          (case node fs q of
             None \<Rightarrow> Inr (q, put fs q (new_file fs 438 []))
           | Some i \<Rightarrow>
               (case i_kind i of
                  FileN d \<Rightarrow> Inr (q, if trunc then put fs q (i\<lparr>i_kind := FileN [], i_mtime := now fs\<rparr>) else fs)
                | _ \<Rightarrow> Inl EISDIR)))"

text \<open>Writing through an open descriptor appends to the file it refers to.\<close>

definition write_fd :: "file_system \<Rightarrow> path \<Rightarrow> bytes \<Rightarrow> file_system" where
  "write_fd fs q d =
     (case node fs q of
        Some i \<Rightarrow>
          (case i_kind i of
             FileN old \<Rightarrow> put fs q (i\<lparr>i_kind := FileN (old @ d), i_mtime := now fs\<rparr>)
           | _ \<Rightarrow> fs)
      | None \<Rightarrow> fs)"

text \<open>os.makedirs; a call that fails may leave the ancestors it made.\<close>

function makedirs :: "bool \<Rightarrow> file_system \<Rightarrow> path \<Rightarrow> file_system \<times> exn option" where
  "makedirs exist_ok fs p =
     (let (fs1, r) =
        (if p \<noteq> [] \<and> \<not> path_exists fs (butlast p) then makedirs exist_ok fs (butlast p) else (fs, None))
      in case r of
           Some (OSErr FileExists m) \<Rightarrow>
             (case sys_mkdir fs1 p of
                Inl e \<Rightarrow> (fs1, if exist_ok \<and> path_isdir fs1 p then None else Some (os_error e p))
              | Inr fs2 \<Rightarrow> (fs2, None))
         | Some e \<Rightarrow> (fs1, Some e)
         | None \<Rightarrow>
             (case sys_mkdir fs1 p of
                Inl e \<Rightarrow> (fs1, if exist_ok \<and> path_isdir fs1 p then None else Some (os_error e p))
              | Inr fs2 \<Rightarrow> (fs2, None)))"
  by pat_completeness auto
termination by (relation "measure (\<lambda>(ok, fs, p). length p)") auto

declare makedirs.simps [simp del]

text \<open>
  tempfile.mkstemp: the first of the random names that is free, created with mode 0600. The names
  are the environment's; with none left the call raises FileExistsError.
\<close>

definition temp_path :: "path \<Rightarrow> string \<Rightarrow> string \<Rightarrow> string \<Rightarrow> path" where
  "temp_path d pre suf r = d @ [pre @ r @ suf]"

fun mkstemp :: "file_system \<Rightarrow> path \<Rightarrow> string \<Rightarrow> string \<Rightarrow> string list \<Rightarrow> exn + (path \<times> file_system)" where
  "mkstemp fs d pre suf [] = Inl (OSErr FileExists ''[Errno 17] No usable temporary file name found'')"
| "mkstemp fs d pre suf (r # rs) =
     (case locate fs (temp_path d pre suf r) of
        Inl e \<Rightarrow> Inl (os_error e (temp_path d pre suf r))
      | Inr q \<Rightarrow>
          if node fs q \<noteq> None then mkstemp fs d pre suf rs
          else Inr (temp_path d pre suf r, put fs q (new_file fs 384 [])))"

section \<open>Well-formed trees\<close>

definition fs_wf :: "file_system \<Rightarrow> bool" where
  "fs_wf fs \<longleftrightarrow> distinct (map fst (nodes fs)) \<and> is_dir fs [] \<and>
     list_all (\<lambda>p. p \<noteq> [] \<longrightarrow> is_dir fs (butlast p) \<and> name_ok (last p)) (map fst (nodes fs))"

section \<open>Facts about the tree\<close>

lemma node_put [simp]: "node (put fs p i) = (node fs)(p \<mapsto> i)"
  by (rule ext) (simp add: node_def put_def update_conv')

lemma node_cut [simp]: "node (cut fs p) = (node fs)(p := None)"
  by (rule ext) (simp add: node_def cut_def delete_conv')

lemma node_iff: "node fs p \<noteq> None \<longleftrightarrow> p \<in> fst ` set (nodes fs)"
  by (force simp: node_def map_of_eq_None_iff)

lemma is_dir_put [simp]: "is_dir (put fs p i) q = (if q = p then i_kind i = DirN else is_dir fs q)"
  by (simp add: is_dir_def)

lemma is_dir_cut [simp]: "is_dir (cut fs p) q \<longleftrightarrow> q \<noteq> p \<and> is_dir fs q"
  by (simp add: is_dir_def)

lemma files_put [simp]: "files (put fs p i) = (files fs)(p := kind_data (i_kind i))"
  by (rule ext) (simp add: files_def)

lemma files_cut [simp]: "files (cut fs p) = (files fs)(p := None)"
  by (rule ext) (simp add: files_def)

lemma is_link_put: "is_link (put fs p i) = (is_link fs)(p := (case i_kind i of LinkN t \<Rightarrow> Some t | _ \<Rightarrow> None))"
  by (rule ext) (simp add: is_link_def)

lemma is_link_cut: "is_link (cut fs p) = (is_link fs)(p := None)"
  by (rule ext) (simp add: is_link_def)

lemma is_dir_node: "is_dir fs p \<Longrightarrow> \<exists>i. node fs p = Some i \<and> i_kind i = DirN"
  by (auto simp: is_dir_def split: option.splits)

lemma is_dir_not_file: "is_dir fs p \<Longrightarrow> files fs p = None"
  by (auto simp: files_def dest: is_dir_node)

lemma is_dir_not_link: "is_dir fs p \<Longrightarrow> is_link fs p = None"
  by (auto simp: is_link_def dest: is_dir_node)

text \<open>Well-formedness, said of the lookup function.\<close>

lemma fs_wf_alt:
  "fs_wf fs \<longleftrightarrow> distinct (map fst (nodes fs)) \<and> is_dir fs [] \<and>
     (\<forall>p n. node fs (p @ [n]) \<noteq> None \<longrightarrow> is_dir fs p \<and> name_ok n)"
proof -
  have "list_all (\<lambda>p. p \<noteq> [] \<longrightarrow> is_dir fs (butlast p) \<and> name_ok (last p)) (map fst (nodes fs))
      \<longleftrightarrow> (\<forall>q. node fs q \<noteq> None \<longrightarrow> q \<noteq> [] \<longrightarrow> is_dir fs (butlast q) \<and> name_ok (last q))"
    unfolding list_all_iff set_map Ball_def node_iff by blast
  also have "\<dots> \<longleftrightarrow> (\<forall>p n. node fs (p @ [n]) \<noteq> None \<longrightarrow> is_dir fs p \<and> name_ok n)"
    by (metis append_butlast_last_id butlast_snoc last_snoc snoc_eq_iff_butlast)
  finally show ?thesis by (simp add: fs_wf_def)
qed

lemma wf_parent: "fs_wf fs \<Longrightarrow> node fs (p @ [n]) \<noteq> None \<Longrightarrow> is_dir fs p"
  by (simp add: fs_wf_alt)

lemma wf_root: "fs_wf fs \<Longrightarrow> is_dir fs []"
  by (simp add: fs_wf_alt)

lemma wf_ancestors: "fs_wf fs \<Longrightarrow> is_dir fs (p @ q) \<Longrightarrow> is_dir fs p"
proof (induction q rule: rev_induct)
  case (snoc n q)
  then have "node fs ((p @ q) @ [n]) \<noteq> None" using is_dir_node by fastforce
  with snoc show ?case using wf_parent by blast
qed simp

lemma wf_below: "fs_wf fs \<Longrightarrow> node fs (p @ q) \<noteq> None \<Longrightarrow> q \<noteq> [] \<Longrightarrow> is_dir fs p"
proof -
  assume w: "fs_wf fs" and n: "node fs (p @ q) \<noteq> None" "q \<noteq> []"
  then have "is_dir fs (p @ butlast q)"
    using wf_parent [OF w, of "p @ butlast q" "last q"] by (simp add: append_assoc)
  with w show ?thesis by (rule wf_ancestors)
qed

lemma wf_put:
  assumes "fs_wf fs" "i_kind i = DirN \<or> \<not> is_dir fs p"
    and "p \<noteq> [] \<Longrightarrow> is_dir fs (butlast p) \<and> name_ok (last p)"
  shows "fs_wf (put fs p i)"
  unfolding fs_wf_alt
proof (intro conjI allI impI)
  show "distinct (map fst (nodes (put fs p i)))"
    using assms(1) by (simp add: fs_wf_alt put_def distinct_update)
  show "is_dir (put fs p i) []" using assms(1,2) wf_root by auto
  fix q n assume "node (put fs p i) (q @ [n]) \<noteq> None"
  then have "q @ [n] = p \<or> node fs (q @ [n]) \<noteq> None" by (auto split: if_splits)
  then have "is_dir fs q \<and> name_ok n"
    using assms(1,3) by (auto simp: fs_wf_alt)
  then show "is_dir (put fs p i) q" "name_ok n" using assms(2) by auto
qed

lemma entries_iff: "n \<in> set (entries fs d) \<longleftrightarrow> node fs (d @ [n]) \<noteq> None"
proof
  assume "n \<in> set (entries fs d)"
  then obtain p where "p \<in> fst ` set (nodes fs)" "p \<noteq> []" "butlast p = d" "last p = n"
    by (auto simp: entries_def)
  then show "node fs (d @ [n]) \<noteq> None" unfolding node_iff by (metis append_butlast_last_id)
next
  assume "node fs (d @ [n]) \<noteq> None"
  then show "n \<in> set (entries fs d)" unfolding node_iff entries_def
    by (force intro!: image_eqI [of _ _ "d @ [n]"])
qed

lemma wf_cut:
  assumes "fs_wf fs" "p \<noteq> []" "entries fs p = [] \<or> \<not> is_dir fs p"
  shows "fs_wf (cut fs p)"
  unfolding fs_wf_alt
proof (intro conjI allI impI)
  show "distinct (map fst (nodes (cut fs p)))"
    using assms(1) by (simp add: fs_wf_alt cut_def distinct_delete)
  show "is_dir (cut fs p) []" using assms(1,2) wf_root by auto
  fix q n assume a: "node (cut fs p) (q @ [n]) \<noteq> None"
  then have n: "node fs (q @ [n]) \<noteq> None" by (auto split: if_splits)
  with assms(1) have d: "is_dir fs q" "name_ok n" by (auto simp: fs_wf_alt)
  have "q \<noteq> p" using n d assms(3) entries_iff [of n fs p] by auto
  with d show "is_dir (cut fs p) q" "name_ok n" by auto
qed

section \<open>Lookup of resolved paths\<close>

lemma plain_names: "plain fs p \<Longrightarrow> n \<in> set p \<Longrightarrow> n \<noteq> [] \<and> n \<noteq> ''.'' \<and> n \<noteq> ''..''"
  by (simp add: plain_def)

lemma plain_link: "plain fs (p @ n # q) \<Longrightarrow> is_link fs (p @ [n]) = None"
  unfolding plain_def using less_add_Suc1 [of "length p"]
  by (metis append_Cons append_Nil append_assoc append_eq_conv_conj length_Cons length_append length_append_singleton)

lemma look_plain:
  "fs_wf fs \<Longrightarrow> plain fs (p @ cs) \<Longrightarrow> cs = [] \<or> is_dir fs (p @ butlast cs) \<Longrightarrow> look k fs p cs = Inr (p @ cs)"
proof (induction cs arbitrary: p)
  case (Cons c cs)
  have d: "is_dir fs p" using wf_ancestors [OF Cons.prems(1), of p "butlast (c # cs)"] Cons.prems(3) by simp
  then obtain i where i: "node fs p = Some i" "i_kind i = DirN" by (blast dest: is_dir_node)
  have "c \<noteq> []" "c \<noteq> ''.''" "c \<noteq> ''..''" using plain_names [OF Cons.prems(2)] by simp_all
  moreover have "is_link fs (p @ [c]) = None" by (rule plain_link [OF Cons.prems(2)])
  moreover have "look k fs (p @ [c]) cs = Inr ((p @ [c]) @ cs)"
    by (rule Cons.IH [OF Cons.prems(1)]) (use Cons.prems in \<open>auto split: if_splits\<close>)
  ultimately show ?case using i by simp
qed simp

lemma look_plain_error:
  "fs_wf fs \<Longrightarrow> plain fs (p @ cs) \<Longrightarrow> cs \<noteq> [] \<Longrightarrow> \<not> is_dir fs (p @ butlast cs) \<Longrightarrow>
     \<exists>e. look k fs p cs = Inl e \<and> e \<in> {ENOENT, ENOTDIR}"
proof (induction cs arbitrary: p)
  case (Cons c cs)
  have nm: "c \<noteq> []" "c \<noteq> ''.''" "c \<noteq> ''..''" using plain_names [OF Cons.prems(2)] by simp_all
  have l: "is_link fs (p @ [c]) = None" by (rule plain_link [OF Cons.prems(2)])
  show ?case
  proof (cases "is_dir fs p")
    case True
    then have "cs \<noteq> []" using Cons.prems(4) by auto
    with Cons.IH [of "p @ [c]"] Cons.prems have "\<exists>e. look k fs (p @ [c]) cs = Inl e \<and> e \<in> {ENOENT, ENOTDIR}"
      by simp
    with True nm l show ?thesis by (auto dest!: is_dir_node)
  next
    case False
    then show ?thesis by (auto simp: is_dir_def split: option.splits)
  qed
qed simp

lemma follow_plain:
  assumes "fs_wf fs" "plain fs p"
  shows "follow fs p = Inr p \<longleftrightarrow> node fs p \<noteq> None" "node fs p = None \<Longrightarrow> \<exists>e. follow fs p = Inl e"
proof -
  have "node fs p \<noteq> None \<Longrightarrow> p = [] \<or> is_dir fs (butlast p)"
    using wf_parent [OF assms(1), of "butlast p" "last p"] by (cases p) auto
  moreover have "p = [] \<or> is_dir fs (butlast p) \<Longrightarrow> look max_links fs [] p = Inr p"
    using look_plain [OF assms(1), of "[]" p] assms(2) by simp
  moreover have "p \<noteq> [] \<and> \<not> is_dir fs (butlast p) \<Longrightarrow> \<exists>e. look max_links fs [] p = Inl e"
    using look_plain_error [OF assms(1), of "[]" p] assms(2) by auto
  ultimately show "follow fs p = Inr p \<longleftrightarrow> node fs p \<noteq> None" "node fs p = None \<Longrightarrow> \<exists>e. follow fs p = Inl e"
    unfolding follow_def by (cases "look max_links fs [] p"; fastforce split: if_splits)+
qed

lemma os_stat_plain:
  assumes "fs_wf fs" "plain fs p"
  shows "(\<exists>r. os_stat fs p = Inr r) \<longleftrightarrow> node fs p \<noteq> None"
    and "node fs p = Some i \<Longrightarrow> os_stat fs p = Inr (p, i)"
  using follow_plain [OF assms] by (auto simp: os_stat_def split: sum.splits option.splits)

lemma exists_plain: "fs_wf fs \<Longrightarrow> plain fs p \<Longrightarrow> path_exists fs p \<longleftrightarrow> node fs p \<noteq> None"
  using os_stat_plain(1) [of fs p] by (auto simp: path_exists_def split: sum.splits)

lemma os_stat_plain_None: "fs_wf fs \<Longrightarrow> plain fs p \<Longrightarrow> node fs p = None \<Longrightarrow> \<exists>e. os_stat fs p = Inl e"
  using os_stat_plain(1) [of fs p] by (cases "os_stat fs p") auto

lemma isdir_plain: "fs_wf fs \<Longrightarrow> plain fs p \<Longrightarrow> path_isdir fs p \<longleftrightarrow> is_dir fs p"
  using os_stat_plain(2) [of fs p] os_stat_plain_None [of fs p]
  by (cases "node fs p") (auto simp: path_isdir_def is_dir_def)

lemma isfile_plain: "fs_wf fs \<Longrightarrow> plain fs p \<Longrightarrow> path_isfile fs p \<longleftrightarrow> files fs p \<noteq> None"
  using os_stat_plain(2) [of fs p] os_stat_plain_None [of fs p]
  by (cases "node fs p") (auto simp: path_isfile_def files_def)

lemma read_plain: "fs_wf fs \<Longrightarrow> plain fs p \<Longrightarrow> files fs p = Some d \<Longrightarrow> open_read fs p = Inr d"
  using os_stat_plain(2) [of fs p]
  by (auto simp: open_read_def files_def split: option.splits kind.splits elim: kind_data.elims)

lemma locate_plain:
  assumes "fs_wf fs" "plain fs p"
  shows "locate fs p = Inr q \<longleftrightarrow> q = p \<and> (p = [] \<or> is_dir fs (butlast p))"
proof (cases "p = []")
  case False
  have b: "plain fs (butlast p)" by (rule plain_butlast [OF assms(2)])
  show ?thesis
  proof (cases "node fs (butlast p)")
    case None
    then show ?thesis using follow_plain(2) [OF assms(1) b] False
      by (auto simp: locate_def is_dir_def)
  next
    case (Some i)
    then have "follow fs (butlast p) = Inr (butlast p)" using follow_plain(1) [OF assms(1) b] by simp
    then show ?thesis using False by (auto simp: locate_def)
  qed
qed (auto simp: locate_def)

section \<open>Renaming\<close>

lemma map_of_rename:
  "inj_on f (insert k (fst ` set xs)) \<Longrightarrow> map_of (map (\<lambda>(k, v). (f k, v)) xs) (f k) = map_of xs k"
proof (induction xs)
  case (Cons x xs)
  obtain k' v where x: "x = (k', v)" by (cases x)
  have "inj_on f (insert k (fst ` set xs))" by (rule inj_on_subset [OF Cons.prems]) auto
  moreover have "f k' = f k \<longleftrightarrow> k' = k" using Cons.prems x by (auto simp: inj_on_def)
  ultimately show ?case using Cons.IH x by (cases "k = k'") auto
qed simp

definition moved :: "path \<Rightarrow> path \<Rightarrow> path \<Rightarrow> path" where
  "moved a b k = (if prefix a k then b @ drop (length a) k else k)"

lemma moved_inj: "inj_on (moved a b) {k. \<not> prefix b k}"
proof (rule inj_onI)
  fix k l assume "k \<in> {k. \<not> prefix b k}" "l \<in> {k. \<not> prefix b k}" "moved a b k = moved a b l"
  then show "k = l" by (auto simp: moved_def prefix_def split: if_splits)
qed

lemma nodes_move: "nodes (move fs a b) = map (\<lambda>(k, i). (moved a b k, i)) (nodes fs)"
  by (simp add: move_def moved_def)

lemma free_keys: "(\<forall>q. prefix b q \<longrightarrow> node fs q = None) \<Longrightarrow> fst ` set (nodes fs) \<subseteq> {k. \<not> prefix b k}"
  using node_iff [of fs] by blast

lemma node_move:
  assumes "\<forall>q. prefix b q \<longrightarrow> node fs q = None" "\<not> prefix b a"
  shows "node (move fs a b) q =
    (if prefix b q then node fs (a @ drop (length b) q) else if prefix a q then None else node fs q)"
proof -
  have inj: "inj_on (moved a b) (insert k (fst ` set (nodes fs)))" if "\<not> prefix b k" for k
    by (rule inj_on_subset [OF moved_inj]) (use that free_keys [OF assms(1)] in auto)
  have same: "node (move fs a b) (moved a b k) = node fs k" if "\<not> prefix b k" for k
    using map_of_rename [OF inj [OF that]] by (simp add: node_def nodes_move)
  show ?thesis
  proof (cases "prefix b q")
    case True
    let ?k = "a @ drop (length b) q"
    have e: "moved a b ?k = q" using True by (auto simp: moved_def prefix_def)
    show ?thesis
    proof (cases "prefix b ?k")
      case False
      with same [OF this] e True show ?thesis by simp
    next
      case p: True
      have "node (move fs a b) q = None"
      proof (rule ccontr)
        assume "node (move fs a b) q \<noteq> None"
        then obtain k where k: "k \<in> fst ` set (nodes fs)" "moved a b k = q"
          unfolding node_iff nodes_move by force
        then have "\<not> prefix b k" using free_keys [OF assms(1)] by blast
        with k True have "k = ?k" by (auto simp: moved_def prefix_def split: if_splits)
        with p \<open>\<not> prefix b k\<close> show False by simp
      qed
      with p assms(1) True show ?thesis by simp
    qed
  next
    case nb: False
    show ?thesis
    proof (cases "prefix a q")
      case False
      then have "moved a b q = q" by (simp add: moved_def)
      with same [OF nb] False nb show ?thesis by simp
    next
      case True
      have "node (move fs a b) q = None"
      proof (rule ccontr)
        assume "node (move fs a b) q \<noteq> None"
        then obtain k where k: "moved a b k = q" unfolding node_iff nodes_move by force
        show False
        proof (cases "prefix a k")
          case True
          with k nb show ?thesis by (simp add: moved_def prefix_def) (metis)
        next
          case False
          with k \<open>prefix a q\<close> show ?thesis by (simp add: moved_def)
        qed
      qed
      with True nb show ?thesis by simp
    qed
  qed
qed

lemma is_dir_move:
  assumes "\<forall>q. prefix b q \<longrightarrow> node fs q = None" "\<not> prefix b a"
  shows "is_dir (move fs a b) q =
    (if prefix b q then is_dir fs (a @ drop (length b) q) else \<not> prefix a q \<and> is_dir fs q)"
  by (simp add: is_dir_def node_move [OF assms])

lemma wf_free: "fs_wf fs \<Longrightarrow> \<not> is_dir fs p \<Longrightarrow> node fs p = None \<Longrightarrow> prefix p q \<Longrightarrow> node fs q = None"
  using wf_below [of fs p] by (cases "q = p") (auto simp: prefix_def)

lemma wf_move:
  assumes w: "fs_wf fs" and fb: "node fs b = None" and ab: "\<not> prefix a b" "\<not> prefix b a"
    and d: "b \<noteq> []" "is_dir fs (butlast b)" "name_ok (last b)"
  shows "fs_wf (move fs a b)"
proof -
  have free: "\<forall>q. prefix b q \<longrightarrow> node fs q = None"
    using wf_free [OF w _ fb] fb by (auto simp: is_dir_def)
  have an: "a \<noteq> []" using ab by auto
  note nm = node_move [OF free ab(2)] and dm = is_dir_move [OF free ab(2)]
  have dist: "distinct (map fst (nodes (move fs a b)))"
  proof -
    have "map fst (nodes (move fs a b)) = map (moved a b) (map fst (nodes fs))"
      by (simp add: nodes_move split_def)
    moreover have "inj_on (moved a b) (set (map fst (nodes fs)))"
      by (rule inj_on_subset [OF moved_inj]) (use free_keys [OF free] in auto)
    ultimately show ?thesis using w by (simp only: distinct_map fs_wf_alt)
  qed
  have parent: "is_dir (move fs a b) q \<and> name_ok n" if q: "node (move fs a b) (q @ [n]) \<noteq> None" for q n
  proof (cases "prefix b (q @ [n])")
    case True
    show ?thesis
    proof (cases "q @ [n] = b")
      case True
      then have "q = butlast b" "n = last b" by auto
      moreover have "\<not> prefix a (butlast b)" using ab(1) by (metis prefix_order.trans prefixeq_butlast)
      moreover have "\<not> prefix b (butlast b)" using d(1) by (metis append_butlast_last_id not_Cons_self2
            prefix_order.antisym prefixeq_butlast append_self_conv)
      ultimately show ?thesis using dm d by simp
    next
      case False
      with True have pb: "prefix b q" by (metis butlast_snoc prefix_snoc)
      then obtain s where s: "q = b @ s" by (auto simp: prefix_def)
      from q True have "node fs ((a @ s) @ [n]) \<noteq> None" unfolding nm s by simp
      then have "is_dir fs (a @ s) \<and> name_ok n" using w unfolding fs_wf_alt by blast
      with pb s show ?thesis by (simp add: dm)
    qed
  next
    case False
    then have nb: "\<not> prefix b q" by (auto simp: prefix_def)
    from False q have na: "\<not> prefix a (q @ [n])" and n: "node fs (q @ [n]) \<noteq> None"
      by (auto simp: nm split: if_splits)
    from na have "\<not> prefix a q" by (auto simp: prefix_def)
    moreover have "is_dir fs q \<and> name_ok n" using w n unfolding fs_wf_alt by blast
    ultimately show ?thesis using nb by (simp add: dm)
  qed
  have "is_dir (move fs a b) []" using wf_root [OF w] d(1) an by (simp add: dm)
  with dist parent show ?thesis by (simp add: fs_wf_alt)
qed

section \<open>The calls on resolved paths\<close>

lemma mkdir_plain:
  assumes "fs_wf fs" "plain fs p" "sys_mkdir fs p = Inr fs'"
  shows "fs' = put fs p (new_dir fs)" "node fs p = None" "p \<noteq> []" "is_dir fs (butlast p)"
proof -
  obtain q where q: "locate fs p = Inr q" using assms(3) by (auto simp: sys_mkdir_def split: sum.splits)
  with locate_plain [OF assms(1,2), of q] have "q = p" "p = [] \<or> is_dir fs (butlast p)" by simp_all
  with q assms show "fs' = put fs p (new_dir fs)" "node fs p = None" "p \<noteq> []" "is_dir fs (butlast p)"
    using wf_root [OF assms(1)] by (auto simp: sys_mkdir_def is_dir_def split: if_splits)
qed

lemma rmdir_plain:
  assumes "fs_wf fs" "plain fs p" "sys_rmdir fs p = Inr fs'"
  shows "fs' = cut fs p" "is_dir fs p" "entries fs p = []" "p \<noteq> []"
proof -
  obtain q where q: "locate fs p = Inr q" using assms(3) by (auto simp: sys_rmdir_def split: sum.splits)
  with locate_plain [OF assms(1,2), of q] have "q = p" by simp
  with q assms(3) show "fs' = cut fs p" "is_dir fs p" "entries fs p = []" "p \<noteq> []"
    by (auto simp: sys_rmdir_def split: if_splits)
qed

lemma unlink_plain:
  assumes "fs_wf fs" "plain fs p" "sys_unlink fs p = Inr fs'"
  shows "fs' = cut fs p" "\<not> is_dir fs p" "node fs p \<noteq> None" "p \<noteq> []"
proof -
  obtain q where q: "locate fs p = Inr q" using assms(3) by (auto simp: sys_unlink_def split: sum.splits)
  with locate_plain [OF assms(1,2), of q] have "q = p" by simp
  with q assms(3) show "fs' = cut fs p" "\<not> is_dir fs p" "node fs p \<noteq> None"
    by (auto simp: sys_unlink_def split: if_splits)
  then show "p \<noteq> []" using wf_root [OF assms(1)] by auto
qed

lemma rename_plain:
  assumes "fs_wf fs" "plain fs a" "plain fs b" "sys_rename fs a b = Inr fs'" "node fs b = None"
  shows "fs' = move fs a b" "node fs a \<noteq> None" "\<not> prefix a b" "\<not> prefix b a" "a \<noteq> []" "b \<noteq> []"
    "is_dir fs (butlast b)"
proof -
  obtain x y where q: "locate fs a = Inr x" "locate fs b = Inr y"
    using assms(4) by (auto simp: sys_rename_def split: sum.splits)
  have xy: "x = a" "y = b" "b = [] \<or> is_dir fs (butlast b)"
    using q locate_plain [OF assms(1,2), of x] locate_plain [OF assms(1,3), of y] by simp_all
  show "fs' = move fs a b" "node fs a \<noteq> None" "\<not> prefix a b" "\<not> prefix b a" "a \<noteq> []" "b \<noteq> []"
    "is_dir fs (butlast b)"
    using assms(4,5) q xy by (auto simp: sys_rename_def split: if_splits)
qed

text \<open>A tree that differs from another only below a directory.\<close>

definition same_outside :: "path \<Rightarrow> file_system \<Rightarrow> file_system \<Rightarrow> bool" where
  "same_outside r fs fs' \<longleftrightarrow> (\<forall>q. \<not> prefix r q \<longrightarrow> node fs' q = node fs q)"

lemma same_outside_refl [simp]: "same_outside r fs fs"
  by (simp add: same_outside_def)

lemma same_outside_trans: "same_outside r a b \<Longrightarrow> same_outside r b c \<Longrightarrow> same_outside r a c"
  by (simp add: same_outside_def)

lemma same_outside_put: "prefix r p \<Longrightarrow> same_outside r fs (put fs p i)"
  by (auto simp: same_outside_def)

lemma same_outside_cut: "prefix r p \<Longrightarrow> same_outside r fs (cut fs p)"
  by (auto simp: same_outside_def)

lemma same_outside_move:
  assumes "\<forall>q. prefix b q \<longrightarrow> node fs q = None" "\<not> prefix b a" "prefix r a" "prefix r b"
  shows "same_outside r fs (move fs a b)"
  unfolding same_outside_def node_move [OF assms(1,2)] using assms(3,4) by (auto intro: prefix_order.trans)

lemma is_dir_outside: "same_outside r fs fs' \<Longrightarrow> \<not> prefix r q \<Longrightarrow> is_dir fs' q = is_dir fs q"
  by (simp add: same_outside_def is_dir_def)

text \<open>Renaming a file onto a name that is free or another file.\<close>

lemma rename_file:
  assumes w: "fs_wf fs" and pl: "plain fs a" "plain fs b"
    and fa: "files fs a = Some d" and b: "\<not> is_dir fs b" "b \<noteq> []" "is_dir fs (butlast b)" "name_ok (last b)"
    and ab: "\<not> prefix a b" "\<not> prefix b a"
  shows "\<exists>fs'. sys_rename fs a b = Inr fs' \<and> node fs' = (node fs)(b := node fs a, a := None) \<and> fs_wf fs'"
proof -
  have na: "node fs a \<noteq> None" "\<not> is_dir fs a" using fa by (auto simp: files_def is_dir_def split: option.splits)
  have an: "a \<noteq> []" using na wf_root [OF w] by auto
  have pa: "is_dir fs (butlast a)" using wf_parent [OF w, of "butlast a" "last a"] na an by simp
  have loc: "locate fs a = Inr a" "locate fs b = Inr b"
    using locate_plain [OF w pl(1), of a] locate_plain [OF w pl(2), of b] pa b(3) by simp_all
  define g where "g = (if node fs b = None then fs else cut fs b)"
  have ren: "sys_rename fs a b = Inr (move g a b)"
    using loc an b ab na by (auto simp: sys_rename_def g_def)
  have wg: "fs_wf g" using wf_cut [OF w b(2)] b(1) w by (auto simp: g_def)
  have gb: "node g b = None" by (simp add: g_def)
  have ng: "node g = (node fs)(b := None)" by (auto simp: g_def)
  have dg: "is_dir g (butlast b)"
  proof -
    have "butlast b \<noteq> b" using b(2) by (metis append_butlast_last_id not_Cons_self2 append_self_conv)
    then show ?thesis using b(3) by (auto simp: g_def)
  qed
  have free: "\<forall>q. prefix b q \<longrightarrow> node g q = None"
    using wf_free [OF wg _ gb] gb by (auto simp: is_dir_def)
  have alone: "node g (a @ s) = None" if "s \<noteq> []" for s
  proof (rule ccontr)
    assume "node g (a @ s) \<noteq> None"
    then have "is_dir g a" using wf_below [OF wg _ that] by blast
    then show False using na by (auto simp: g_def split: if_splits)
  qed
  have "node (move g a b) q = ((node fs)(b := node fs a, a := None)) q" for q
  proof (cases "prefix b q")
    case True
    then obtain s where s: "q = b @ s" by (auto simp: prefix_def)
    have "q \<noteq> a" using True ab(2) by auto
    show ?thesis
    proof (cases "s = []")
      case True
      then show ?thesis using s ab \<open>q \<noteq> a\<close> by (simp add: node_move [OF free ab(2)] ng)
    next
      case False
      have "node g q = None" using free True by blast
      then have "node fs q = None" using s False by (simp add: ng)
      then show ?thesis using s False \<open>q \<noteq> a\<close> True alone [OF False] by (simp add: node_move [OF free ab(2)])
    qed
  next
    case nb: False
    then have "q \<noteq> b" by auto
    show ?thesis
    proof (cases "prefix a q")
      case True
      then obtain s where s: "q = a @ s" by (auto simp: prefix_def)
      have "s \<noteq> [] \<Longrightarrow> node fs q = None" using alone [of s] s \<open>q \<noteq> b\<close> by (simp add: ng)
      then show ?thesis using nb s \<open>q \<noteq> b\<close> by (cases "s = []") (simp_all add: node_move [OF free ab(2)])
    next
      case False
      then have "q \<noteq> a" by auto
      then show ?thesis using nb False \<open>q \<noteq> b\<close> by (simp add: node_move [OF free ab(2)] ng)
    qed
  qed
  moreover have "fs_wf (move g a b)" by (rule wf_move [OF wg gb ab b(2) dg b(4)])
  ultimately show ?thesis using ren by blast
qed

lemma mkstemp_effect:
  assumes "fs_wf fs" "plain fs d" "is_dir fs d"
  shows "mkstemp fs d pre suf rs = Inr (t, fs1) \<Longrightarrow>
    \<exists>r\<in>set rs. t = d @ [pre @ r @ suf] \<and> node fs t = None \<and> fs1 = put fs t (new_file fs 384 [])"
proof (induction rs)
  case (Cons r rs)
  have "follow fs d = Inr d" using follow_plain(1) [OF assms(1,2)] assms(3) by (auto simp: is_dir_def split: option.splits)
  then have "locate fs (d @ [pre @ r @ suf]) = Inr (d @ [pre @ r @ suf])" using assms(3) by (simp add: locate_def)
  with Cons show ?case by (auto simp: temp_path_def split: if_splits)
qed simp

end
