(* ===== verification/Dir_Manager.thy ===== *)
theory Dir_Manager
  imports Files "HOL-Library.Char_ord" "HOL-Library.List_Lexorder" "HOL-Library.Product_Lexorder"
begin

text \<open>
  src/common/dir_manager.py: the path checks that keep clients inside the FTP root, and the
  directory operations of the command handlers. Paths are absolute and given by components.
  The operations return the tree after the call together with a result or the exception raised.
\<close>

section \<open>Path checks\<close>

definition validate_path :: "file_system \<Rightarrow> path \<Rightarrow> path \<Rightarrow> bool" where
  "validate_path fs base_dir target_path =
     (let real_base = path_str (realpath fs base_dir);
          real_target = path_str (realpath fs target_path)
      in real_target = real_base \<or> starts_with real_target (real_base @ [slash]))"

definition permission_error :: "string \<Rightarrow> exn" where
  "permission_error m = OSErr PermissionDenied m"

definition lstrip_separators :: "string \<Rightarrow> string" where
  "lstrip_separators s = dropWhile (\<lambda>c. c = slash \<or> ord_char c = 92) s"

text \<open>The components of the path a request names, before links are resolved.\<close>

definition request_names :: "path \<Rightarrow> path \<Rightarrow> string \<Rightarrow> string list" where
  "request_names base_dir cwd relative_path =
     (if relative_path = [] then cwd
      else if starts_with relative_path [slash] then base_dir @ split_on slash (lstrip_separators relative_path)
      else cwd @ split_on slash relative_path)"

definition resolve_path :: "file_system \<Rightarrow> path \<Rightarrow> path \<Rightarrow> string \<Rightarrow> exn + path" where
  "resolve_path fs base_dir cwd relative_path =
     (if relative_path = [] then
        let resolved_cwd = realpath fs cwd in
        if validate_path fs base_dir resolved_cwd then Inr resolved_cwd
        else Inl (permission_error ''Current directory is outside the FTP root.'')
      else if char_of (0::nat) \<in> set relative_path then Inl (ValueError ''embedded null byte'')
      else
        let resolved = realpath fs (request_names base_dir cwd relative_path) in
        if validate_path fs base_dir resolved then Inr resolved
        else Inl (permission_error
          (''Access denied: path '' @ [char_of (39::nat)] @ relative_path @ [char_of (39::nat)]
            @ '' is outside the FTP root directory.'')))"

section \<open>Formatting\<close>

definition quoted :: "path \<Rightarrow> string" where
  "quoted p = [char_of (39::nat)] @ path_str p @ [char_of (39::nat)]"

definition mode_flag :: "int \<Rightarrow> int \<Rightarrow> char \<Rightarrow> char" where
  "mode_flag mode perm c = (if mode AND perm \<noteq> 0 then c else CHR ''-'')"

definition format_permissions :: "int \<Rightarrow> string" where
  "format_permissions mode =
     [mode_flag mode 256 (CHR ''r''), mode_flag mode 128 (CHR ''w''), mode_flag mode 64 (CHR ''x''),
      mode_flag mode 32 (CHR ''r''), mode_flag mode 16 (CHR ''w''), mode_flag mode 8 (CHR ''x''),
      mode_flag mode 4 (CHR ''r''), mode_flag mode 2 (CHR ''w''), mode_flag mode 1 (CHR ''x'')]"

text \<open>The calendar of time.localtime: the year, month and day of a day counted from 1970-01-01.\<close>

definition civil_of_days :: "int \<Rightarrow> int \<times> int \<times> int" where
  "civil_of_days days =
     (let z = days + 719468;
          era = z div 146097;
          doe = z mod 146097;
          yoe = (doe - doe div 1460 + doe div 36524 - doe div 146096) div 365;
          doy = doe - (365 * yoe + yoe div 4 - yoe div 100);
          mp = (5 * doy + 2) div 153;
          d = doy - (153 * mp + 2) div 5 + 1;
          m = (if mp < 10 then mp + 3 else mp - 9)
      in (yoe + era * 400 + (if m \<le> 2 then 1 else 0), m, d))"

definition pad2 :: "int \<Rightarrow> string" where
  "pad2 n = [digit_char (nat (n div 10)), digit_char (nat (n mod 10))]"

definition format_mtime :: "file_system \<Rightarrow> int \<Rightarrow> string" where
  "format_mtime fs timestamp =
     (let local = timestamp + zone fs timestamp;
          (y, m, d) = civil_of_days (local div 86400);
          s = local mod 86400
      in show_int y @ pad2 m @ pad2 d @ pad2 (s div 3600) @ pad2 (s div 60 mod 60) @ pad2 (s mod 60))"

section \<open>Listings\<close>

record entry =
  e_name :: string
  e_size :: int
  e_type :: string
  e_permissions :: string
  e_modified :: string

definition lower_char :: "char \<Rightarrow> char" where
  "lower_char c = (if 65 \<le> ord_char c \<and> ord_char c \<le> 90 then char_of (ord_char c + 32) else c)"

definition ascii_lower :: "string \<Rightarrow> string" where
  "ascii_lower s = map lower_char s"

definition in_base :: "file_system \<Rightarrow> path option \<Rightarrow> path \<Rightarrow> bool" where
  "in_base fs base_dir p = (case base_dir of None \<Rightarrow> True | Some b \<Rightarrow> validate_path fs b p)"

text \<open>os.scandir: the names in the directory the path leads to, in the system's order.\<close>

definition scandir :: "file_system \<Rightarrow> path \<Rightarrow> string list" where
  "scandir fs path = (case follow fs path of Inl e \<Rightarrow> [] | Inr d \<Rightarrow> entries fs d)"

text \<open>One entry of the loop: None when it is skipped, outside the root or not readable.\<close>

definition list_entry :: "file_system \<Rightarrow> path option \<Rightarrow> path \<Rightarrow> string \<Rightarrow> entry option" where
  "list_entry fs base_dir path name =
     (if \<not> in_base fs base_dir (path @ [name]) then None
      else case os_stat fs (path @ [name]) of
             Inl e \<Rightarrow> None
           | Inr st \<Rightarrow>
               Some \<lparr>e_name = name,
                     e_size = (if kind_data (i_kind (snd st)) \<noteq> None then stat_size fs st else 0),
                     e_type = (if i_kind (snd st) = DirN then ''dir'' else ''file''),
                     e_permissions = format_permissions (i_mode (snd st)),
                     e_modified = format_mtime fs (i_mtime (snd st))\<rparr>)"

definition directory_check :: "file_system \<Rightarrow> path \<Rightarrow> exn option" where
  "directory_check fs path =
     (if \<not> path_isdir fs path then
        (if path_exists fs path then Some (OSErr NotADirectory (''Not a directory: '' @ quoted path))
         else Some (OSErr FileNotFound (''Directory not found: '' @ quoted path)))
      else None)"

definition list_directory :: "file_system \<Rightarrow> path \<Rightarrow> path option \<Rightarrow> exn + entry list" where
  "list_directory fs path base_dir =
     (case directory_check fs path of
        Some e \<Rightarrow> Inl e
      | None \<Rightarrow>
          Inr (sort_key (\<lambda>e. (e_type e \<noteq> ''dir'', ascii_lower (e_name e)))
                (List.map_filter (list_entry fs base_dir path) (scandir fs path))))"

definition list_names :: "file_system \<Rightarrow> path \<Rightarrow> path option \<Rightarrow> exn + string list" where
  "list_names fs path base_dir =
     (case directory_check fs path of
        Some e \<Rightarrow> Inl e
      | None \<Rightarrow> Inr (sort_key ascii_lower (filter (\<lambda>n. in_base fs base_dir (path @ [n])) (scandir fs path))))"

section \<open>Directories\<close>

definition sys_call :: "file_system \<Rightarrow> path \<Rightarrow> errno + file_system \<Rightarrow> unit outcome" where
  "sys_call fs p r = (case r of Inl e \<Rightarrow> (fs, Inl (os_error e p)) | Inr fs' \<Rightarrow> (fs', Inr ()))"

definition make_directory :: "file_system \<Rightarrow> path \<Rightarrow> path \<Rightarrow> path outcome" where
  "make_directory fs base_dir path =
     (if \<not> validate_path fs base_dir (butlast path) then
        (fs, Inl (permission_error ''Access denied: cannot create directory outside FTP root.''))
      else if path_exists fs path then
        (fs, Inl (OSErr FileExists (''Directory already exists: '' @ quoted path)))
      else
        (case makedirs False fs path of
           (fs', Some e) \<Rightarrow> (fs', Inl e)
         | (fs', None) \<Rightarrow> (fs', Inr (realpath fs' path))))"

definition remove_directory :: "file_system \<Rightarrow> path \<Rightarrow> path \<Rightarrow> unit outcome" where
  "remove_directory fs base_dir path =
     (if \<not> validate_path fs base_dir path then
        (fs, Inl (permission_error ''Access denied: cannot remove directory outside FTP root.''))
      else if realpath fs path = realpath fs base_dir then
        (fs, Inl (permission_error ''Cannot remove the FTP root directory.''))
      else if \<not> path_exists fs path then
        (fs, Inl (OSErr FileNotFound (''Directory not found: '' @ quoted path)))
      else if \<not> path_isdir fs path then
        (fs, Inl (OSErr NotADirectory (''Not a directory: '' @ quoted path)))
      else sys_call fs path (sys_rmdir fs path))"

section \<open>Entries\<close>

definition base_name :: "path \<Rightarrow> string" where
  "base_name p = (if p = [] then [] else last p)"

definition get_entry_info :: "file_system \<Rightarrow> path \<Rightarrow> path option \<Rightarrow> exn + entry" where
  "get_entry_info fs path base_dir =
     (if \<not> in_base fs base_dir path then Inl (permission_error ''Access denied: path outside FTP root.'')
      else if \<not> path_exists fs path then Inl (OSErr FileNotFound (''Path not found: '' @ quoted path))
      else case os_stat fs path of
             Inl e \<Rightarrow> Inl (os_error e path)
           | Inr st \<Rightarrow>
               Inr \<lparr>e_name = base_name path, e_size = stat_size fs st,
                    e_type = (if path_isdir fs path then ''dir'' else ''file''),
                    e_permissions = format_permissions (i_mode (snd st)),
                    e_modified = format_mtime fs (i_mtime (snd st))\<rparr>)"

definition delete_file :: "file_system \<Rightarrow> path \<Rightarrow> path \<Rightarrow> unit outcome" where
  "delete_file fs base_dir path =
     (if \<not> validate_path fs base_dir path then
        (fs, Inl (permission_error ''Access denied: path outside FTP root.''))
      else if \<not> path_exists fs path then
        (fs, Inl (OSErr FileNotFound (''File not found: '' @ quoted path)))
      else if path_isdir fs path then
        (fs, Inl (OSErr IsADirectory (quoted path @ '' is a directory. Use RMD to remove directories.'')))
      else sys_call fs path (sys_unlink fs path))"

definition rename_entry :: "file_system \<Rightarrow> path \<Rightarrow> path \<Rightarrow> path \<Rightarrow> unit outcome" where
  "rename_entry fs base_dir old_path new_path =
     (if \<not> validate_path fs base_dir old_path then
        (fs, Inl (permission_error ''Access denied: source path outside FTP root.''))
      else if \<not> validate_path fs base_dir new_path then
        (fs, Inl (permission_error ''Access denied: destination path outside FTP root.''))
      else if \<not> path_exists fs old_path then
        (fs, Inl (OSErr FileNotFound (''Source not found: '' @ quoted old_path)))
      else if path_exists fs new_path then
        (fs, Inl (OSErr FileExists (''Destination already exists: '' @ quoted new_path)))
      else
        (case sys_rename fs old_path new_path of
           Inl e \<Rightarrow> (fs, Inl (os_error2 e old_path new_path))
         | Inr fs' \<Rightarrow> (fs', Inr ())))"

section \<open>Containment\<close>

lemma validate_path_iff:
  assumes "slashless b" "slashless t" "realpath fs b \<noteq> []"
  shows "validate_path fs b t \<longleftrightarrow> prefix (realpath fs b) (realpath fs t)"
  using path_str_prefix [OF realpath_names_ok [OF assms(1)] realpath_names_ok [OF assms(2)] assms(3)]
  by (simp add: validate_path_def)

text \<open>The root directory of the file system as FTP root: the separator is doubled, nothing below it passes.\<close>

lemma validate_path_slash:
  assumes "slashless t" "validate_path fs [] t"
  shows "realpath fs t = []"
proof (rule ccontr)
  assume ne: "realpath fs t \<noteq> []"
  then obtain c q where r: "realpath fs t = c # q" by (cases "realpath fs t") auto
  have b: "realpath fs [] = []" by (simp add: realpath_def)
  have "name_ok c" using realpath_names_ok [OF assms(1), of fs] r by simp
  then obtain x xs where c: "c = x # xs" "x \<noteq> slash" by (cases c) (auto simp: name_ok_def)
  have "path_str [] = [slash]" by (simp add: path_str_def)
  with assms(2) b have "starts_with (path_str (c # q)) [slash, slash] \<or> path_str (c # q) = [slash]"
    unfolding validate_path_def r by (auto simp: Let_def)
  with c show False by (auto simp: path_str_def starts_with_def)
qed

text \<open>An FTP root: a directory given by its resolved path, not the root of the file system.\<close>

definition good_root :: "file_system \<Rightarrow> path \<Rightarrow> bool" where
  "good_root fs b \<longleftrightarrow> fs_wf fs \<and> plain fs b \<and> names_ok b \<and> b \<noteq> [] \<and> is_dir fs b"

lemma good_root_real: "good_root fs b \<Longrightarrow> realpath fs b = b"
  by (simp add: good_root_def realpath_plain)

lemma validate_good:
  "good_root fs b \<Longrightarrow> slashless t \<Longrightarrow> validate_path fs b t \<longleftrightarrow> prefix b (realpath fs t)"
  using validate_path_iff [of b t fs] good_root_real [of fs b]
  by (simp add: good_root_def names_ok_slashless)

lemma request_slashless: "slashless b \<Longrightarrow> slashless cwd \<Longrightarrow> slashless (request_names b cwd rel)"
  by (simp add: request_names_def)

text \<open>A path inside the root with no link left in it.\<close>

definition inside :: "file_system \<Rightarrow> path \<Rightarrow> path \<Rightarrow> bool" where
  "inside fs b p \<longleftrightarrow> plain fs p \<and> names_ok p \<and> prefix b p"

lemma resolve_path_inside:
  assumes "good_root fs b" "slashless cwd" "resolves fs (request_names b cwd rel)"
    and "resolve_path fs b cwd rel = Inr p"
  shows "inside fs b p"
proof -
  have sl: "slashless (request_names b cwd rel)"
    using request_slashless assms(1,2) by (simp add: good_root_def names_ok_slashless)
  have p: "p = realpath fs (request_names b cwd rel)" "validate_path fs b p"
    using assms(4) by (auto simp: resolve_path_def Let_def request_names_def split: if_splits)
  have pl: "plain fs p" using resolves_plain [OF assms(3)] p by simp
  have ok: "names_ok p" using realpath_names_ok [OF sl] p by simp
  have "prefix b (realpath fs p)" using validate_good [OF assms(1) names_ok_slashless [OF ok]] p by simp
  then show ?thesis using pl ok realpath_plain [OF pl] by (simp add: inside_def)
qed

lemma insideD: "inside fs b p \<Longrightarrow> plain fs p" "inside fs b p \<Longrightarrow> names_ok p" "inside fs b p \<Longrightarrow> prefix b p"
  by (simp_all add: inside_def)

section \<open>Effects of the operations\<close>

text \<open>
  What every operation keeps: the tree stays well-formed, nothing outside the root changes and the
  root stays a directory. Links are those of before, so resolved paths stay resolved.
\<close>

definition step_ok :: "path \<Rightarrow> file_system \<Rightarrow> file_system \<Rightarrow> bool" where
  "step_ok b fs fs' \<longleftrightarrow> fs_wf fs' \<and> same_outside b fs fs' \<and> is_dir fs' b"

named_theorems tree_intros \<open>single updates of the tree keep what every operation keeps\<close>

lemma good_rootD: "good_root fs b \<Longrightarrow> fs_wf fs" "good_root fs b \<Longrightarrow> plain fs b" "good_root fs b \<Longrightarrow> names_ok b"
  "good_root fs b \<Longrightarrow> b \<noteq> []" "good_root fs b \<Longrightarrow> is_dir fs b"
  by (simp_all add: good_root_def)

lemma step_ok_refl [tree_intros]: "good_root fs b \<Longrightarrow> step_ok b fs fs"
  by (simp add: step_ok_def good_root_def)

lemma step_ok_trans: "step_ok b f g \<Longrightarrow> step_ok b g h \<Longrightarrow> step_ok b f h"
  by (auto simp: step_ok_def intro: same_outside_trans)

lemma step_ok_root:
  assumes "good_root fs b" "step_ok b fs fs'"
  shows "good_root fs' b"
proof -
  have "is_link fs' (take (Suc k) b) = None" if k: "k < length b" for k
  proof (cases "take (Suc k) b = b")
    case True
    then show ?thesis using assms(2) is_dir_not_link by (simp add: step_ok_def)
  next
    case False
    then have "\<not> prefix b (take (Suc k) b)"
      by (metis prefix_order.antisym take_is_prefix)
    then have "is_link fs' (take (Suc k) b) = is_link fs (take (Suc k) b)"
      using assms(2) by (simp add: step_ok_def same_outside_def is_link_def)
    then show ?thesis using assms(1) k by (simp add: good_root_def plain_def)
  qed
  with assms show ?thesis by (auto simp: good_root_def plain_def step_ok_def)
qed

lemma step_ok_put [tree_intros]:
  assumes "good_root fs b" "prefix b p" "names_ok p" "p \<noteq> b" "is_dir fs (butlast p)"
    and "i_kind i = DirN \<or> \<not> is_dir fs p"
  shows "step_ok b fs (put fs p i)"
proof -
  have "p \<noteq> []" using assms(2,4) by auto
  then have "name_ok (last p)" using assms(3) by (simp add: names_ok_def)
  with assms have "fs_wf (put fs p i)" by (intro wf_put) (auto dest: good_rootD)
  then show ?thesis using assms same_outside_put [OF assms(2)] good_rootD(5) [OF assms(1)]
    by (simp add: step_ok_def)
qed

lemma step_ok_cut [tree_intros]:
  assumes "good_root fs b" "prefix b p" "p \<noteq> b" "entries fs p = [] \<or> \<not> is_dir fs p"
  shows "step_ok b fs (cut fs p)"
proof -
  have "p \<noteq> []" using assms(2,3) by auto
  with assms have "fs_wf (cut fs p)" by (intro wf_cut) (auto dest: good_rootD)
  then show ?thesis using assms same_outside_cut [OF assms(2)] good_rootD(5) [OF assms(1)]
    by (auto simp: step_ok_def)
qed

lemma step_ok_move [tree_intros]:
  assumes "good_root fs r" "prefix r a" "prefix r b" "names_ok b" "node fs b = None"
    and "\<not> prefix a b" "\<not> prefix b a" "is_dir fs (butlast b)"
  shows "step_ok r fs (move fs a b)"
proof -
  note w = good_rootD(1) [OF assms(1)]
  have bn: "b \<noteq> []" using assms(1,3) good_rootD(4) by auto
  have free: "\<forall>q. prefix b q \<longrightarrow> node fs q = None"
    using wf_free [OF w _ assms(5)] assms(5) by (auto simp: is_dir_def)
  have "fs_wf (move fs a b)"
    using assms bn by (intro wf_move) (auto simp: names_ok_def w)
  moreover have "same_outside r fs (move fs a b)" by (rule same_outside_move [OF free assms(7,2,3)])
  moreover have "is_dir (move fs a b) r"
  proof -
    have "b \<noteq> r" using assms(5) good_rootD(5) [OF assms(1)] by (auto simp: is_dir_def)
    then have "\<not> prefix b r" using assms(3) by (metis prefix_order.antisym)
    moreover have "\<not> prefix a r" using assms(2,3,6) by (metis prefix_order.antisym)
    ultimately show ?thesis
      using is_dir_move [OF free assms(7)] good_rootD(5) [OF assms(1)] by simp
  qed
  ultimately show ?thesis by (simp add: step_ok_def)
qed

text \<open>Trees with the same links resolve the same paths.\<close>

lemma plain_cong: "is_link fs' = is_link fs \<Longrightarrow> plain fs' p = plain fs p"
  by (simp add: plain_def)

lemma inside_cong: "is_link fs' = is_link fs \<Longrightarrow> inside fs' b p = inside fs b p"
  unfolding inside_def by (simp only: plain_cong [of fs' fs p])

lemma links_put: "is_link fs p = None \<Longrightarrow> (\<forall>t. i_kind i \<noteq> LinkN t) \<Longrightarrow> is_link (put fs p i) = is_link fs"
  by (auto simp: is_link_put split: kind.splits)

lemma links_cut: "is_link fs p = None \<Longrightarrow> is_link (cut fs p) = is_link fs"
  by (auto simp: is_link_cut)

lemma plain_last_link: "plain fs p \<Longrightarrow> p \<noteq> [] \<Longrightarrow> is_link fs p = None"
  using plain_link [of fs "butlast p" "last p" "[]"] by simp

lemma links_move_file:
  assumes "fs_wf fs" "\<not> is_dir fs a" "is_link fs a = None" "node fs b = None" "\<not> prefix b a"
  shows "is_link (move fs a b) = is_link fs"
proof
  fix q
  have free: "\<forall>q. prefix b q \<longrightarrow> node fs q = None"
    using wf_free [OF assms(1) _ assms(4)] assms(4) by (auto simp: is_dir_def)
  have only: "node fs (a @ s) \<noteq> None \<Longrightarrow> s = []" for s using wf_below [OF assms(1), of a s] assms(2) by auto
  have la: "node fs (a @ s) = Some i \<Longrightarrow> i_kind i \<noteq> LinkN t" for s i t
    using only [of s] assms(3) by (auto simp: is_link_def)
  show "is_link (move fs a b) q = is_link fs q"
  proof (cases "prefix b q")
    case True
    then have "is_link fs q = None" using free by (simp add: is_link_def)
    moreover have "is_link (move fs a b) q = None"
      using True la unfolding is_link_def node_move [OF free assms(5)] by (simp split: option.split kind.split) blast
    ultimately show ?thesis by simp
  next
    case nb: False
    show ?thesis
    proof (cases "prefix a q")
      case True
      then have "is_link fs q = None" using la unfolding is_link_def prefix_def by (auto split: option.split kind.split)
      with True nb show ?thesis by (simp add: is_link_def node_move [OF free assms(5)])
    next
      case False
      with nb show ?thesis by (simp add: is_link_def node_move [OF free assms(5)])
    qed
  qed
qed

lemma makedirs_effect:
  "makedirs ok fs p = (fs', r) \<Longrightarrow> good_root fs b \<Longrightarrow> inside fs b p \<Longrightarrow> node fs p = None \<Longrightarrow>
     step_ok b fs fs' \<and> is_link fs' = is_link fs \<and> files fs' = files fs \<and> (r = None \<longrightarrow> is_dir fs' p)"
proof (induction ok fs p arbitrary: fs' r rule: makedirs.induct)
  case (1 ok fs p)
  note root = "1.prems"(2) and ins = "1.prems"(3)
  have pb: "p \<noteq> b" using "1.prems"(4) good_rootD(5) [OF root] by (auto simp: is_dir_def)
  have pn: "p \<noteq> []" using pb ins by (auto simp: inside_def)
  have up: "inside fs b (butlast p)"
    using ins pb pn plain_butlast names_ok_butlast
    by (auto simp: inside_def) (metis append_butlast_last_id prefix_snoc)
  define up_call where "up_call = (if p \<noteq> [] \<and> \<not> path_exists fs (butlast p) then makedirs ok fs (butlast p) else (fs, None))"
  obtain fs1 r1 where u: "up_call = (fs1, r1)" by (cases up_call)
  have u1: "step_ok b fs fs1 \<and> is_link fs1 = is_link fs \<and> files fs1 = files fs"
  proof (cases "path_exists fs (butlast p)")
    case True
    then show ?thesis using u root by (simp add: up_call_def step_ok_refl)
  next
    case False
    then have "node fs (butlast p) = None"
      using exists_plain [OF good_rootD(1) [OF root] insideD(1) [OF up]] by simp
    with False "1.IH" [of fs1 r1] u pn root up show ?thesis by (simp add: up_call_def)
  qed
  have root1: "good_root fs1 b" using step_ok_root [OF root] u1 by blast
  have ins1: "inside fs1 b p" using ins inside_cong [of fs1 fs b p] u1 by simp
  have mk: "step_ok b fs1 fs2 \<and> is_link fs2 = is_link fs1 \<and> files fs2 = files fs1 \<and> is_dir fs2 p"
    if m: "sys_mkdir fs1 p = Inr fs2" for fs2
  proof -
    note e = mkdir_plain [OF good_rootD(1) [OF root1] insideD(1) [OF ins1] m]
    have "step_ok b fs1 (put fs1 p (new_dir fs1))"
      by (rule step_ok_put [OF root1 insideD(3,2) [OF ins1] pb e(4)]) (simp add: new_dir_def)
    moreover have "files (put fs1 p (new_dir fs1)) = files fs1"
      using e(2) by (auto simp: new_dir_def files_def)
    ultimately show ?thesis using e links_put [OF plain_last_link [OF insideD(1) [OF ins1] pn]]
      by (simp add: new_dir_def)
  qed
  have isd: "path_isdir fs1 p \<Longrightarrow> is_dir fs1 p"
    using isdir_plain [OF good_rootD(1) [OF root1] insideD(1) [OF ins1]] by simp
  have "(fs', r) = (case r1 of
           Some (OSErr FileExists m) \<Rightarrow>
             (case sys_mkdir fs1 p of
                Inl e \<Rightarrow> (fs1, if ok \<and> path_isdir fs1 p then None else Some (os_error e p))
              | Inr fs2 \<Rightarrow> (fs2, None))
         | Some e \<Rightarrow> (fs1, Some e)
         | None \<Rightarrow>
             (case sys_mkdir fs1 p of
                Inl e \<Rightarrow> (fs1, if ok \<and> path_isdir fs1 p then None else Some (os_error e p))
              | Inr fs2 \<Rightarrow> (fs2, None)))"
    using "1.prems"(1) u by (simp add: makedirs.simps [of ok fs p] up_call_def)
  then have "(fs', r) = (fs1, r1) \<and> r1 \<noteq> None \<or>
      (\<exists>e. (fs', r) = (fs1, if ok \<and> path_isdir fs1 p then None else Some (os_error e p))) \<or>
      (\<exists>fs2. sys_mkdir fs1 p = Inr fs2 \<and> (fs', r) = (fs2, None))"
    by (auto split: option.splits exn.splits os_kind.splits sum.splits)
  then show ?case
  proof (elim disjE exE conjE)
    fix fs2 assume "sys_mkdir fs1 p = Inr fs2" "(fs', r) = (fs2, None)"
    with mk u1 step_ok_trans show ?thesis by fastforce
  qed (use u1 isd in \<open>auto split: if_splits\<close>)
qed

lemma make_directory_effect:
  assumes "good_root fs b" "inside fs b p" "make_directory fs b p = (fs', r)"
  shows "step_ok b fs fs' \<and> is_link fs' = is_link fs \<and> files fs' = files fs \<and>
    (\<forall>q. r = Inr q \<longrightarrow> q = p \<and> node fs p = None \<and> is_dir fs' p)"
proof (cases "\<exists>fs1 o1. makedirs False fs p = (fs1, o1) \<and> node fs p = None \<and>
      (fs', r) = (fs1, case o1 of Some e \<Rightarrow> Inl e | None \<Rightarrow> Inr (realpath fs1 p))")
  case True
  then obtain fs1 o1 where m: "makedirs False fs p = (fs1, o1)" "node fs p = None"
    and e: "fs' = fs1" "r = (case o1 of Some e \<Rightarrow> Inl e | None \<Rightarrow> Inr (realpath fs1 p))" by auto
  from makedirs_effect [OF m(1) assms(1,2) m(2)]
  have "step_ok b fs fs1" "is_link fs1 = is_link fs" "files fs1 = files fs" "o1 = None \<longrightarrow> is_dir fs1 p" by auto
  then show ?thesis
    using e m(2) realpath_plain [of fs1 p] plain_cong [of fs1 fs p] insideD(1) [OF assms(2)]
    by (auto split: option.splits)
next
  case False
  then have "fs' = fs \<and> (\<exists>e. r = Inl e)"
    using assms(3) exists_plain [OF good_rootD(1) [OF assms(1)] insideD(1) [OF assms(2)]]
    by (auto simp: make_directory_def split: if_splits prod.splits option.splits)
  then show ?thesis using assms(1) step_ok_refl by auto
qed

lemma remove_directory_effect:
  assumes "good_root fs b" "inside fs b p" "remove_directory fs b p = (fs', r)"
  shows "r = Inr () \<and> fs' = cut fs p \<and> is_dir fs p \<and> entries fs p = [] \<and> p \<noteq> b \<or> (\<exists>e. r = Inl e \<and> fs' = fs)"
proof -
  note w = good_rootD(1) [OF assms(1)] and pl = insideD(1) [OF assms(2)]
  have "p \<noteq> b" if "realpath fs p \<noteq> realpath fs b" using that by auto
  then show ?thesis using assms(3) rmdir_plain [OF w pl]
    by (auto simp: remove_directory_def sys_call_def split: if_splits sum.splits)
qed

lemma delete_file_effect:
  assumes "good_root fs b" "inside fs b p" "delete_file fs b p = (fs', r)"
  shows "r = Inr () \<and> fs' = cut fs p \<and> files fs p \<noteq> None \<or> (\<exists>e. r = Inl e \<and> fs' = fs)"
proof -
  note w = good_rootD(1) [OF assms(1)] and pl = insideD(1) [OF assms(2)]
  have "files fs p \<noteq> None" if "node fs p \<noteq> None" "\<not> is_dir fs p" "p \<noteq> []"
    using that plain_last_link [OF pl] by (auto simp: files_def is_dir_def is_link_def split: kind.splits)
  then show ?thesis using assms(3) unlink_plain [OF w pl]
    by (auto simp: delete_file_def sys_call_def split: if_splits sum.splits)
qed

lemma rename_entry_effect:
  assumes "good_root fs r" "inside fs r a" "inside fs r b" "rename_entry fs r a b = (fs', x)"
  shows "x = Inr () \<and> fs' = move fs a b \<and> node fs a \<noteq> None \<and> node fs b = None \<and> \<not> prefix a b \<and> \<not> prefix b a \<and>
      is_dir fs (butlast b) \<or> (\<exists>e. x = Inl e \<and> fs' = fs)"
proof -
  note w = good_rootD(1) [OF assms(1)] and pa = insideD(1) [OF assms(2)] and pb = insideD(1) [OF assms(3)]
  show ?thesis using assms(4) rename_plain [OF w pa pb] exists_plain [OF w pb]
    by (auto simp: rename_entry_def split: if_splits sum.splits)
qed

section \<open>A sample tree\<close>

text \<open>An FTP root with a file, a link that stays inside it, one that leaves it and one to itself.\<close>

definition dir_inode :: inode where
  "dir_inode = \<lparr>i_kind = DirN, i_mode = 493, i_mtime = 1700000000\<rparr>"

definition file_inode :: "bytes \<Rightarrow> inode" where
  "file_inode d = \<lparr>i_kind = FileN d, i_mode = 420, i_mtime = 1700000000\<rparr>"

definition link_inode :: "string \<Rightarrow> inode" where
  "link_inode t = \<lparr>i_kind = LinkN t, i_mode = 511, i_mtime = 1700000000\<rparr>"

definition sample_tree :: file_system where
  "sample_tree = \<lparr>nodes =
     [([], dir_inode), ([''etc''], dir_inode), ([''etc'', ''in''], link_inode ''/ftp/a''),
      ([''ftp''], dir_inode), ([''ftp'', ''a''], file_inode [1, 2, 3]),
      ([''ftp'', ''d''], dir_inode), ([''ftp'', ''d'', ''B''], file_inode [4]),
      ([''ftp'', ''up''], link_inode ''../etc''), ([''ftp'', ''s''], link_inode ''d/../a''),
      ([''ftp'', ''loop''], link_inode ''loop'')],
     now = 1700003600, umask = 18, dir_size = (\<lambda>p. 4096), zone = (\<lambda>t. 0)\<rparr>"

abbreviation sample_root :: path where
  "sample_root \<equiv> [''ftp'']"

lemma sample_good: "good_root sample_tree sample_root"
  by code_simp

section \<open>Properties\<close>



text \<open>The check is by realpath, and posixpath stops at a link that loops and normalizes the rest
  as text. A request through such a link names an entry outside the root, and DELE removes it.\<close>

lemma loop_escape:
  "resolve_path sample_tree sample_root sample_root ''loop/../../etc/in'' = Inr [''etc'', ''in'']"
  "node (fst (delete_file sample_tree sample_root [''etc'', ''in''])) [''etc'', ''in''] = None"
  by code_simp+

lemma map_filter_iff: "x \<in> set (List.map_filter f xs) \<longleftrightarrow> (\<exists>y\<in>set xs. f y = Some x)"
  by (induction xs) (auto simp: List.map_filter_def)



end
