(* ===== verification/File_Handler.thy ===== *)
theory File_Handler
  imports Files Sha256
begin

text \<open>
  src/common/file_handler.py: reading files as chunks, writing them from chunks, the atomic write of
  a client download, hashes and sizes. Functions whose names dir_manager also uses have the prefix fh.
\<close>

definition DEFAULT_CHUNK_SIZE :: nat where
  "DEFAULT_CHUNK_SIZE = 1024"

section \<open>Reading\<close>

text \<open>The loop of f.read(chunk_size): it stops at the first empty read.\<close>

function chunks_of :: "nat \<Rightarrow> bytes \<Rightarrow> bytes list" where
  "chunks_of n d = (if n = 0 \<or> d = [] then [] else take n d # chunks_of n (drop n d))"
  by pat_completeness auto
termination by (relation "measure (\<lambda>(n, d). length d)") auto

declare chunks_of.simps [simp del]

definition not_found :: "path \<Rightarrow> exn" where
  "not_found p = OSErr FileNotFound (''File not found: '' @ path_str p)"

text \<open>A generator: the check and the open happen at the first next.\<close>

definition read_file_chunks :: "file_system \<Rightarrow> path \<Rightarrow> nat \<Rightarrow> source" where
  "read_file_chunks fs p chunk_size =
     (if \<not> path_exists fs p then ([], Some (not_found p))
      else case open_read fs p of
             Inl e \<Rightarrow> ([], Some (os_error e p))
           | Inr d \<Rightarrow> (chunks_of chunk_size d, None))"

definition read_file_bytes :: "file_system \<Rightarrow> path \<Rightarrow> exn + bytes" where
  "read_file_bytes fs p =
     (if \<not> path_exists fs p then Inl (not_found p)
      else case open_read fs p of Inl e \<Rightarrow> Inl (os_error e p) | Inr d \<Rightarrow> Inr d)"

lemma chunks_of_concat: "0 < n \<Longrightarrow> concat (chunks_of n d) = d"
proof (induction n d rule: chunks_of.induct)
  case (1 n d)
  then show ?case by (cases "d = []") (simp_all add: chunks_of.simps [of n d] chunks_of.simps [of n "[]"])
qed

lemma chunks_of_sizes: "c \<in> set (chunks_of n d) \<Longrightarrow> c \<noteq> [] \<and> length c \<le> n"
proof (induction n d rule: chunks_of.induct)
  case (1 n d)
  then show ?case by (cases "n = 0 \<or> d = []") (auto simp: chunks_of.simps [of n d])
qed

section \<open>Writing\<close>

definition make_parents :: "file_system \<Rightarrow> path \<Rightarrow> file_system \<times> exn option" where
  "make_parents fs p = makedirs True fs (butlast p)"

definition write_file :: "file_system \<Rightarrow> path \<Rightarrow> bytes \<Rightarrow> int outcome" where
  "write_file fs p data =
     (case make_parents fs p of
        (fs1, Some e) \<Rightarrow> (fs1, Inl e)
      | (fs1, None) \<Rightarrow>
          (case open_write True fs1 p of
             Inl e \<Rightarrow> (fs1, Inl (os_error e p))
           | Inr (q, fs2) \<Rightarrow> (write_fd fs2 q data, Inr (int (length data)))))"

text \<open>The loop over the chunks, adding up what was written; the source may raise at its end.\<close>

fun write_chunks :: "file_system \<Rightarrow> path \<Rightarrow> int \<Rightarrow> source \<Rightarrow> int outcome" where
  "write_chunks fs q written (c # cs, e) = write_chunks (write_fd fs q c) q (written + int (length c)) (cs, e)"
| "write_chunks fs q written ([], Some e) = (fs, Inl e)"
| "write_chunks fs q written ([], None) = (fs, Inr written)"

definition write_file_from_chunks :: "file_system \<Rightarrow> path \<Rightarrow> source \<Rightarrow> int outcome" where
  "write_file_from_chunks fs p chunks =
     (case make_parents fs p of
        (fs1, Some e) \<Rightarrow> (fs1, Inl e)
      | (fs1, None) \<Rightarrow>
          (case open_write True fs1 p of
             Inl e \<Rightarrow> (fs1, Inl (os_error e p))
           | Inr (q, fs2) \<Rightarrow> write_chunks fs2 q 0 chunks))"

definition append_to_file :: "file_system \<Rightarrow> path \<Rightarrow> bytes \<Rightarrow> int outcome" where
  "append_to_file fs p data =
     (case make_parents fs p of
        (fs1, Some e) \<Rightarrow> (fs1, Inl e)
      | (fs1, None) \<Rightarrow>
          (case open_write False fs1 p of
             Inl e \<Rightarrow> (fs1, Inl (os_error e p))
           | Inr (q, fs2) \<Rightarrow> (write_fd fs2 q data, Inr (int (length data)))))"

text \<open>
  The client's download: all bytes go to a temporary file beside the target, which replaces the
  target at the end; on any failure the temporary file is removed, errors of that removal ignored.
\<close>

definition temp_prefix :: "path \<Rightarrow> string" where
  "temp_prefix p = ''.'' @ (if p = [] then [] else last p) @ ''.''"

definition discard_temp :: "file_system \<Rightarrow> path \<Rightarrow> file_system" where
  "discard_temp fs t = (case sys_unlink fs t of Inl e \<Rightarrow> fs | Inr fs' \<Rightarrow> fs')"

definition write_file_from_chunks_atomic :: "string list \<Rightarrow> file_system \<Rightarrow> path \<Rightarrow> source \<Rightarrow> int outcome" where
  "write_file_from_chunks_atomic temps fs p chunks =
     (case make_parents fs p of
        (fs1, Some e) \<Rightarrow> (fs1, Inl e)
      | (fs1, None) \<Rightarrow>
          (case mkstemp fs1 (butlast p) (temp_prefix p) ''.part'' temps of
             Inl e \<Rightarrow> (fs1, Inl e)
           | Inr (t, fs2) \<Rightarrow>
               (case write_chunks fs2 t 0 chunks of
                  (fs3, Inl e) \<Rightarrow> (discard_temp fs3 t, Inl e)
                | (fs3, Inr written) \<Rightarrow>
                    (case sys_rename fs3 t p of
                       Inl e \<Rightarrow> (discard_temp fs3 t, Inl (os_error2 e t p))
                     | Inr fs4 \<Rightarrow> (fs4, Inr written)))))"

section \<open>Hashes, sizes and entries\<close>

text \<open>hashlib.md5 is the parameter md5; sha256 is the function of the theory Sha256.\<close>

definition compute_hash :: "(bytes \<Rightarrow> string) \<Rightarrow> file_system \<Rightarrow> path \<Rightarrow> string \<Rightarrow> exn + string" where
  "compute_hash md5 fs p algorithm =
     (if algorithm \<noteq> ''md5'' \<and> algorithm \<noteq> ''sha256'' then
        Inl (ValueError (''Unsupported hash algorithm: '' @ [char_of (39::nat)] @ algorithm @ [char_of (39::nat)]
          @ ''. Supported: ('' @ py_repr ''md5'' @ '', '' @ py_repr ''sha256'' @ '')''))
      else case read_file_chunks fs p DEFAULT_CHUNK_SIZE of
             (cs, Some e) \<Rightarrow> Inl e
           | (cs, None) \<Rightarrow> Inr (if algorithm = ''md5'' then md5 (concat cs) else hexdigest (sha256 (concat cs))))"

definition get_file_size :: "file_system \<Rightarrow> path \<Rightarrow> exn + int" where
  "get_file_size fs p = (case os_stat fs p of Inl e \<Rightarrow> Inl (os_error e p) | Inr st \<Rightarrow> Inr (stat_size fs st))"

definition file_exists :: "file_system \<Rightarrow> path \<Rightarrow> bool" where
  "file_exists fs p = path_isfile fs p"

definition fh_delete_file :: "file_system \<Rightarrow> path \<Rightarrow> bool outcome" where
  "fh_delete_file fs p =
     (if file_exists fs p then
        (case sys_unlink fs p of Inl e \<Rightarrow> (fs, Inl (os_error e p)) | Inr fs' \<Rightarrow> (fs', Inr True))
      else (fs, Inr False))"

definition fh_list_directory :: "file_system \<Rightarrow> path \<Rightarrow> exn + string list" where
  "fh_list_directory fs p =
     (if \<not> path_exists fs p then Inl (OSErr FileNotFound (''Directory not found: '' @ path_str p))
      else case follow fs p of
             Inl e \<Rightarrow> Inl (os_error e p)
           | Inr d \<Rightarrow> if is_dir fs d then Inr (entries fs d) else Inl (os_error ENOTDIR p))"

section \<open>What is written is read back\<close>

lemma files_write_fd: "files fs q = Some old \<Longrightarrow> files (write_fd fs q d) = (files fs)(q \<mapsto> old @ d)"
  by (auto simp: write_fd_def files_def split: option.splits kind.splits elim!: kind_data.elims)

lemma node_write_fd: "r \<noteq> q \<Longrightarrow> node (write_fd fs q d) r = node fs r"
  by (simp add: write_fd_def split: option.split kind.split)

lemma links_write_fd: "is_link (write_fd fs q d) = is_link fs"
proof
  fix r show "is_link (write_fd fs q d) r = is_link fs r"
  proof (cases "r = q")
    case True
    then show ?thesis by (auto simp: write_fd_def is_link_def split: option.splits kind.splits)
  next
    case False
    then show ?thesis by (simp add: is_link_def node_write_fd)
  qed
qed

lemma is_dir_write_fd: "is_dir (write_fd fs q d) r = is_dir fs r"
  by (cases "r = q") (auto simp: write_fd_def is_dir_def split: option.splits kind.splits)

lemma wf_write_fd: "fs_wf fs \<Longrightarrow> fs_wf (write_fd fs q d)"
proof (cases "\<exists>i old. node fs q = Some i \<and> i_kind i = FileN old")
  case True
  assume w: "fs_wf fs"
  from True obtain i old where i: "node fs q = Some i" "i_kind i = FileN old" by auto
  have "q \<noteq> [] \<Longrightarrow> is_dir fs (butlast q) \<and> name_ok (last q)"
    using w i unfolding fs_wf_alt by (metis append_butlast_last_id option.distinct(1))
  then have "fs_wf (put fs q (i\<lparr>i_kind := FileN (old @ d), i_mtime := now fs\<rparr>))"
    using w i by (intro wf_put) (auto simp: is_dir_def)
  with i show ?thesis by (simp add: write_fd_def)
qed (auto simp: write_fd_def split: option.split kind.split)

lemma write_chunks_effect:
  "write_chunks fs q n src = (fs', r) \<Longrightarrow> files fs q = Some old \<Longrightarrow>
     files fs' = (files fs)(q \<mapsto> old @ concat (fst src)) \<and> is_link fs' = is_link fs
     \<and> (\<forall>p. p \<noteq> q \<longrightarrow> node fs' p = node fs p) \<and> (\<forall>p. is_dir fs' p = is_dir fs p) \<and> (fs_wf fs \<longrightarrow> fs_wf fs')
     \<and> r = (case snd src of Some e \<Rightarrow> Inl e | None \<Rightarrow> Inr (n + int (length (concat (fst src)))))"
proof (induction fs q n src arbitrary: old rule: write_chunks.induct)
  case (1 fs q written c cs e)
  have f: "files (write_fd fs q c) q = Some (old @ c)" using files_write_fd [OF "1.prems"(2)] by simp
  from "1.IH" [OF _ f] "1.prems" show ?case
    by (simp add: files_write_fd [OF "1.prems"(2)] links_write_fd is_dir_write_fd node_write_fd wf_write_fd
        split: option.split) (auto simp: fun_eq_iff)
qed (auto simp: fun_upd_idem)

end
