(* ===== verification/Temp_Files.thy ===== *)
theory Temp_Files
  imports Dir_Manager File_Handler
begin

text \<open>
  Writing through a temporary file, as the service's atomic upload and the client's atomic download do it:
  what mkstemp leaves behind, and what renaming the temporary file onto its target does.
\<close>

lemma temp_name_ok: "name_ok n \<Longrightarrow> slash \<notin> set r \<Longrightarrow> name_ok ((''.'' @ n @ ''.'') @ r @ ''.part'')"
  by (auto simp: name_ok_def slash_def)

text \<open>A place for a file: a canonical path with a proper name in an existing directory, not itself a directory.\<close>

definition file_place :: "file_system \<Rightarrow> path \<Rightarrow> bool" where
  "file_place fs p \<longleftrightarrow> fs_wf fs \<and> plain fs p \<and> p \<noteq> [] \<and> name_ok (last p) \<and> is_dir fs (butlast p) \<and> \<not> is_dir fs p"

lemma temp_made:
  assumes place: "file_place fs p" and names: "list_all (\<lambda>r. slash \<notin> set r) rs"
    and made: "mkstemp fs (butlast p) (temp_prefix p) ''.part'' rs = Inr (t, fs1)"
  shows "butlast t = butlast p" "length t = length p" "t \<noteq> p" "node fs t = None" "plain fs t" "t \<noteq> []"
    "fs_wf fs1" "is_link fs1 = is_link fs" "files fs1 t = Some []" "\<And>q. q \<noteq> t \<Longrightarrow> node fs1 q = node fs q"
    "\<And>q. is_dir fs1 q = is_dir fs q"
proof -
  from place have w: "fs_wf fs" and pl: "plain fs p" and pn: "p \<noteq> []" and ok: "name_ok (last p)"
    and dp: "is_dir fs (butlast p)" by (simp_all add: file_place_def)
  from mkstemp_effect [OF w plain_butlast [OF pl] dp made] obtain r where r: "r \<in> set rs"
    and t: "t = butlast p @ [(''.'' @ last p @ ''.'') @ r @ ''.part'']" and nt: "node fs t = None"
    and fs1: "fs1 = put fs t (new_file fs 384 [])"
    using pn by (auto simp: temp_prefix_def)
  have tn: "name_ok (last t)" using temp_name_ok [OF ok, of r] r names t by (auto simp: list_all_iff)
  have lt: "is_link fs t = None" using nt by (simp add: is_link_def)
  show "butlast t = butlast p" "length t = length p" "t \<noteq> []" "node fs t = None" using t pn nt by simp_all
  show "t \<noteq> p"
  proof
    assume "t = p"
    then have "length (last t) = length (last p)" by simp
    then show False using t by simp
  qed
  show "plain fs t" using plain_snoc [OF plain_butlast [OF pl], of "last t"] t tn lt by (auto simp: name_ok_def)
  show "fs_wf fs1" unfolding fs1 using w dp t tn nt by (intro wf_put) (auto simp: is_dir_def)
  show "is_link fs1 = is_link fs" unfolding fs1 by (rule links_put [OF lt]) (simp add: new_file_def)
  show "files fs1 t = Some []" by (simp add: fs1 new_file_def)
  show "node fs1 q = node fs q" if "q \<noteq> t" for q using that by (simp add: fs1)
  show "is_dir fs1 q = is_dir fs q" for q using nt by (auto simp: fs1 is_dir_def new_file_def)
qed

lemma temp_commit:
  assumes place: "file_place fs p" and t: "length t = length p" "t \<noteq> p" "plain fs t" "node fs t = None"
    and g: "fs_wf g" "is_link g = is_link fs" "\<And>q. q \<noteq> t \<Longrightarrow> node g q = node fs q" "\<And>q. is_dir g q = is_dir fs q"
    and d: "files g t = Some d"
  shows "\<exists>fs'. sys_rename g t p = Inr fs' \<and> fs_wf fs' \<and> is_link fs' = is_link fs \<and> files fs' p = Some d
    \<and> (\<forall>q. q \<noteq> p \<longrightarrow> node fs' q = node fs q)"
proof -
  from place have pl: "plain fs p" and pn: "p \<noteq> []" and ok: "name_ok (last p)" and dp: "is_dir fs (butlast p)" "\<not> is_dir fs p"
    by (simp_all add: file_place_def)
  have pg: "plain g p" "plain g t" using pl t(3) plain_cong [OF g(2)] by simp_all
  have npre: "\<not> prefix t p" "\<not> prefix p t" using t(1,2) by (auto simp: prefix_def)
  have dg: "\<not> is_dir g p" "is_dir g (butlast p)" using dp g(4) by simp_all
  from rename_file [OF g(1) pg(2,1) d dg(1) pn dg(2) ok npre] obtain fs' where fs': "sys_rename g t p = Inr fs'"
    "node fs' = (node g)(p := node g t, t := None)" "fs_wf fs'" by blast
  have n: "node fs' q = node fs q" if "q \<noteq> p" for q using that g(3) t(4) by (simp add: fs'(2))
  have l: "is_link fs' p = None" using d t(2) by (auto simp: is_link_def fs'(2) files_def split: option.splits kind.splits)
  have "is_link fs' q = is_link fs q" for q
    using l plain_last_link [OF pl pn] n [of q] by (cases "q = p") (simp_all add: is_link_def)
  moreover have "files fs' p = Some d" using d t(2) by (simp add: files_def fs'(2))
  ultimately show ?thesis using fs'(1,3) n by (auto simp: fun_eq_iff)
qed

text \<open>Removing the temporary file restores the tree.\<close>

lemma temp_removed:
  assumes "file_place fs p" "butlast t = butlast p" "t \<noteq> []" "plain fs t" "node fs t = None"
    and g: "fs_wf g" "is_link g = is_link fs" "\<And>q. q \<noteq> t \<Longrightarrow> node g q = node fs q" "\<And>q. is_dir g q = is_dir fs q"
    and d: "files g t \<noteq> None"
  shows "sys_unlink g t = Inr (cut g t)" "node (cut g t) = node fs" "fs_wf (cut g t)"
proof -
  have pg: "plain g t" using assms(4) plain_cong [OF g(2)] by simp
  have "is_dir g (butlast t)" using g(4) assms(1,2) by (simp add: file_place_def)
  then have "locate g t = Inr t" using locate_plain [OF g(1) pg, of t] by simp
  moreover have "node g t \<noteq> None" "\<not> is_dir g t" using d is_dir_not_file [of g t] by (auto simp: files_def split: option.splits)
  ultimately show "sys_unlink g t = Inr (cut g t)" by (auto simp: sys_unlink_def)
  show "node (cut g t) = node fs" using g(3) assms(5) by (auto simp: fun_eq_iff)
  show "fs_wf (cut g t)" by (rule wf_cut [OF g(1) assms(3)]) (use \<open>\<not> is_dir g t\<close> in simp)
qed

end
