(* ===== verification/Filesystem_Service.thy ===== *)
theory Filesystem_Service
  imports Temp_Files
begin

text \<open>
  src/common/filesystem_service.py: the root-confined operations the server offers its clients, with
  errors translated to FTP reply codes, and the atomic upload. The service is given by its root
  directory; its lock registry is the theory Path_Locks.
\<close>

section \<open>Errors\<close>

definition cancelled_error :: "string \<Rightarrow> exn" where
  "cancelled_error operation = FsError operation 426 ''Transfer aborted.''"

fun translate_code :: "exn \<Rightarrow> int" where
  "translate_code (ValueError m) = 501"
| "translate_code (OSErr k m) = (if k = OtherOS then 451 else 550)"
| "translate_code _ = 451"

definition translate_error :: "string \<Rightarrow> exn \<Rightarrow> exn" where
  "translate_error operation e = FsError operation (translate_code e) (exn_text e)"

text \<open>What the except clauses let through: only OSError, TypeError and ValueError are translated.\<close>

fun caught :: "string \<Rightarrow> exn \<Rightarrow> exn" where
  "caught operation (OSErr k m) = translate_error operation (OSErr k m)"
| "caught operation (TypeError m) = translate_error operation (TypeError m)"
| "caught operation (ValueError m) = translate_error operation (ValueError m)"
| "caught operation e = e"

definition call :: "string \<Rightarrow> exn + 'a \<Rightarrow> exn + 'a" where
  "call operation r = (case r of Inl e \<Rightarrow> Inl (caught operation e) | Inr x \<Rightarrow> Inr x)"

definition call_step :: "string \<Rightarrow> 'a outcome \<Rightarrow> 'a outcome" where
  "call_step operation r = (fst r, call operation (snd r))"

definition raise_for_path :: "file_system \<Rightarrow> path \<Rightarrow> string \<Rightarrow> bool \<Rightarrow> exn" where
  "raise_for_path fs path operation directory =
     (if \<not> path_exists fs path then FsError operation 550 ''Path not found.''
      else FsError operation 550 (''Path is not a '' @ (if directory then ''directory'' else ''file'') @ ''.''))"

section \<open>Paths\<close>

text \<open>The constructor: the root is resolved and must be a directory.\<close>

definition service_root :: "file_system \<Rightarrow> path \<Rightarrow> exn + path" where
  "service_root fs root_dir =
     (let r = realpath fs root_dir in
      if path_isdir fs r then Inr r
      else Inl (ValueError (''FTP root is not a directory: '' @ quoted root_dir)))"

definition resolve :: "path \<Rightarrow> file_system \<Rightarrow> path \<Rightarrow> string \<Rightarrow> exn + path" where
  "resolve root fs cwd client_path = call ''resolve'' (resolve_path fs root cwd client_path)"

text \<open>os.path.relpath of normalized absolute paths.\<close>

fun common_prefix :: "path \<Rightarrow> path \<Rightarrow> nat" where
  "common_prefix (a # p) (b # q) = (if a = b then Suc (common_prefix p q) else 0)"
| "common_prefix _ _ = 0"

definition relpath :: "path \<Rightarrow> path \<Rightarrow> string" where
  "relpath p start =
     (let i = common_prefix start p; rel = replicate (length start - i) ''..'' @ drop i p
      in if rel = [] then ''.'' else join_with [slash] rel)"

definition display_path :: "path \<Rightarrow> file_system \<Rightarrow> path \<Rightarrow> exn + string" where
  "display_path root fs p =
     (let resolved = realpath fs p in
      if \<not> validate_path fs root resolved then Inl (FsError ''pwd'' 550 ''Path is outside FTP root.'')
      else let relative = relpath resolved root in
           if relative = ''.'' then Inr [slash] else Inr (slash # relative))"

definition change_directory :: "path \<Rightarrow> file_system \<Rightarrow> path \<Rightarrow> string \<Rightarrow> exn + path" where
  "change_directory root fs cwd client_path =
     (case resolve root fs cwd client_path of
        Inl e \<Rightarrow> Inl e
      | Inr p \<Rightarrow> if \<not> path_isdir fs p then Inl (raise_for_path fs p ''cwd'' True) else Inr p)"

definition parent_directory :: "path \<Rightarrow> file_system \<Rightarrow> path \<Rightarrow> exn + path" where
  "parent_directory root fs cwd =
     (if realpath fs cwd = root then Inr root else change_directory root fs cwd ''..'')"

definition prepare_retrieve :: "path \<Rightarrow> file_system \<Rightarrow> path \<Rightarrow> string \<Rightarrow> exn + path" where
  "prepare_retrieve root fs cwd client_path =
     (case resolve root fs cwd client_path of
        Inl e \<Rightarrow> Inl e
      | Inr p \<Rightarrow> if \<not> path_isfile fs p then Inl (raise_for_path fs p ''retrieve'' False) else Inr p)"

section \<open>Queries\<close>

definition svc_list :: "path \<Rightarrow> file_system \<Rightarrow> path \<Rightarrow> string \<Rightarrow> exn + entry list" where
  "svc_list root fs cwd client_path =
     (case resolve root fs cwd client_path of
        Inl e \<Rightarrow> Inl e
      | Inr p \<Rightarrow> call ''list'' (list_directory fs p (Some root)))"

definition svc_names :: "path \<Rightarrow> file_system \<Rightarrow> path \<Rightarrow> string \<Rightarrow> exn + string list" where
  "svc_names root fs cwd client_path =
     (case resolve root fs cwd client_path of
        Inl e \<Rightarrow> Inl e
      | Inr p \<Rightarrow> call ''nlst'' (list_names fs p (Some root)))"

definition svc_stat :: "path \<Rightarrow> file_system \<Rightarrow> path \<Rightarrow> string \<Rightarrow> exn + entry" where
  "svc_stat root fs cwd client_path =
     (case resolve root fs cwd client_path of
        Inl e \<Rightarrow> Inl e
      | Inr p \<Rightarrow> call ''stat'' (get_entry_info fs p (Some root)))"

definition svc_size :: "path \<Rightarrow> file_system \<Rightarrow> path \<Rightarrow> string \<Rightarrow> exn + int" where
  "svc_size root fs cwd client_path =
     (case prepare_retrieve root fs cwd client_path of
        Inl e \<Rightarrow> Inl e
      | Inr p \<Rightarrow> call ''size'' (get_file_size fs p))"

definition modified_time :: "path \<Rightarrow> file_system \<Rightarrow> path \<Rightarrow> string \<Rightarrow> exn + string" where
  "modified_time root fs cwd client_path =
     (case svc_stat root fs cwd client_path of Inl e \<Rightarrow> Inl e | Inr m \<Rightarrow> Inr (e_modified m))"

definition svc_hash :: "(bytes \<Rightarrow> string) \<Rightarrow> path \<Rightarrow> file_system \<Rightarrow> path \<Rightarrow> string \<Rightarrow> string \<Rightarrow> exn + string" where
  "svc_hash md5 root fs cwd client_path algorithm =
     (case prepare_retrieve root fs cwd client_path of
        Inl e \<Rightarrow> Inl e
      | Inr p \<Rightarrow> call ''hash'' (compute_hash md5 fs p algorithm))"

text \<open>The check is done at once, the reading when the generator is consumed, on the tree of that time.\<close>

definition read_chunks :: "path \<Rightarrow> file_system \<Rightarrow> path \<Rightarrow> string \<Rightarrow> nat \<Rightarrow> exn + (file_system \<Rightarrow> source)" where
  "read_chunks root fs cwd client_path chunk_size =
     (case prepare_retrieve root fs cwd client_path of
        Inl e \<Rightarrow> Inl e
      | Inr p \<Rightarrow> Inr (\<lambda>fs'. read_file_chunks fs' p chunk_size))"

section \<open>Changes\<close>

definition svc_make_directory :: "path \<Rightarrow> file_system \<Rightarrow> path \<Rightarrow> string \<Rightarrow> path outcome" where
  "svc_make_directory root fs cwd client_path =
     (case resolve root fs cwd client_path of
        Inl e \<Rightarrow> (fs, Inl e)
      | Inr p \<Rightarrow> call_step ''mkdir'' (make_directory fs root p))"

definition svc_remove_directory :: "path \<Rightarrow> file_system \<Rightarrow> path \<Rightarrow> string \<Rightarrow> unit outcome" where
  "svc_remove_directory root fs cwd client_path =
     (case resolve root fs cwd client_path of
        Inl e \<Rightarrow> (fs, Inl e)
      | Inr p \<Rightarrow> call_step ''rmdir'' (remove_directory fs root p))"

definition svc_delete :: "path \<Rightarrow> file_system \<Rightarrow> path \<Rightarrow> string \<Rightarrow> unit outcome" where
  "svc_delete root fs cwd client_path =
     (case resolve root fs cwd client_path of
        Inl e \<Rightarrow> (fs, Inl e)
      | Inr p \<Rightarrow> call_step ''delete'' (delete_file fs root p))"

definition svc_rename :: "path \<Rightarrow> file_system \<Rightarrow> path \<Rightarrow> string \<Rightarrow> string \<Rightarrow> unit outcome" where
  "svc_rename root fs cwd old_path new_path =
     (case resolve root fs cwd old_path of
        Inl e \<Rightarrow> (fs, Inl e)
      | Inr source \<Rightarrow>
          (case resolve root fs cwd new_path of
             Inl e \<Rightarrow> (fs, Inl e)
           | Inr destination \<Rightarrow> call_step ''rename'' (rename_entry fs root source destination)))"

section \<open>Uploads\<close>

record upload_result =
  up_path :: path
  up_bytes :: int

definition up_filename :: "upload_result \<Rightarrow> string" where
  "up_filename r = base_name (up_path r)"

text \<open>
  What the environment decides during an upload: the random names mkstemp tries, whether the
  cancel event is set at the k-th check, and whether the k-th write finds the disk full.
\<close>

record upload_env =
  ue_temps :: "string list"
  ue_cancel :: "nat \<Rightarrow> bool"
  ue_full :: "nat \<Rightarrow> bool"

definition disk_full :: exn where
  "disk_full = OSErr (errno_kind ENOSPC) (errno_text ENOSPC)"

text \<open>
  The loop over the chunks. It also gives the trees of which the file system passes through, one
  per write, for what another session can see while the upload runs.
\<close>

fun upload_loop :: "upload_env \<Rightarrow> string \<Rightarrow> path \<Rightarrow> nat \<Rightarrow> int \<Rightarrow> file_system \<Rightarrow> source \<Rightarrow>
    file_system list \<times> int outcome" where
  "upload_loop env op t k written fs (c # cs, e) =
     (if ue_cancel env k then ([], fs, Inl (cancelled_error op))
      else if ue_full env k then ([], fs, Inl disk_full)
      else let fs1 = write_fd fs t c;
               (trace, r) = upload_loop env op t (Suc k) (written + int (length c)) fs1 (cs, e)
           in (fs1 # trace, r))"
| "upload_loop env op t k written fs ([], Some e) = ([], fs, Inl e)"
| "upload_loop env op t k written fs ([], None) =
     (if ue_cancel env k then ([], fs, Inl (cancelled_error op))
      else if ue_full env k then ([], fs, Inl disk_full)
      else ([], fs, Inr written))"

text \<open>The finally clause of a failed upload; only FileNotFoundError is ignored there.\<close>

definition remove_temp :: "file_system \<Rightarrow> path \<Rightarrow> exn \<Rightarrow> file_system \<times> exn" where
  "remove_temp fs t e =
     (case sys_unlink fs t of
        Inl n \<Rightarrow> (fs, if n = ENOENT then e else os_error n t)
      | Inr fs' \<Rightarrow> (fs', e))"

text \<open>From the open temporary file to the result.\<close>

definition upload_into :: "upload_env \<Rightarrow> bool \<Rightarrow> file_system \<Rightarrow> path \<Rightarrow> path \<Rightarrow> string \<Rightarrow> source \<Rightarrow>
    file_system list \<times> int outcome" where
  "upload_into env appending fs t p op chunks =
     (if appending \<and> path_isfile fs p then
        (case open_read fs p of
           Inl n \<Rightarrow> ([], fs, Inl (os_error n p))
         | Inr current \<Rightarrow>
             let fs1 = write_fd fs t current; (trace, r) = upload_loop env op t 0 0 fs1 chunks in (fs1 # trace, r))
      else upload_loop env op t 0 0 fs chunks)"

definition atomic_upload :: "upload_env \<Rightarrow> file_system \<Rightarrow> path \<Rightarrow> source \<Rightarrow> bool \<Rightarrow>
    file_system list \<times> upload_result outcome" where
  "atomic_upload env fs p chunks appending =
     (let operation = (if appending then ''append'' else ''store''); parent = butlast p in
      if \<not> path_isdir fs parent then ([], fs, Inl (raise_for_path fs parent operation True))
      else if path_isdir fs p then ([], fs, Inl (FsError operation 550 ''Target is a directory.''))
      else
        (case mkstemp fs parent (temp_prefix p) ''.part'' (ue_temps env) of
           Inl e \<Rightarrow> ([], fs, Inl (caught operation e))
         | Inr (t, fs1) \<Rightarrow>
             (case upload_into env appending fs1 t p operation chunks of
                (trace, fs2, Inl e) \<Rightarrow>
                  (case remove_temp fs2 t (caught operation e) of
                     (fs3, e') \<Rightarrow> (fs1 # trace @ [fs3], fs3, Inl e'))
              | (trace, fs2, Inr written) \<Rightarrow>
                  (case sys_rename fs2 t p of
                     Inl n \<Rightarrow>
                       (case remove_temp fs2 t (caught operation (os_error2 n t p)) of
                          (fs3, e') \<Rightarrow> (fs1 # trace @ [fs3], fs3, Inl e'))
                   | Inr fs3 \<Rightarrow>
                       (fs1 # trace @ [fs3], fs3, Inr \<lparr>up_path = realpath fs3 p, up_bytes = written\<rparr>)))))"

definition svc_store :: "upload_env \<Rightarrow> path \<Rightarrow> file_system \<Rightarrow> path \<Rightarrow> string \<Rightarrow> source \<Rightarrow>
    file_system list \<times> upload_result outcome" where
  "svc_store env root fs cwd client_path chunks =
     (case resolve root fs cwd client_path of
        Inl e \<Rightarrow> ([], fs, Inl e)
      | Inr p \<Rightarrow> atomic_upload env fs p chunks False)"

definition svc_append :: "upload_env \<Rightarrow> path \<Rightarrow> file_system \<Rightarrow> path \<Rightarrow> string \<Rightarrow> source \<Rightarrow>
    file_system list \<times> upload_result outcome" where
  "svc_append env root fs cwd client_path chunks =
     (case resolve root fs cwd client_path of
        Inl e \<Rightarrow> ([], fs, Inl e)
      | Inr p \<Rightarrow> atomic_upload env fs p chunks True)"

text \<open>
  STOU. The random identifiers come from the environment as a list; None is a loop that has used
  them all up, which is to say has not returned.
\<close>

definition unique_path :: "path \<Rightarrow> string \<Rightarrow> string \<Rightarrow> path" where
  "unique_path d pre u = d @ [pre @ u @ ''.bin'']"

fun free_name :: "file_system \<Rightarrow> path \<Rightarrow> string \<Rightarrow> string list \<Rightarrow> path option" where
  "free_name fs d pre [] = None"
| "free_name fs d pre (u # us) =
     (if \<not> path_lexists fs (unique_path d pre u) then Some (unique_path d pre u) else free_name fs d pre us)"

definition svc_store_unique :: "upload_env \<Rightarrow> string list \<Rightarrow> path \<Rightarrow> file_system \<Rightarrow> path \<Rightarrow> source \<Rightarrow> string \<Rightarrow>
    (file_system list \<times> upload_result outcome) option" where
  "svc_store_unique env uuids root fs cwd chunks pre =
     (case resolve root fs cwd [] of
        Inl e \<Rightarrow> Some ([], fs, Inl e)
      | Inr d \<Rightarrow>
          if \<not> path_isdir fs d then Some ([], fs, Inl (raise_for_path fs d ''stou'' True))
          else map_option (\<lambda>p. atomic_upload env fs p chunks False) (free_name fs d pre uuids))"

section \<open>Trees during an upload\<close>

text \<open>A tree that differs from another only in the contents of the temporary file.\<close>

definition temp_only :: "path \<Rightarrow> file_system \<Rightarrow> file_system \<Rightarrow> bool" where
  "temp_only t fs g \<longleftrightarrow> (\<forall>q. q \<noteq> t \<longrightarrow> node g q = node fs q) \<and> is_link g = is_link fs
     \<and> (\<forall>q. is_dir g q = is_dir fs q) \<and> (fs_wf fs \<longrightarrow> fs_wf g) \<and> (files g t = None \<longleftrightarrow> files fs t = None)"

lemma temp_only_refl [simp]: "temp_only t fs fs"
  by (simp add: temp_only_def)

lemma temp_only_trans: "temp_only t f g \<Longrightarrow> temp_only t g h \<Longrightarrow> temp_only t f h"
  by (simp add: temp_only_def)

lemma temp_only_write: "files fs t \<noteq> None \<Longrightarrow> temp_only t fs (write_fd fs t c)"
  by (auto simp: temp_only_def node_write_fd links_write_fd is_dir_write_fd wf_write_fd files_write_fd)

lemma upload_loop_effect:
  "upload_loop env op t k n fs src = (tr, fs', r) \<Longrightarrow> files fs t = Some old \<Longrightarrow>
     (\<forall>g\<in>insert fs' (set tr). temp_only t fs g) \<and>
     (\<forall>m. r = Inr m \<longrightarrow> snd src = None \<and> m = n + int (length (concat (fst src))) \<and>
        files fs' t = Some (old @ concat (fst src)) \<and> (\<forall>j\<le>length (fst src). \<not> ue_cancel env (k + j)))"
proof (induction env op t k n fs src arbitrary: old tr fs' r rule: upload_loop.induct)
  case (1 env op t k n fs c cs e)
  show ?case
  proof (cases "ue_cancel env k \<or> ue_full env k")
    case True
    then show ?thesis using "1.prems"(1) by (auto split: if_splits)
  next
    case False
    let ?g = "write_fd fs t c"
    have f: "files ?g t = Some (old @ c)" using files_write_fd [OF "1.prems"(2)] by simp
    have g: "temp_only t fs ?g" using temp_only_write "1.prems"(2) by simp
    obtain tr1 where u: "upload_loop env op t (Suc k) (n + int (length c)) ?g (cs, e) = (tr1, fs', r)"
      and tr: "tr = ?g # tr1" using "1.prems"(1) False by (auto simp: Let_def split: prod.splits)
    have j: "(\<forall>j\<le>length cs. \<not> ue_cancel env (Suc k + j)) \<Longrightarrow> (\<forall>j\<le>length (c # cs). \<not> ue_cancel env (k + j))"
      using False by (metis add_Suc_right add_Suc add.right_neutral length_Cons not0_implies_Suc Suc_le_mono)
    from "1.IH" [OF _ _ refl u f] False have ih: "\<forall>g\<in>insert fs' (set tr1). temp_only t ?g g"
      "\<forall>m. r = Inr m \<longrightarrow> e = None \<and> m = n + int (length c) + int (length (concat cs)) \<and>
        files fs' t = Some ((old @ c) @ concat cs) \<and> (\<forall>j\<le>length cs. \<not> ue_cancel env (Suc k + j))"
      by auto
    show ?thesis using ih tr g temp_only_trans [OF g] j by auto
  qed
qed (auto split: if_splits)

lemma upload_into_effect:
  assumes "upload_into env ap fs t p op chunks = (tr, fs', r)" "files fs t = Some []" "t \<noteq> p"
    and w: "fs_wf fs" and pl: "plain fs p"
  shows "\<forall>g\<in>insert fs' (set tr). temp_only t fs g"
    and "\<And>m. r = Inr m \<Longrightarrow> snd chunks = None \<and> m = int (length (concat (fst chunks))) \<and>
       files fs' t = Some ((if ap then (case files fs p of Some old \<Rightarrow> old | None \<Rightarrow> []) else []) @ concat (fst chunks))
       \<and> (\<forall>j\<le>length (fst chunks). \<not> ue_cancel env j)"
proof -
  let ?old = "if ap then (case files fs p of Some old \<Rightarrow> old | None \<Rightarrow> []) else []"
  have "(\<forall>g\<in>insert fs' (set tr). temp_only t fs g) \<and> (\<forall>m. r = Inr m \<longrightarrow> snd chunks = None \<and>
      m = int (length (concat (fst chunks))) \<and> files fs' t = Some (?old @ concat (fst chunks))
      \<and> (\<forall>j\<le>length (fst chunks). \<not> ue_cancel env j))"
  proof (cases "ap \<and> files fs p \<noteq> None")
    case True
    then obtain d where d: "files fs p = Some d" by auto
    let ?g = "write_fd fs t d"
    have f: "files ?g t = Some d" using files_write_fd [OF assms(2)] by simp
    have g: "temp_only t fs ?g" using temp_only_write assms(2) by simp
    obtain tr1 where u: "upload_loop env op t 0 0 ?g chunks = (tr1, fs', r)" and tr: "tr = ?g # tr1"
      using assms(1) True d isfile_plain [OF w pl] read_plain [OF w pl d]
      by (auto simp: upload_into_def Let_def split: prod.splits)
    from upload_loop_effect [OF u f] tr g temp_only_trans [OF g] True d show ?thesis by auto
  next
    case False
    then have "upload_loop env op t 0 0 fs chunks = (tr, fs', r)"
      using assms(1) isfile_plain [OF w pl] by (auto simp: upload_into_def)
    from upload_loop_effect [OF this assms(2)] False show ?thesis by (auto split: option.split)
  qed
  then show "\<forall>g\<in>insert fs' (set tr). temp_only t fs g"
    "\<And>m. r = Inr m \<Longrightarrow> snd chunks = None \<and> m = int (length (concat (fst chunks))) \<and>
       files fs' t = Some (?old @ concat (fst chunks)) \<and> (\<forall>j\<le>length (fst chunks). \<not> ue_cancel env j)" by auto
qed

text \<open>The random parts of temporary names are file names: they hold no separator.\<close>

definition temps_ok :: "upload_env \<Rightarrow> bool" where
  "temps_ok env \<longleftrightarrow> list_all (\<lambda>r. slash \<notin> set r) (ue_temps env)"

text \<open>The part of an upload that works on the temporary file t, with the trees it goes through.\<close>

lemma upload_through_temp:
  assumes place: "file_place fs p" and env: "temps_ok env"
    and made: "mkstemp fs (butlast p) (temp_prefix p) ''.part'' (ue_temps env) = Inr (t, fs1)"
    and up: "atomic_upload env fs p chunks ap = (tr, fs', r)"
  shows "(case r of
      Inl e \<Rightarrow> node fs' = node fs \<and> fs_wf fs'
    | Inr res \<Rightarrow> up_path res = p \<and> up_bytes res = int (length (concat (fst chunks))) \<and> snd chunks = None
        \<and> (\<forall>j\<le>length (fst chunks). \<not> ue_cancel env j) \<and> fs_wf fs'
        \<and> files fs' p = Some ((if ap then (case files fs p of Some old \<Rightarrow> old | None \<Rightarrow> []) else []) @ concat (fst chunks))
        \<and> (\<forall>q. q \<noteq> p \<longrightarrow> node fs' q = node fs q))
    \<and> (\<forall>g\<in>set tr. g = fs' \<or> fs_wf g \<and> is_link g = is_link fs \<and> (\<forall>q. q \<noteq> t \<longrightarrow> node g q = node fs q))
    \<and> (isl r \<longleftrightarrow> isl (snd (snd (upload_into env ap fs1 t p (if ap then ''append'' else ''store'') chunks))))"
proof -
  let ?op = "if ap then ''append'' else ''store''"
  from place have pl: "plain fs p" and dirs: "path_isdir fs (butlast p)" "\<not> path_isdir fs p"
    using isdir_plain [of fs p] isdir_plain [of fs "butlast p"] by (simp_all add: file_place_def plain_butlast)
  note t = temp_made [OF place env [unfolded temps_ok_def] made]
  obtain tr2 fs2 r2 where ui: "upload_into env ap fs1 t p ?op chunks = (tr2, fs2, r2)" by (metis prod_cases3)
  have "plain fs1 p" using pl plain_cong [OF t(8)] by simp
  note eff = upload_into_effect [OF ui t(9,3,7) this]
  have g: "fs_wf g \<and> is_link g = is_link fs \<and> (\<forall>q. q \<noteq> t \<longrightarrow> node g q = node fs q) \<and> (\<forall>q. is_dir g q = is_dir fs q)
      \<and> files g t \<noteq> None"
    if "g \<in> insert fs1 (insert fs2 (set tr2))" for g
    using that eff(1) t(7-11) by (auto simp: temp_only_def)
  then have g2: "fs_wf fs2" "is_link fs2 = is_link fs" "\<And>q. q \<noteq> t \<Longrightarrow> node fs2 q = node fs q" "\<And>q. is_dir fs2 q = is_dir fs q"
    "files fs2 t \<noteq> None" using g [of fs2] by simp_all
  note gone = temp_removed [OF place t(1,6,5,4) g2]
  have start: "atomic_upload env fs p chunks ap =
      (case r2 of
         Inl e \<Rightarrow> (fs1 # tr2 @ [cut fs2 t], cut fs2 t, Inl (caught ?op e))
       | Inr n \<Rightarrow>
           (case sys_rename fs2 t p of
              Inl m \<Rightarrow> (fs1 # tr2 @ [cut fs2 t], cut fs2 t, Inl (caught ?op (os_error2 m t p)))
            | Inr fs3 \<Rightarrow> (fs1 # tr2 @ [fs3], fs3, Inr \<lparr>up_path = realpath fs3 p, up_bytes = n\<rparr>)))"
    using dirs made ui gone(1) by (auto simp: atomic_upload_def remove_temp_def Let_def split: sum.split)
  have trace: "\<forall>h\<in>set tr. h = fs' \<or> fs_wf h \<and> is_link h = is_link fs \<and> (\<forall>q. q \<noteq> t \<longrightarrow> node h q = node fs q)"
    if "tr = fs1 # tr2 @ [fs']" using that g by simp
  show ?thesis
  proof (cases r2)
    case (Inl e)
    then have x: "tr = fs1 # tr2 @ [fs']" "fs' = cut fs2 t" "r = Inl (caught ?op e)" using up start by auto
    from trace [OF x(1)] show ?thesis using gone(2,3) x(2,3) Inl by (simp add: ui)
  next
    case (Inr n)
    note u = eff(2) [OF Inr]
    let ?d = "(if ap then (case files fs1 p of Some old \<Rightarrow> old | None \<Rightarrow> []) else []) @ concat (fst chunks)"
    from temp_commit [OF place t(2,3,5,4) g2(1-4), of ?d] u obtain fs3 where fs3: "sys_rename fs2 t p = Inr fs3"
      "fs_wf fs3" "is_link fs3 = is_link fs" "files fs3 p = Some ?d" "\<forall>q. q \<noteq> p \<longrightarrow> node fs3 q = node fs q" by blast
    then have e: "tr = fs1 # tr2 @ [fs3]" "fs' = fs3" "r = Inr \<lparr>up_path = realpath fs3 p, up_bytes = n\<rparr>"
      using up start Inr by auto
    have "realpath fs3 p = p" using realpath_plain plain_cong [OF fs3(3)] pl by blast
    moreover have "files fs1 p = files fs p" using t(3,10) by (auto simp: files_def)
    ultimately show ?thesis using fs3(2,4,5) u trace Inr by (simp add: e ui)
  qed
qed

text \<open>An upload that is not cancelled, finds room on the disk and a free temporary name, and whose source ends
  regularly, succeeds.\<close>

lemma upload_loop_succeeds:
  "\<forall>k. \<not> ue_cancel env k \<and> \<not> ue_full env k \<Longrightarrow> snd src = None \<Longrightarrow>
     \<not> isl (snd (snd (upload_loop env op t k n fs src)))"
  by (induction env op t k n fs src rule: upload_loop.induct) (auto simp: Let_def split: prod.split)

lemma mkstemp_succeeds:
  assumes "fs_wf fs" "plain fs d" "is_dir fs d"
  shows "list_ex (\<lambda>r. node fs (temp_path d pre suf r) = None) rs \<Longrightarrow> \<exists>t fs1. mkstemp fs d pre suf rs = Inr (t, fs1)"
proof (induction rs)
  case (Cons r rs)
  have "follow fs d = Inr d" using follow_plain(1) [OF assms(1,2)] assms(3) by (auto simp: is_dir_def split: option.splits)
  then have "locate fs (temp_path d pre suf r) = Inr (temp_path d pre suf r)"
    using assms(3) by (simp add: locate_def temp_path_def)
  with Cons show ?case by auto
qed simp

lemma atomic_upload_succeeds:
  assumes place: "file_place fs p" "temps_ok env"
    and free: "list_ex (\<lambda>r. node fs (temp_path (butlast p) (temp_prefix p) ''.part'' r) = None) (ue_temps env)"
    and quiet: "\<forall>k. \<not> ue_cancel env k \<and> \<not> ue_full env k" "snd chunks = None"
  shows "\<exists>tr fs' res. atomic_upload env fs p chunks False = (tr, fs', Inr res)"
proof -
  obtain tr fs' r where up: "atomic_upload env fs p chunks False = (tr, fs', r)" by (metis prod_cases3)
  from place(1) have d: "fs_wf fs" "plain fs (butlast p)" "is_dir fs (butlast p)" by (simp_all add: file_place_def plain_butlast)
  from mkstemp_succeeds [OF d free] obtain t fs1 where
    m: "mkstemp fs (butlast p) (temp_prefix p) ''.part'' (ue_temps env) = Inr (t, fs1)" by blast
  have "\<not> isl r"
    using upload_through_temp [OF place m up] upload_loop_succeeds [OF quiet] by (simp add: upload_into_def)
  with up show ?thesis by (cases r) auto
qed

text \<open>
  The upload in one statement. On success the target holds the old contents if appending and then
  the chunks, and the tree is otherwise as before; on failure every node is as before. On the way
  nothing changes but the temporary file, until the last tree of the trace.
\<close>

lemma atomic_upload_effect:
  assumes root: "good_root fs b" and ins: "inside fs b p" and env: "temps_ok env"
    and up: "atomic_upload env fs p chunks ap = (tr, fs', r)"
  shows "(case r of
      Inl e \<Rightarrow> node fs' = node fs \<and> fs_wf fs'
    | Inr res \<Rightarrow> up_path res = p \<and> up_bytes res = int (length (concat (fst chunks))) \<and> snd chunks = None
        \<and> (\<forall>j\<le>length (fst chunks). \<not> ue_cancel env j)
        \<and> fs_wf fs' \<and> is_dir fs (butlast p) \<and> \<not> is_dir fs p \<and> p \<noteq> b
        \<and> files fs' p = Some ((if ap then (case files fs p of Some old \<Rightarrow> old | None \<Rightarrow> []) else []) @ concat (fst chunks))
        \<and> (\<forall>q. q \<noteq> p \<longrightarrow> node fs' q = node fs q))
    \<and> (\<exists>t. prefix b t \<and> t \<noteq> p \<and> (\<forall>g\<in>set tr. g = fs' \<or> fs_wf g \<and> is_link g = is_link fs \<and> (\<forall>q. q \<noteq> t \<longrightarrow> node g q = node fs q)))"
proof -
  note w = good_rootD(1) [OF root] and pl = insideD(1) [OF ins] and ok = insideD(2) [OF ins] and pb = insideD(3) [OF ins]
  have alt: "\<exists>t. prefix b t \<and> t \<noteq> p" by (metis append_eq_append_conv list.inject list.simps(3) not_Cons_self prefixI same_append_eq)
  have dirs: "path_isdir fs p \<longleftrightarrow> is_dir fs p" "path_isdir fs (butlast p) \<longleftrightarrow> is_dir fs (butlast p)"
    using isdir_plain [OF w pl] isdir_plain [OF w plain_butlast [OF pl]] by simp_all
  consider (refused) "tr = []" "fs' = fs" "\<exists>e. r = Inl e"
    | (made) t fs1 where "is_dir fs (butlast p)" "\<not> is_dir fs p"
        "mkstemp fs (butlast p) (temp_prefix p) ''.part'' (ue_temps env) = Inr (t, fs1)"
    using up by (cases "mkstemp fs (butlast p) (temp_prefix p) ''.part'' (ue_temps env)")
      (auto simp: atomic_upload_def dirs Let_def split: if_splits)
  then show ?thesis
  proof cases
    case refused
    then show ?thesis using w alt by auto
  next
    case made
    have pnb: "p \<noteq> b" using made(2) good_rootD(5) [OF root] by auto
    have pn: "p \<noteq> []" using made(2) wf_root [OF w] by auto
    have place: "file_place fs p" using made(1,2) w pl pn ok by (simp add: file_place_def names_ok_def)
    note t = temp_made [OF place env [unfolded temps_ok_def] made(3)]
    have "prefix b t" using pb pnb t(1) by (metis append_butlast_last_id pn prefix_prefix prefix_snoc t(6))
    with upload_through_temp [OF place env made(3) up] t(3) made(1,2) pnb show ?thesis by (cases r) auto
  qed
qed

lemma step_ok_upload:
  assumes "good_root fs b" "inside fs b p" "temps_ok env" "atomic_upload env fs p chunks ap = (tr, fs', r)"
  shows "step_ok b fs fs' \<and> is_link fs' = is_link fs \<and>
    (\<forall>g\<in>set tr. same_outside b fs g)"
proof -
  note eff = atomic_upload_effect [OF assms]
  note root = good_rootD [OF assms(1)]
  have out: "same_outside b fs g" if "prefix b t" "\<forall>q. q \<noteq> t \<and> q \<noteq> p \<longrightarrow> node g q = node fs q" for g t
    using that insideD(3) [OF assms(2)] by (auto simp: same_outside_def)
  have pb: "prefix b p" by (rule insideD(3) [OF assms(2)])
  have fin: "fs_wf fs' \<and> same_outside b fs fs' \<and> is_dir fs' b \<and> is_link fs' = is_link fs"
  proof (cases r)
    case (Inl e)
    with eff have n: "node fs' = node fs" "fs_wf fs'" by simp_all
    then show ?thesis using root by (simp add: same_outside_def is_dir_def is_link_def fun_eq_iff)
  next
    case (Inr res)
    with eff have e: "fs_wf fs'" "\<forall>q. q \<noteq> p \<longrightarrow> node fs' q = node fs q" "p \<noteq> b" "\<not> is_dir fs p"
      "files fs' p \<noteq> None" by simp_all
    have pn: "p \<noteq> []" using e(4) wf_root [OF root(1)] by auto
    have "is_link fs' p = None" using e(5) by (auto simp: files_def is_link_def split: option.splits kind.splits)
    then have "is_link fs' q = is_link fs q" for q
      using e(2) plain_last_link [OF insideD(1) [OF assms(2)] pn] by (cases "q = p") (simp_all add: is_link_def)
    moreover have "is_dir fs' b" using e(2,3) root(5) by (simp add: is_dir_def)
    ultimately show ?thesis using e(1,2) pb by (auto simp: same_outside_def)
  qed
  moreover have "\<forall>g\<in>set tr. same_outside b fs g"
  proof
    fix g assume "g \<in> set tr"
    with eff obtain t where t: "prefix b t" "g = fs' \<or> (\<forall>q. q \<noteq> t \<longrightarrow> node g q = node fs q)" by blast
    then show "same_outside b fs g" using fin out [OF t(1)] by auto
  qed
  ultimately show ?thesis by (simp add: step_ok_def)
qed

text \<open>The paths an operation works on.\<close>

definition target :: "path \<Rightarrow> file_system \<Rightarrow> path \<Rightarrow> string \<Rightarrow> path" where
  "target root fs cwd s = realpath fs (request_names root cwd s)"

lemma call_Inr [simp]: "call op r = Inr x \<longleftrightarrow> r = Inr x"
  by (cases r) (simp_all add: call_def)

lemma call_step_simps [simp]: "fst (call_step op r) = fst r" "snd (call_step op r) = call op (snd r)"
  by (simp_all add: call_step_def)

lemma resolve_target:
  assumes "good_root fs root" "slashless cwd" "loop_free fs" "resolve root fs cwd s = Inr p"
  shows "p = target root fs cwd s" "inside fs root p"
proof -
  have r: "resolve_path fs root cwd s = Inr p" using assms(4) by (simp add: resolve_def)
  then show "p = target root fs cwd s"
    by (auto simp: resolve_path_def target_def request_names_def Let_def split: if_splits)
  show "inside fs root p"
    by (rule resolve_path_inside [OF assms(1,2) _ r]) (use assms(3) in \<open>simp add: loop_free_def\<close>)
qed

section \<open>Properties\<close>

text \<open>C25: An upload is atomic for everyone else. While it runs, each tree the file system passes
  through differs from the first one in a temporary file at most, until the one that replaces the
  target; a failed upload, cancelled, out of disk or with a source that raises, leaves every node as it was.\<close>

theorem upload_atomic:
  assumes "good_root fs b" "inside fs b p" "temps_ok env" "atomic_upload env fs p chunks ap = (tr, fs', r)"
  shows "(\<exists>t. t \<noteq> p \<and> (\<forall>g\<in>set tr. g = fs' \<or> (\<forall>q. q \<noteq> t \<longrightarrow> node g q = node fs q)))
    \<and> (\<forall>e. r = Inl e \<longrightarrow> node fs' = node fs)
    \<and> (\<forall>res. r = Inr res \<longrightarrow> (\<forall>q. q \<noteq> p \<longrightarrow> node fs' q = node fs q))"
proof -
  note eff = atomic_upload_effect [OF assms]
  from eff obtain t where "t \<noteq> p" "\<forall>g\<in>set tr. g = fs' \<or> (\<forall>q. q \<noteq> t \<longrightarrow> node g q = node fs q)" by blast
  with eff show ?thesis by (intro conjI exI [of _ t]) (auto split: sum.splits)
qed

definition sample_env :: upload_env where
  "sample_env = \<lparr>ue_temps = [''abc''], ue_cancel = (\<lambda>k. False), ue_full = (\<lambda>k. k = 2)\<rparr>"

theorem upload_atomic_witness:
  "(case atomic_upload sample_env sample_tree [''ftp'', ''a''] ([[9], [8], [7]], None) False of
      (tr, fs', r) \<Rightarrow> r = Inl (FsError ''store'' 451 ''[Errno 28] No space left on device'') \<and> length tr = 4 \<and>
        node fs' = node sample_tree \<and>
        map (\<lambda>g. files g [''ftp'', ''.a.abc.part'']) tr = [Some [], Some [9], Some [9, 8], None])"
proof -
  obtain tr fs' r where u: "atomic_upload sample_env sample_tree [''ftp'', ''a''] ([[9], [8], [7]], None) False = (tr, fs', r)"
    by (metis prod_cases3)
  have i: "inside sample_tree sample_root [''ftp'', ''a'']" by code_simp
  have v: "(case atomic_upload sample_env sample_tree [''ftp'', ''a''] ([[9], [8], [7]], None) False of
      (tr, fs', r) \<Rightarrow> r = Inl (FsError ''store'' 451 ''[Errno 28] No space left on device'') \<and> length tr = 4 \<and>
        map (\<lambda>g. files g [''ftp'', ''.a.abc.part'']) tr = [Some [], Some [9], Some [9, 8], None])" by code_simp
  have "temps_ok sample_env" by code_simp
  from upload_atomic [OF sample_good i this u] v u show ?thesis by auto
qed

text \<open>C26: A completed upload holds what was sent. The source ended without an exception and no cancel
  was seen; the file is the old contents, when appending, followed by the chunks, and the result counts
  the bytes received and names the target.\<close>

theorem upload_contents:
  assumes "good_root fs b" "inside fs b p" "temps_ok env" "atomic_upload env fs p chunks ap = (tr, fs', Inr res)"
  shows "files fs' p = Some ((if ap then (case files fs p of Some old \<Rightarrow> old | None \<Rightarrow> []) else []) @ concat (fst chunks))
    \<and> snd chunks = None \<and> (\<forall>j\<le>length (fst chunks). \<not> ue_cancel env j)
    \<and> up_path res = p \<and> up_bytes res = int (length (concat (fst chunks)))"
  using atomic_upload_effect [OF assms] by simp

theorem upload_contents_witness:
  "files (fst (snd (atomic_upload sample_env sample_tree [''ftp'', ''a''] ([[9]], None) True))) [''ftp'', ''a''] = Some [1, 2, 3, 9]"
proof -
  obtain tr fs' r where u: "atomic_upload sample_env sample_tree [''ftp'', ''a''] ([[9]], None) True = (tr, fs', r)"
    by (metis prod_cases3)
  have i: "inside sample_tree sample_root [''ftp'', ''a'']" by code_simp
  have "case snd (snd (atomic_upload sample_env sample_tree [''ftp'', ''a''] ([[9]], None) True)) of Inl e \<Rightarrow> False | Inr x \<Rightarrow> True"
    by code_simp
  then obtain res where r: "r = Inr res" unfolding u by (cases r) auto
  have "temps_ok sample_env" by code_simp
  moreover have "files sample_tree [''ftp'', ''a''] = Some [1, 2, 3]" by code_simp
  ultimately show ?thesis using upload_contents [OF sample_good i _ u [unfolded r]] u by simp
qed

end
