(* ===== verification/Session.thy ===== *)
theory Session
  imports Filesystem_Service RDT_Context
begin

text \<open>
  src/server/session.py, command_parser.py, ftp_reply.py and logging_utils.py: the state of one FTP
  session, command lines and the fixed replies. Thread objects, sockets and events of the session are
  identified by numbers; the tables that say which sockets are open and which events are set are the
  state of the command handler.
\<close>

section \<open>Replies and commands\<close>

definition crlf :: string where
  "crlf = [char_of (13::nat), char_of (10::nat)]"

definition READY :: string where "READY = ''220 Hybrid FTP Server Ready'' @ crlf"
definition LOGIN_REQUIRED :: string where "LOGIN_REQUIRED = ''530 Not logged in'' @ crlf"
definition LOGIN_OK :: string where "LOGIN_OK = ''230 Login successful'' @ crlf"
definition USER_OK :: string where "USER_OK = ''331 Username OK'' @ crlf"
definition QUIT :: string where "QUIT = ''221 Goodbye'' @ crlf"
definition NOT_IMPLEMENTED :: string where "NOT_IMPLEMENTED = ''502 Command not implemented'' @ crlf"
definition TRANSFER_START :: string where "TRANSFER_START = ''150 Opening data connection'' @ crlf"
definition TRANSFER_OK :: string where "TRANSFER_OK = ''226 Transfer complete'' @ crlf"

lemmas reply_defs = READY_def LOGIN_REQUIRED_def LOGIN_OK_def USER_OK_def QUIT_def NOT_IMPLEMENTED_def
  TRANSFER_START_def TRANSFER_OK_def

record ftp_command =
  cmd_name :: string
  cmd_argument :: string

text \<open>raw.strip().split(maxsplit=1): the first word and the rest without its leading white space.\<close>

definition parse :: "string \<Rightarrow> ftp_command" where
  "parse raw =
     (let s = strip raw in
      if s = [] then \<lparr>cmd_name = [], cmd_argument = []\<rparr>
      else \<lparr>cmd_name = ascii_upper (takeWhile (\<lambda>c. \<not> is_space c) s),
            cmd_argument = dropWhile is_space (dropWhile (\<lambda>c. \<not> is_space c) s)\<rparr>)"

definition redact_command :: "string \<Rightarrow> string" where
  "redact_command command =
     (let verb = takeWhile (\<lambda>c. c \<noteq> CHR '' '') command;
          separator = CHR '' '' \<in> set command
      in if separator \<and> ascii_upper verb = ''PASS'' then verb @ '' ********'' else command)"

section \<open>The session\<close>

text \<open>
  A transfer worker is a thread: started, then running with what it has read from the session, then
  about to send its last reply, then ended. The dictionary current_transfer is its type and file.
\<close>

record transfer_args =
  ta_socket :: "nat option"
  ta_host :: "string option"
  ta_port :: "int option"
  ta_event :: nat
  ta_context :: transfer_context
  ta_data_mode :: "data_mode option"
  ta_cwd :: path
  ta_peer_ip :: "string option"

datatype worker_phase = Started | Running transfer_args | Reporting string | Ended

record worker =
  w_operation :: operation
  w_argument :: "string option"
  w_transfer_id :: string
  w_phase :: worker_phase

record session =
  username :: "string option"
  is_logged_in :: bool
  ftp_root :: path
  current_dir :: path
  rename_from :: "string option"
  transfer_type :: string
  transfer_mode :: string
  data_host :: "string option"
  data_port :: "int option"
  data_socket :: "nat option"
  sess_data_mode :: "data_mode option"
  transfer_cancelled :: bool
  transfer_cancel_event :: "nat option"
  current_transfer :: "(operation \<times> string option) option"
  transfer_worker :: "worker option"
  sess_transfer_id :: "string option"
  session_id :: string
  peer_ip :: "string option"
  server_ip :: "string option"

definition new_session :: "path \<Rightarrow> string \<Rightarrow> string option \<Rightarrow> string option \<Rightarrow> session" where
  "new_session root sid peer server =
     \<lparr>username = None, is_logged_in = False, ftp_root = root, current_dir = root, rename_from = None,
      transfer_type = ''I'', transfer_mode = ''S'', data_host = None, data_port = None, data_socket = None,
      sess_data_mode = None, transfer_cancelled = False, transfer_cancel_event = None, current_transfer = None,
      transfer_worker = None, sess_transfer_id = None, session_id = sid, peer_ip = peer, server_ip = server\<rparr>"

text \<open>\<open>f"T{n:06d}"\<close>.\<close>

definition pad6 :: "nat \<Rightarrow> string" where
  "pad6 n = (let s = show_nat n in replicate (6 - length s) (CHR ''0'') @ s)"

definition new_transfer_id :: "nat \<Rightarrow> session \<Rightarrow> session \<times> string" where
  "new_transfer_id n s = (let i = CHR ''T'' # pad6 n in (s\<lparr>sess_transfer_id := Some i\<rparr>, i))"

section \<open>Facts about command lines\<close>

lemma strip_spaces: "strip (CHR '' '' # s) = strip s"
  by (simp add: strip_def is_space_def ord_char_def)

text \<open>
  Redaction looks for a space after the first word of the raw line, the parser strips the line and
  splits at any white space. A line that begins with a blank, or has a tab after PASS, is a PASS
  command whose argument is logged in clear.
\<close>

lemma redact_misses:
  "cmd_name (parse ('' PASS secret'')) = ''PASS''" "redact_command ('' PASS secret'') = '' PASS secret''"
  by code_simp+

end
