(* ===== verification/Transfer_Manager.thy ===== *)
theory Transfer_Manager
  imports Session RDT_Adapters Mode_Codec
begin

text \<open>
  src/server/transfer_manager.py: the life of one transfer. A transfer begins by taking its arguments
  from the session, runs through the RDT adapters, the codecs and the filesystem service, and ends
  with a structured result and the data channel of the session reset. The answers of the network are
  scripts, as for the RDT; None is a transfer that still waits for the script to go on.
\<close>

record transfer_result =
  tr_success :: bool
  tr_reply_code :: int
  tr_bytes :: int
  tr_path :: "path option"
  tr_error :: "string option"

definition result_ok :: "int \<Rightarrow> path \<Rightarrow> transfer_result" where
  "result_ok n p = \<lparr>tr_success = True, tr_reply_code = 226, tr_bytes = n, tr_path = Some p, tr_error = None\<rparr>"

definition result_failed :: "int \<Rightarrow> string \<Rightarrow> transfer_result" where
  "result_failed code m = \<lparr>tr_success = False, tr_reply_code = code, tr_bytes = 0, tr_path = None, tr_error = Some m\<rparr>"

text \<open>The except clauses that all four operations share.\<close>

fun settle :: "exn + transfer_result \<Rightarrow> exn + transfer_result" where
  "settle (Inr r) = Inr r"
| "settle (Inl (FsError op code m)) = Inr (result_failed code m)"
| "settle (Inl (OSErr k m)) = Inr (result_failed 426 m)"
| "settle (Inl (RuntimeError m)) = Inr (result_failed 426 m)"
| "settle (Inl (TypeError m)) = Inr (result_failed 426 m)"
| "settle (Inl (ValueError m)) = Inr (result_failed 426 m)"
| "settle (Inl e) = Inl e"

section \<open>Beginning and end\<close>

definition or_default :: "string \<Rightarrow> string \<Rightarrow> string" where
  "or_default s d = (if s = [] then d else s)"

definition mode_for :: "session \<Rightarrow> string" where
  "mode_for s = ascii_upper (strip (or_default (transfer_mode s) ''S''))"

definition type_for :: "session \<Rightarrow> string" where
  "type_for s = ascii_upper (strip (or_default (transfer_type s) ''I''))"

definition event_for :: "nat \<Rightarrow> session \<Rightarrow> session" where
  "event_for ev s = s\<lparr>transfer_cancel_event := Some ev, transfer_cancelled := False\<rparr>"

text \<open>The endpoint is the tuple of the session's data host and port, which a started transfer has.\<close>

definition context_for :: "session \<Rightarrow> operation \<Rightarrow> string option \<Rightarrow> int option \<Rightarrow> transfer_context" where
  "context_for s op host port =
     \<lparr>ctx_transfer_id = (case sess_transfer_id s of Some i \<Rightarrow> i | None \<Rightarrow> ''None''),
      ctx_operation = op, ctx_session_id = session_id s,
      ctx_endpoint = \<lparr>ep_host = (case host of Some h \<Rightarrow> h | None \<Rightarrow> []),
                      ep_port = (case port of Some p \<Rightarrow> p | None \<Rightarrow> 0),
                      ep_mode = (case sess_data_mode s of Some m \<Rightarrow> m | None \<Rightarrow> PASSIVE)\<rparr>,
      ctx_chunk_size = 1024, ctx_timeout_ms = 500, ctx_retry_limit = 10, ctx_max_timeouts = 10,
      ctx_window_size = 4, ctx_total_bytes = None,
      ctx_transfer_mode = mode_for s, ctx_transfer_type = type_for s\<rparr>"

definition begin_transfer :: "nat \<Rightarrow> operation \<Rightarrow> session \<Rightarrow> session \<times> transfer_args" where
  "begin_transfer ev op s =
     (event_for ev s,
      \<lparr>ta_socket = data_socket s, ta_host = data_host s, ta_port = data_port s, ta_event = ev,
       ta_context = context_for (event_for ev s) op (data_host s) (data_port s),
       ta_data_mode = sess_data_mode s, ta_cwd = current_dir s, ta_peer_ip = peer_ip s\<rparr>)"

definition finish :: "nat \<Rightarrow> session \<Rightarrow> session" where
  "finish ev s =
     s\<lparr>transfer_cancel_event := (if transfer_cancel_event s = Some ev then None else transfer_cancel_event s),
       current_transfer := None, data_socket := None, data_host := None, data_port := None,
       sess_data_mode := None\<rparr>"

text \<open>
  cancel: the event it sets, a new one if no transfer has begun, and the session with its data socket
  closed. current_transfer is a dictionary and has no cancel method.
\<close>

definition cancel :: "nat \<Rightarrow> session \<Rightarrow> session \<times> nat" where
  "cancel fresh s =
     (let ev = (case transfer_cancel_event s of Some e \<Rightarrow> e | None \<Rightarrow> fresh)
      in (s\<lparr>transfer_cancel_event := Some ev, transfer_cancelled := True, data_socket := None\<rparr>, ev))"

definition args_mode :: "transfer_args \<Rightarrow> string option" where
  "args_mode a = Some (ctx_transfer_mode (ta_context a))"

definition args_type :: "transfer_args \<Rightarrow> string option" where
  "args_type a = Some (ctx_transfer_type (ta_context a))"

section \<open>Paths of a transfer\<close>

text \<open>
  The operations read the session's MODE, TYPE, working directory and peer when they begin; these are
  in the arguments (the mode and the type as the context has them). _target: an argument that is an absolute path is taken for one of the server's file system and
  made relative to the working directory.
\<close>

definition transfer_target :: "file_system \<Rightarrow> path \<Rightarrow> string \<Rightarrow> path \<times> string" where
  "transfer_target fs current service_path =
     (let cwd = realpath fs current in
      (cwd, if starts_with service_path [slash] then relpath (norm_from [] (split_on slash service_path)) cwd
            else service_path))"

section \<open>Receiving operations\<close>

definition no_settimeout :: exn where
  "no_settimeout = AttributeError (py_repr ''NoneType'' @ '' object has no attribute '' @ py_repr ''settimeout'')"

text \<open>The RDT receiver as the source of chunks; without a socket its first step raises.\<close>

definition receive_source :: "transfer_args \<Rightarrow> (bool \<times> recv) list \<Rightarrow> source option" where
  "receive_source a ins =
     (if ta_socket a = None then Some ([], Some no_settimeout)
      else receiver_source (snd (adapter_receive (ta_context a) ins)))"

definition upload_reply :: "upload_result outcome \<Rightarrow> exn + transfer_result" where
  "upload_reply r = settle (case snd r of Inl e \<Rightarrow> Inl e | Inr u \<Rightarrow> Inr (result_ok (up_bytes u) (up_path u)))"

type_synonym transfer_run = "file_system list \<times> file_system \<times> (exn + transfer_result)"

definition finished :: "file_system list \<times> upload_result outcome \<Rightarrow> transfer_run" where
  "finished r = (fst r, fst (snd r), upload_reply (snd r))"

definition upload :: "upload_env \<Rightarrow> path \<Rightarrow> file_system \<Rightarrow> transfer_args \<Rightarrow> string \<Rightarrow> (bool \<times> recv) list \<Rightarrow>
    transfer_run option" where
  "upload env root fs a filepath ins =
     (case transfer_target fs (ta_cwd a) filepath of
        (cwd, client_path) \<Rightarrow>
          map_option (\<lambda>src. finished (svc_store env root fs cwd client_path
              (decode_chunks src (args_mode a) (args_type a))))
            (receive_source a ins))"

definition append_upload :: "upload_env \<Rightarrow> path \<Rightarrow> file_system \<Rightarrow> transfer_args \<Rightarrow> string \<Rightarrow>
    (bool \<times> recv) list \<Rightarrow> transfer_run option" where
  "append_upload env root fs a filepath ins =
     (case transfer_target fs (ta_cwd a) filepath of
        (cwd, client_path) \<Rightarrow>
          map_option (\<lambda>src. finished (svc_append env root fs cwd client_path
              (decode_chunks src (args_mode a) (args_type a))))
            (receive_source a ins))"

definition upload_unique :: "upload_env \<Rightarrow> string list \<Rightarrow> path \<Rightarrow> file_system \<Rightarrow> transfer_args \<Rightarrow>
    (bool \<times> recv) list \<Rightarrow> transfer_run option" where
  "upload_unique env uuids root fs a ins =
     (case receive_source a ins of
        None \<Rightarrow> None
      | Some src \<Rightarrow>
          map_option finished
            (svc_store_unique env uuids root fs (ta_cwd a)
              (decode_chunks src (args_mode a) (args_type a)) ''upload_''))"

section \<open>Sending\<close>

text \<open>The readiness probe of a passive download: a START of length zero from the client's address.\<close>

definition probe_ok :: "rdt_header \<Rightarrow> bytes \<Rightarrow> exn + bool" where
  "probe_ok h packet =
     (if h_flags h = FLAG_START \<and> h_seq_num h = 0 \<and> validate_length h packet
      then verify_checksum h (drop header_size packet) else Inr False)"

fun wait_for_passive_peer :: "nat \<Rightarrow> string option \<Rightarrow> (bool \<times> recv) list \<Rightarrow> (exn + address) option" where
  "wait_for_passive_peer 0 expected_ip ins =
     Some (Inl (ValueError ''Passive client did not provide a UDP readiness probe''))"
| "wait_for_passive_peer (Suc n) expected_ip [] = None"
| "wait_for_passive_peer (Suc n) expected_ip ((cancelled, rv) # ins) =
     (if cancelled then Some (Inl (cancelled_error ''transfer''))
      else case rv of
             Timeout \<Rightarrow> wait_for_passive_peer n expected_ip ins
           | RecvOSError m \<Rightarrow> Some (Inl (ValueError ''Passive UDP socket closed''))
           | Datagram d addr \<Rightarrow>
               let packet = take (header_size + 64) d in
               if expected_ip \<noteq> None \<and> expected_ip \<noteq> Some [] \<and> expected_ip \<noteq> Some (fst addr)
               then wait_for_passive_peer n expected_ip ins
               else case deserialize packet of
                      Inl e \<Rightarrow> wait_for_passive_peer n expected_ip ins
                    | Inr h \<Rightarrow>
                        (case probe_ok h packet of
                           Inl e \<Rightarrow> Some (Inl e)
                         | Inr True \<Rightarrow> Some (Inr addr)
                         | Inr False \<Rightarrow> wait_for_passive_peer n expected_ip ins))"

definition passive_peer :: "transfer_args \<Rightarrow> (bool \<times> recv) list \<Rightarrow> (exn + endpoint) option" where
  "passive_peer a ins =
     (if ta_data_mode a \<noteq> Some PASSIVE then Some (Inr (ctx_endpoint (ta_context a)))
      else if ta_socket a = None then Some (Inl (ValueError ''Passive transfer has no UDP socket''))
      else map_option (\<lambda>r. case r of
               Inl e \<Rightarrow> Inl e
             | Inr addr \<Rightarrow> Inr \<lparr>ep_host = fst addr, ep_port = snd addr, ep_mode = PASSIVE\<rparr>)
             (wait_for_passive_peer (ctx_max_timeouts (ta_context a)) (ta_peer_ip a) ins))"

definition sender_result :: "sender \<Rightarrow> (exn + int) option" where
  "sender_result st = (case s_pc st of SendReturned n \<Rightarrow> Some (Inr n) | SendRaised e \<Rightarrow> Some (Inl e) | _ \<Rightarrow> None)"

text \<open>
  download. The path is checked and sized on the tree fs; the file is read, and the path checked
  again for the result, on the tree at the end, which other sessions may have changed.
\<close>

definition download :: "(string \<Rightarrow> string) \<Rightarrow> path \<Rightarrow> file_system \<Rightarrow> file_system \<Rightarrow> transfer_args \<Rightarrow> string \<Rightarrow>
    (bool \<times> recv) list \<Rightarrow> (bool \<times> recv) list \<Rightarrow> (exn + transfer_result) option" where
  "download host_of root fs fs' a filepath probes ins =
     (case transfer_target fs (ta_cwd a) filepath of
        (cwd, client_path) \<Rightarrow>
          (case read_chunks root fs cwd client_path 1024 of
             Inl e \<Rightarrow> Some (settle (Inl e))
           | Inr chunks \<Rightarrow>
               (case svc_size root fs cwd client_path of
                  Inl e \<Rightarrow> Some (settle (Inl e))
                | Inr nbytes \<Rightarrow>
                    let ctx = (ta_context a)\<lparr>ctx_total_bytes := Some nbytes\<rparr> in
                    (case passive_peer a probes of
                       None \<Rightarrow> None
                     | Some (Inl e) \<Rightarrow> Some (settle (Inl e))
                     | Some (Inr ep) \<Rightarrow>
                         map_option (\<lambda>r. settle (case r of
                              Inl e \<Rightarrow> Inl e
                            | Inr acked \<Rightarrow>
                                (case prepare_retrieve root fs' cwd client_path of
                                   Inl e \<Rightarrow> Inl e
                                 | Inr p \<Rightarrow> Inr (result_ok nbytes p))))
                           (sender_result (snd (adapter_send host_of ep (ctx\<lparr>ctx_endpoint := ep\<rparr>)
                              (encode_chunks (chunks fs') (args_mode a) (args_type a)) ins)))))))"

end
