(* ===== verification/Text.thy ===== *)
theory Text
  imports Paths
begin

text \<open>
  Python's text functions used by the command layer and the client: int() of a string, decimal
  digits, alignment and joining.
\<close>

definition is_digit :: "char \<Rightarrow> bool" where
  "is_digit c \<longleftrightarrow> 48 \<le> ord_char c \<and> ord_char c \<le> 57"

definition digit_value :: "char \<Rightarrow> nat" where
  "digit_value c = ord_char c - 48"

text \<open>The digits of int(): single underscores may stand between digits.\<close>

fun digits_value :: "string \<Rightarrow> bool \<Rightarrow> nat \<Rightarrow> nat option" where
  "digits_value [] after_digit n = (if after_digit then Some n else None)"
| "digits_value (c # cs) after_digit n =
     (if is_digit c then digits_value cs True (10 * n + digit_value c)
      else if c = CHR ''_'' \<and> after_digit then digits_value cs False n else None)"

definition py_int :: "string \<Rightarrow> int option" where
  "py_int s =
     (case strip s of
        [] \<Rightarrow> None
      | c # cs \<Rightarrow>
          if c = CHR ''-'' then map_option (\<lambda>n. - int n) (digits_value cs False 0)
          else if c = CHR ''+'' then map_option int (digits_value cs False 0)
          else map_option int (digits_value (c # cs) False 0))"

definition rjust :: "nat \<Rightarrow> string \<Rightarrow> string" where
  "rjust w s = replicate (w - length s) (CHR '' '') @ s"

section \<open>Numbers printed and read\<close>

lemma ord_digit_char: "d < 10 \<Longrightarrow> ord_char (digit_char d) = 48 + d"
  by (simp add: ord_char_def digit_char_def)

lemma digit_char_facts: "d < 10 \<Longrightarrow> is_digit (digit_char d) \<and> digit_value (digit_char d) = d"
  by (simp add: is_digit_def digit_value_def ord_digit_char)

lemma digits_value_append:
  "list_all is_digit s \<Longrightarrow> s \<noteq> [] \<Longrightarrow>
     digits_value (s @ t) b n = digits_value t True (foldl (\<lambda>m c. 10 * m + digit_value c) n s)"
proof (induction s arbitrary: b n)
  case (Cons c s)
  then show ?case by (cases "s = []") simp_all
qed simp

lemma show_nat_digits: "list_all is_digit (show_nat n) \<and> show_nat n \<noteq> []"
proof (induction n rule: show_nat.induct)
  case (1 n)
  show ?case
  proof (cases "n < 10")
    case True
    then show ?thesis by (simp add: show_nat.simps [of n] digit_char_facts)
  next
    case False
    with 1 show ?thesis by (simp add: show_nat.simps [of n] digit_char_facts)
  qed
qed

lemma foldl_show_nat: "foldl (\<lambda>m c. 10 * m + digit_value c) 0 (show_nat n) = n"
proof (induction n rule: show_nat.induct)
  case (1 n)
  show ?case
  proof (cases "n < 10")
    case True
    then show ?thesis by (simp add: show_nat.simps [of n] digit_char_facts)
  next
    case False
    with 1 show ?thesis by (simp add: show_nat.simps [of n] digit_char_facts)
  qed
qed

lemma digit_not_space: "is_digit c \<Longrightarrow> \<not> is_space c"
  by (auto simp: is_digit_def is_space_def)

lemma strip_digits:
  assumes "s \<noteq> []" "list_all (\<lambda>c. \<not> is_space c) s"
  shows "strip s = s"
proof -
  have h: "dropWhile is_space s = s" using assms by (cases s) auto
  have "rev s \<noteq> []" "list_all (\<lambda>c. \<not> is_space c) (rev s)" using assms by (simp_all add: list_all_iff)
  then have "dropWhile is_space (rev s) = rev s" by (cases "rev s") auto
  with h show ?thesis by (simp add: strip_def)
qed

lemma py_int_show_nat: "py_int (show_nat n) = Some (int n)"
proof -
  have d: "list_all is_digit (show_nat n)" "show_nat n \<noteq> []" using show_nat_digits by simp_all
  have "list_all (\<lambda>c. \<not> is_space c) (show_nat n)"
    using d(1) by (auto simp: list_all_iff digit_not_space)
  then have st: "strip (show_nat n) = show_nat n" using d(2) by (rule strip_digits [rotated])
  obtain c cs where c: "show_nat n = c # cs" using d(2) by (cases "show_nat n") auto
  have "is_digit c" using d(1) c by simp
  then have "c \<noteq> CHR ''-''" "c \<noteq> CHR ''+''" by (auto simp: is_digit_def ord_char_def)
  moreover have "digits_value (c # cs) False 0 = Some n"
    using digits_value_append [of "show_nat n" "[]" False 0] d foldl_show_nat [of n] c by simp
  ultimately show ?thesis using st c by (simp add: py_int_def)
qed

end
