(* ===== verification/Command_Handler.thy ===== *)
theory Command_Handler
  imports Transfer_Manager Text
begin

text \<open>
  src/server/command_handler.py: every FTP command as a function on the state of one session, giving
  the reply or the exception the client handler turns into a 500. The handler is configured with the
  root of the transfer manager's filesystem service, or has no transfer manager.
\<close>

text \<open>
  The state a command works on: the file system and transfer counter shared by all sessions, the
  session, the open UDP sockets with their ports, the number for the next socket or event, and the
  events that are set.
\<close>

record server_state =
  sv_fs :: file_system
  sv_counter :: nat
  sv_session :: session
  sv_sockets :: "(nat \<times> int) list"
  sv_next :: nat
  sv_events :: "nat list"

text \<open>What the operating system answers during one command: a new UDP socket's port or the exception
  of creating it, and the address of the host's own name.\<close>

record cmd_env =
  ce_port :: "exn + int"
  ce_own_address :: "string option"

type_synonym response = "server_state \<times> (exn + string)"

definition say :: "string \<Rightarrow> server_state \<Rightarrow> response" where
  "say m st = (st, Inr (m @ crlf))"

definition upd :: "(session \<Rightarrow> session) \<Rightarrow> server_state \<Rightarrow> server_state" where
  "upd f st = st\<lparr>sv_session := f (sv_session st)\<rparr>"

section \<open>Calling the filesystem service\<close>

text \<open>_fs: the shared service, or one made for the session's root, which is created if missing.\<close>

definition handler_fs :: "path option \<Rightarrow> file_system \<Rightarrow> path \<Rightarrow> path outcome" where
  "handler_fs manager fs root =
     (case manager of
        Some r \<Rightarrow> (fs, Inr r)
      | None \<Rightarrow>
          (case (if path_exists fs root then (fs, None) else makedirs True fs root) of
             (fs1, Some e) \<Rightarrow> (fs1, Inl e)
           | (fs1, None) \<Rightarrow> (fs1, service_root fs1 root)))"

text \<open>The except clauses: an error of the service gives its code and text, any other exception the
  fallback reply, or is passed on where the command has no such clause.\<close>

fun error_reply :: "string option \<Rightarrow> exn \<Rightarrow> exn + string" where
  "error_reply fallback (FsError op code m) = Inr (show_int code @ '' '' @ m @ crlf)"
| "error_reply (Some f) e = Inr (f @ crlf)"
| "error_reply None e = Inl e"

definition service_call :: "path option \<Rightarrow> server_state \<Rightarrow> (path \<Rightarrow> file_system \<Rightarrow> 'a outcome) \<Rightarrow> server_state \<times> (exn + 'a)" where
  "service_call manager st act =
     (case handler_fs manager (sv_fs st) (ftp_root (sv_session st)) of
        (fs1, Inl e) \<Rightarrow> (st\<lparr>sv_fs := fs1\<rparr>, Inl e)
      | (fs1, Inr root) \<Rightarrow> (case act root fs1 of (fs2, r) \<Rightarrow> (st\<lparr>sv_fs := fs2\<rparr>, r)))"

definition query :: "(path \<Rightarrow> file_system \<Rightarrow> exn + 'a) \<Rightarrow> path \<Rightarrow> file_system \<Rightarrow> 'a outcome" where
  "query f root fs = (fs, f root fs)"

definition answer :: "string option \<Rightarrow> ('a \<Rightarrow> server_state \<Rightarrow> server_state) \<Rightarrow> ('a \<Rightarrow> string) \<Rightarrow>
    server_state \<times> (exn + 'a) \<Rightarrow> response" where
  "answer fallback change text r =
     (case r of
        (st, Inl e) \<Rightarrow> (st, error_reply fallback e)
      | (st, Inr x) \<Rightarrow> say (text x) (change x st))"

section \<open>Login and simple commands\<close>

definition user_cmd :: "string \<Rightarrow> server_state \<Rightarrow> response" where
  "user_cmd arg st =
     (if strip arg = [] then say ''501 Invalid username'' st
      else (upd (\<lambda>s. s\<lparr>username := Some (strip arg), is_logged_in := False, rename_from := None\<rparr>) st, Inr USER_OK))"

definition password_cmd :: "string \<Rightarrow> server_state \<Rightarrow> response" where
  "password_cmd arg st =
     (if username (sv_session st) = None then say ''503 Login with USER first'' st
      else if is_logged_in (sv_session st) then say ''230 Already logged in'' st
      else if arg \<noteq> [] then (upd (\<lambda>s. s\<lparr>is_logged_in := True\<rparr>) st, Inr LOGIN_OK)
      else say ''530 Login incorrect'' (upd (\<lambda>s. s\<lparr>is_logged_in := False, username := None\<rparr>) st))"

definition quit_cmd :: "string \<Rightarrow> server_state \<Rightarrow> response" where
  "quit_cmd arg st =
     (if arg \<noteq> [] then say ''501 Syntax error in parameters'' st
      else (upd (\<lambda>s. s\<lparr>rename_from := None\<rparr>) st, Inr QUIT))"

definition noop_cmd :: "string \<Rightarrow> server_state \<Rightarrow> response" where
  "noop_cmd arg st = (if arg \<noteq> [] then say ''501 Syntax error in parameters'' st else say ''200 NOOP OK'' st)"

text \<open>The test most commands begin with.\<close>

definition logged :: "server_state \<Rightarrow> (server_state \<Rightarrow> response) \<Rightarrow> response" where
  "logged st f = (if \<not> is_logged_in (sv_session st) then say ''530 Not logged in'' st else f st)"

definition type_cmd :: "string \<Rightarrow> server_state \<Rightarrow> response" where
  "type_cmd arg st = logged st (\<lambda>st.
     if arg = [] then say ''501 Missing argument'' st
     else if ascii_upper arg = ''A'' then say ''200 Type set to ASCII'' (upd (\<lambda>s. s\<lparr>transfer_type := ''A''\<rparr>) st)
     else if ascii_upper arg = ''I'' then say ''200 Type set to Binary'' (upd (\<lambda>s. s\<lparr>transfer_type := ''I''\<rparr>) st)
     else say ''501 Invalid TYPE'' st)"

definition mode_cmd :: "string \<Rightarrow> server_state \<Rightarrow> response" where
  "mode_cmd arg st = logged st (\<lambda>st.
     let mode = ascii_upper (strip arg) in
     if arg = [] then say ''501 Missing argument'' st
     else if mode = ''S'' then say ''200 Mode Stream'' (upd (\<lambda>s. s\<lparr>transfer_mode := ''S''\<rparr>) st)
     else if mode = ''B'' then say ''200 Mode Block'' (upd (\<lambda>s. s\<lparr>transfer_mode := ''B''\<rparr>) st)
     else if mode = ''C'' then say ''200 Mode Compressed'' (upd (\<lambda>s. s\<lparr>transfer_mode := ''C''\<rparr>) st)
     else say ''501 Invalid MODE'' st)"

section \<open>Directories and files\<close>

abbreviation cwd_of :: "server_state \<Rightarrow> path" where
  "cwd_of st \<equiv> current_dir (sv_session st)"

definition pwd_cmd :: "path option \<Rightarrow> string \<Rightarrow> server_state \<Rightarrow> response" where
  "pwd_cmd m arg st =
     (if arg \<noteq> [] then say ''501 Syntax error in parameters'' st
      else logged st (\<lambda>st. answer None (\<lambda>p st. st)
        (\<lambda>p. ''257 '' @ [char_of (34::nat)] @ p @ [char_of (34::nat)])
        (service_call m st (query (\<lambda>root fs. display_path root fs (cwd_of st))))))"

definition set_cwd :: "path \<Rightarrow> server_state \<Rightarrow> server_state" where
  "set_cwd p st = upd (\<lambda>s. s\<lparr>current_dir := p\<rparr>) st"

definition cwd_cmd :: "path option \<Rightarrow> string \<Rightarrow> server_state \<Rightarrow> response" where
  "cwd_cmd m arg st = logged st (\<lambda>st.
     if arg = [] then say ''501 Missing directory'' st
     else answer (Some ''550 Directory not found'') set_cwd (\<lambda>p. ''250 Directory changed'')
       (service_call m st (query (\<lambda>root fs. change_directory root fs (cwd_of st) arg))))"

definition cdup_cmd :: "path option \<Rightarrow> string \<Rightarrow> server_state \<Rightarrow> response" where
  "cdup_cmd m arg st =
     (if arg \<noteq> [] then say ''501 Syntax error in parameters'' st
      else logged st (\<lambda>st. answer (Some ''550 Cannot go above FTP root'') set_cwd (\<lambda>p. ''200 Directory changed to parent'')
        (service_call m st (query (\<lambda>root fs. parent_directory root fs (cwd_of st))))))"

definition mkd_cmd :: "path option \<Rightarrow> string \<Rightarrow> server_state \<Rightarrow> response" where
  "mkd_cmd m arg st = logged st (\<lambda>st.
     if arg = [] then say ''501 Missing directory'' st
     else answer (Some ''550 Cannot create directory'') (\<lambda>p st. st) (\<lambda>p. ''257 Directory created'')
       (service_call m st (\<lambda>root fs. svc_make_directory root fs (cwd_of st) arg)))"

definition rmd_cmd :: "path option \<Rightarrow> string \<Rightarrow> server_state \<Rightarrow> response" where
  "rmd_cmd m arg st = logged st (\<lambda>st.
     if arg = [] then say ''501 Missing directory'' st
     else answer (Some ''550 Cannot remove directory'') (\<lambda>p st. st) (\<lambda>p. ''250 Directory removed'')
       (service_call m st (\<lambda>root fs. svc_remove_directory root fs (cwd_of st) arg)))"

definition dele_cmd :: "path option \<Rightarrow> string \<Rightarrow> server_state \<Rightarrow> response" where
  "dele_cmd m arg st = logged st (\<lambda>st.
     if arg = [] then say ''501 Missing filename'' st
     else answer (Some ''550 Cannot delete file'') (\<lambda>p st. st) (\<lambda>p. ''250 File deleted'')
       (service_call m st (\<lambda>root fs. svc_delete root fs (cwd_of st) arg)))"

definition forget_rename :: "server_state \<Rightarrow> server_state" where
  "forget_rename st = upd (\<lambda>s. s\<lparr>rename_from := None\<rparr>) st"

definition rnfr_cmd :: "path option \<Rightarrow> string \<Rightarrow> server_state \<Rightarrow> response" where
  "rnfr_cmd m arg st = logged st (\<lambda>st.
     if arg = [] then say ''501 Missing filename'' st
     else
       (case service_call m st (query (\<lambda>root fs. prepare_retrieve root fs (cwd_of st) arg)) of
          (st1, Inl e) \<Rightarrow> (forget_rename st1, error_reply (Some ''550 File not found'') e)
        | (st1, Inr p) \<Rightarrow> say ''350 Ready for RNTO'' (upd (\<lambda>s. s\<lparr>rename_from := Some arg\<rparr>) st1)))"

definition rnto_cmd :: "path option \<Rightarrow> string \<Rightarrow> server_state \<Rightarrow> response" where
  "rnto_cmd m arg st = logged st (\<lambda>st.
     if arg = [] then say ''501 Missing filename'' (forget_rename st)
     else
       (case rename_from (sv_session st) of
          None \<Rightarrow> say ''503 RNFR required'' st
        | Some source \<Rightarrow>
            if source = [] then say ''503 RNFR required'' st
            else
              (case service_call m st (\<lambda>root fs. svc_rename root fs (cwd_of st) source arg) of
                 (st1, Inl e) \<Rightarrow> (forget_rename st1, error_reply (Some ''550 Rename failed'') e)
               | (st1, Inr u) \<Rightarrow> say ''250 Rename successful'' (forget_rename st1))))"

section \<open>Listings and information\<close>

definition month_name :: "nat \<Rightarrow> string" where
  "month_name k = [''Jan'', ''Feb'', ''Mar'', ''Apr'', ''May'', ''Jun'', ''Jul'', ''Aug'', ''Sep'', ''Oct'', ''Nov'', ''Dec''] ! (k - 1)"

definition number_at :: "nat \<Rightarrow> nat \<Rightarrow> string \<Rightarrow> nat" where
  "number_at i n s = foldl (\<lambda>m c. 10 * m + digit_value c) 0 (take n (drop i s))"

definition month_days :: "nat \<Rightarrow> nat \<Rightarrow> nat" where
  "month_days y m =
     (if m = 2 then (if 4 dvd y \<and> (\<not> 100 dvd y \<or> 400 dvd y) then 29 else 28)
      else if m \<in> {4, 6, 9, 11} then 30 else 31)"

text \<open>strptime with %Y%m%d%H%M%S on fourteen digits, and strftime with %b %d %H:%M; the text itself
  when it does not parse.\<close>

definition list_time :: "string \<Rightarrow> string" where
  "list_time modified =
     (let y = number_at 0 4 modified; m = number_at 4 2 modified; d = number_at 6 2 modified;
          h = number_at 8 2 modified; mi = number_at 10 2 modified; s = number_at 12 2 modified
      in if length modified = 14 \<and> list_all is_digit modified \<and> 1 \<le> y \<and> 1 \<le> m \<and> m \<le> 12 \<and> 1 \<le> d
            \<and> d \<le> month_days y m \<and> h < 24 \<and> mi < 60 \<and> s < 60
         then month_name m @ '' '' @ take 2 (drop 6 modified) @ '' '' @ take 2 (drop 8 modified) @ '':'' @ take 2 (drop 10 modified)
         else modified)"

definition list_line :: "entry \<Rightarrow> string" where
  "list_line e =
     (if e_type e = ''dir'' then ''d'' else ''-'') @ e_permissions e @ '' 1 ftp ftp '' @ rjust 10 (show_int (e_size e))
      @ '' '' @ list_time (e_modified e) @ '' '' @ e_name e"

definition listing_reply :: "string list \<Rightarrow> string" where
  "listing_reply ls =
     ''150 Here comes the directory listing.'' @ crlf @ join_with crlf ls @ crlf @ ''226 Directory send OK.''"

definition list_cmd :: "path option \<Rightarrow> string \<Rightarrow> server_state \<Rightarrow> response" where
  "list_cmd m arg st = logged st (\<lambda>st.
     answer (Some ''550 Cannot list directory'') (\<lambda>p st. st) (\<lambda>es. listing_reply (map list_line es))
       (service_call m st (query (\<lambda>root fs. svc_list root fs (cwd_of st) arg))))"

definition nlst_cmd :: "path option \<Rightarrow> string \<Rightarrow> server_state \<Rightarrow> response" where
  "nlst_cmd m arg st = logged st (\<lambda>st.
     answer (Some ''550 Cannot list directory'') (\<lambda>p st. st) listing_reply
       (service_call m st (query (\<lambda>root fs. svc_names root fs (cwd_of st) arg))))"

definition size_cmd :: "path option \<Rightarrow> string \<Rightarrow> server_state \<Rightarrow> response" where
  "size_cmd m arg st = logged st (\<lambda>st.
     if arg = [] then say ''501 Missing filename'' st
     else answer (Some ''550 File not found'') (\<lambda>p st. st) (\<lambda>n. ''213 '' @ show_int n)
       (service_call m st (query (\<lambda>root fs. svc_size root fs (cwd_of st) arg))))"

definition mdtm_cmd :: "path option \<Rightarrow> string \<Rightarrow> server_state \<Rightarrow> response" where
  "mdtm_cmd m arg st = logged st (\<lambda>st.
     if arg = [] then say ''501 Missing filename'' st
     else answer (Some ''550 File not found'') (\<lambda>p st. st) (\<lambda>t. ''213 '' @ t)
       (service_call m st (query (\<lambda>root fs. modified_time root fs (cwd_of st) arg))))"

definition opt_text :: "string option \<Rightarrow> string" where
  "opt_text o1 = (case o1 of Some s \<Rightarrow> s | None \<Rightarrow> ''None'')"

definition status_text :: "session \<Rightarrow> string" where
  "status_text s =
     ''211-FTP Server status:'' @ crlf @ '' User: '' @ opt_text (username s) @ crlf
      @ '' TYPE: '' @ transfer_type s @ ''; MODE: '' @ transfer_mode s @ crlf @ ''211 End of status''"

definition entry_text :: "entry \<Rightarrow> string" where
  "entry_text e =
     ''213-Status of '' @ e_name e @ '':'' @ crlf @ '' Type: '' @ e_type e @ crlf @ '' Size: '' @ show_int (e_size e) @ crlf
      @ '' Permissions: '' @ e_permissions e @ crlf @ '' Modified: '' @ e_modified e @ crlf @ ''213 End of status''"

definition stat_cmd :: "path option \<Rightarrow> string \<Rightarrow> server_state \<Rightarrow> response" where
  "stat_cmd m arg st = logged st (\<lambda>st.
     if arg = [] then say (status_text (sv_session st)) st
     else answer None (\<lambda>p st. st) entry_text
       (service_call m st (query (\<lambda>root fs. svc_stat root fs (cwd_of st) arg))))"

text \<open>The algorithm is always sha256, so the md5 parameter of the service is not used.\<close>

definition hash_cmd :: "path option \<Rightarrow> string \<Rightarrow> server_state \<Rightarrow> response" where
  "hash_cmd m arg st = logged st (\<lambda>st.
     if arg = [] then say ''501 Missing filename'' st
     else answer (Some ''550 HASH failed'') (\<lambda>p st. st) (\<lambda>d. ''213 SHA256 '' @ d)
       (service_call m st (query (\<lambda>root fs. svc_hash (\<lambda>d. []) root fs (cwd_of st) arg ''sha256''))))"

definition help_table :: "(string \<times> string) list" where
  "help_table =
     [(''USER'', ''USER <username>''), (''PASS'', ''PASS <password>''), (''QUIT'', ''QUIT''), (''NOOP'', ''NOOP''),
      (''PWD'', ''PWD''), (''CWD'', ''CWD <path>''), (''CDUP'', ''CDUP''), (''MKD'', ''MKD <dirname>''),
      (''RMD'', ''RMD <dirname>''), (''LIST'', ''LIST [path]''), (''NLST'', ''NLST [path]''), (''STAT'', ''STAT [path]''),
      (''SIZE'', ''SIZE <filename>''), (''MDTM'', ''MDTM <filename>''), (''TYPE'', ''TYPE {A|I}''),
      (''MODE'', ''MODE {S|B|C}''), (''PORT'', ''PORT h1,h2,h3,h4,p1,p2''), (''PASV'', ''PASV''),
      (''RETR'', ''RETR <filename>''), (''STOR'', ''STOR <filename>''), (''STOU'', ''STOU''),
      (''APPE'', ''APPE <filename>''), (''DELE'', ''DELE <filename>''), (''RNFR'', ''RNFR <oldname>''),
      (''RNTO'', ''RNTO <newname>''), (''HASH'', ''HASH <filename>''), (''ABOR'', ''ABOR''), (''HELP'', ''HELP [command]'')]"

definition help_cmd :: "string \<Rightarrow> server_state \<Rightarrow> response" where
  "help_cmd arg st =
     (if arg \<noteq> [] then
        (case map_of help_table (ascii_upper (strip arg)) of
           None \<Rightarrow> say ''502 Unknown command for HELP'' st
         | Some usage \<Rightarrow> say (''214 Syntax: '' @ usage) st)
      else say (''214-Supported commands:'' @ crlf @ '' '' @ join_with '' '' (map fst help_table) @ crlf @ ''214 Help OK'') st)"

section \<open>Data connections\<close>

definition close_socket :: "nat option \<Rightarrow> server_state \<Rightarrow> server_state" where
  "close_socket o1 st =
     (case o1 of None \<Rightarrow> st | Some i \<Rightarrow> st\<lparr>sv_sockets := filter (\<lambda>(j, p). j \<noteq> i) (sv_sockets st)\<rparr>)"

definition close_data_socket :: "server_state \<Rightarrow> server_state" where
  "close_data_socket st = upd (\<lambda>s. s\<lparr>data_socket := None\<rparr>) (close_socket (data_socket (sv_session st)) st)"

text \<open>A bound socket as the session's data socket, with its peer, port and mode.\<close>

definition open_data :: "int \<Rightarrow> string \<Rightarrow> int \<Rightarrow> data_mode \<Rightarrow> server_state \<Rightarrow> server_state" where
  "open_data local_port host port mode st =
     upd (\<lambda>s. s\<lparr>data_socket := Some (sv_next st), data_host := Some host, data_port := Some port, sess_data_mode := Some mode\<rparr>)
       (st\<lparr>sv_sockets := (sv_next st, local_port) # sv_sockets st, sv_next := sv_next st + 1\<rparr>)"

text \<open>The six numbers of a PORT argument; None where the code answers 501 Invalid PORT.\<close>

fun port_numbers :: "string list \<Rightarrow> int list option" where
  "port_numbers [] = Some []"
| "port_numbers (p # ps) =
     (case py_int p of
        None \<Rightarrow> None
      | Some v \<Rightarrow> if 0 \<le> v \<and> v \<le> 255 then map_option ((#) v) (port_numbers ps) else None)"

definition parse_port :: "string \<Rightarrow> (string \<times> int) option" where
  "parse_port arg =
     (let parts = split_on (CHR '','') arg in
      if length parts \<noteq> 6 then None
      else
        (case port_numbers parts of
           None \<Rightarrow> None
         | Some nums \<Rightarrow>
             let ip = join_with ''.'' (map show_int (take 4 nums)); port = nums ! 4 * 256 + nums ! 5 in
             if port \<le> 0 \<or> 65535 < port then None else Some (ip, port)))"

definition bounce :: "string option \<Rightarrow> string \<Rightarrow> bool" where
  "bounce peer ip =
     (case peer of
        None \<Rightarrow> False
      | Some q \<Rightarrow> q \<noteq> [] \<and> q \<notin> {''127.0.0.1'', ''::1'', ''localhost''} \<and> ip \<noteq> q \<and> ip \<notin> {''127.0.0.1'', ''localhost''})"

definition port_cmd :: "cmd_env \<Rightarrow> string \<Rightarrow> server_state \<Rightarrow> response" where
  "port_cmd env arg st = logged st (\<lambda>st.
     if arg = [] then say ''501 Missing arguments'' st
     else
       (case parse_port arg of
          None \<Rightarrow> say ''501 Invalid PORT'' st
        | Some (ip, port) \<Rightarrow>
            if bounce (peer_ip (sv_session st)) ip then say ''501 Security error: PORT IP bounce prevented'' st
            else
              let st1 = close_data_socket st in
              (case ce_port env of
                 Inl (ValueError m) \<Rightarrow> say ''501 Invalid PORT'' st1
               | Inl e \<Rightarrow> (st1, Inl e)
               | Inr local_port \<Rightarrow>
                   say (''200 PORT command successful (server UDP port '' @ show_int local_port @ '')'')
                     (open_data local_port ip port ACTIVE st1))))"

definition pasv_address :: "cmd_env \<Rightarrow> session \<Rightarrow> string" where
  "pasv_address env s =
     (case server_ip s of
        Some a \<Rightarrow>
          if a \<noteq> [] \<and> a \<noteq> ''0.0.0.0'' then a
          else (case ce_own_address env of Some b \<Rightarrow> b | None \<Rightarrow> ''127.0.0.1'')
      | None \<Rightarrow> (case ce_own_address env of Some b \<Rightarrow> b | None \<Rightarrow> ''127.0.0.1''))"

definition pasv_reply :: "string \<Rightarrow> int \<Rightarrow> string" where
  "pasv_reply ip port =
     ''227 Entering Passive Mode ('' @ join_with '','' (split_on (CHR ''.'') ip) @ '','' @ show_int (port div 256)
      @ '','' @ show_int (port mod 256) @ '')''"

definition pasv_cmd :: "cmd_env \<Rightarrow> string \<Rightarrow> server_state \<Rightarrow> response" where
  "pasv_cmd env arg st = logged st (\<lambda>st.
     if arg \<noteq> [] then say ''501 Syntax error in parameters'' st
     else
       let st1 = close_data_socket st in
       (case ce_port env of
          Inl e \<Rightarrow> say ''425 Cannot open data connection'' st1
        | Inr local_port \<Rightarrow>
            let ip = pasv_address env (sv_session st) in
            say (pasv_reply ip local_port) (open_data local_port ip local_port PASSIVE st1)))"

section \<open>Transfers\<close>

definition worker_alive :: "session \<Rightarrow> bool" where
  "worker_alive s = (case transfer_worker s of None \<Rightarrow> False | Some w \<Rightarrow> w_phase w \<noteq> Ended)"

definition transfer_in_progress :: "session \<Rightarrow> bool" where
  "transfer_in_progress s \<longleftrightarrow> current_transfer s \<noteq> None \<or> worker_alive s"

definition start_transfer_thread :: "operation \<Rightarrow> string option \<Rightarrow> server_state \<Rightarrow> server_state \<times> string" where
  "start_transfer_thread op arg st =
     (case new_transfer_id (sv_counter st) (sv_session st) of
        (s, i) \<Rightarrow>
          (st\<lparr>sv_counter := sv_counter st + 1,
              sv_session := s\<lparr>transfer_worker := Some \<lparr>w_operation = op, w_argument = arg, w_transfer_id = i, w_phase = Started\<rparr>\<rparr>\<rparr>,
           i))"

text \<open>The part the four transfer commands share, after their argument checks.\<close>

definition start_transfer :: "path option \<Rightarrow> operation \<Rightarrow> string option \<Rightarrow> server_state \<Rightarrow> response" where
  "start_transfer m op arg st =
     (if data_socket (sv_session st) = None \<and> (data_host (sv_session st) = None \<or> data_host (sv_session st) = Some [])
      then say ''425 Use PORT or PASV first'' st
      else if transfer_in_progress (sv_session st) then say ''450 Transfer already in progress'' st
      else if m = None then say ''502 No transfer manager configured'' st
      else
        (case start_transfer_thread op arg (upd (\<lambda>s. s\<lparr>current_transfer := Some (op, arg)\<rparr>) st) of
           (st1, i) \<Rightarrow> say (''150 Opening data connection; transfer_id='' @ i) st1))"

definition retr_cmd :: "path option \<Rightarrow> string \<Rightarrow> server_state \<Rightarrow> response" where
  "retr_cmd m arg st = logged st (\<lambda>st.
     if arg = [] then say ''501 Missing filename'' st else start_transfer m RETR (Some arg) st)"

definition stor_cmd :: "path option \<Rightarrow> string \<Rightarrow> server_state \<Rightarrow> response" where
  "stor_cmd m arg st = logged st (\<lambda>st.
     if arg = [] then say ''501 Missing filename'' st else start_transfer m STOR (Some arg) st)"

definition stou_cmd :: "path option \<Rightarrow> string \<Rightarrow> server_state \<Rightarrow> response" where
  "stou_cmd m arg st = logged st (\<lambda>st.
     if arg \<noteq> [] then say ''501 Syntax error in parameters'' st else start_transfer m STOU None st)"

definition appe_cmd :: "path option \<Rightarrow> string \<Rightarrow> server_state \<Rightarrow> response" where
  "appe_cmd m arg st = logged st (\<lambda>st.
     if arg = [] then say ''501 Missing filename'' st else start_transfer m APPE (Some arg) st)"

text \<open>The effect of cancel on the whole state: the event is set and the data socket closed.\<close>

definition cancel_transfer :: "server_state \<Rightarrow> server_state" where
  "cancel_transfer st =
     (case cancel (sv_next st) (sv_session st) of
        (s, ev) \<Rightarrow>
          (close_socket (data_socket (sv_session st)) st)
            \<lparr>sv_session := s, sv_events := ev # sv_events st, sv_next := sv_next st + 1\<rparr>)"

definition abor_cmd :: "path option \<Rightarrow> string \<Rightarrow> server_state \<Rightarrow> response" where
  "abor_cmd m arg st =
     (if arg \<noteq> [] then say ''501 Syntax error in parameters'' st
      else logged st (\<lambda>st.
        say ''226 Abort successful''
          (upd (\<lambda>s. s\<lparr>transfer_cancelled := True\<rparr>) (if m = None then st else cancel_transfer st))))"

section \<open>Dispatch\<close>

definition handle :: "path option \<Rightarrow> cmd_env \<Rightarrow> ftp_command \<Rightarrow> server_state \<Rightarrow> response" where
  "handle m env command st0 =
     (let cmd = cmd_name command; arg = cmd_argument command;
          st = (if rename_from (sv_session st0) \<noteq> None \<and> cmd \<noteq> ''RNTO'' then forget_rename st0 else st0)
      in if cmd = ''USER'' then user_cmd arg st
         else if cmd = ''PASS'' then password_cmd arg st
         else if cmd = ''QUIT'' then quit_cmd arg st
         else if cmd = ''NOOP'' then noop_cmd arg st
         else if cmd = ''TYPE'' then type_cmd arg st
         else if cmd = ''MODE'' then mode_cmd arg st
         else if cmd = ''PWD'' then pwd_cmd m arg st
         else if cmd = ''CWD'' then cwd_cmd m arg st
         else if cmd = ''CDUP'' then cdup_cmd m arg st
         else if cmd = ''MKD'' then mkd_cmd m arg st
         else if cmd = ''RMD'' then rmd_cmd m arg st
         else if cmd = ''DELE'' then dele_cmd m arg st
         else if cmd = ''RNFR'' then rnfr_cmd m arg st
         else if cmd = ''RNTO'' then rnto_cmd m arg st
         else if cmd = ''LIST'' then list_cmd m arg st
         else if cmd = ''NLST'' then nlst_cmd m arg st
         else if cmd = ''SIZE'' then size_cmd m arg st
         else if cmd = ''MDTM'' then mdtm_cmd m arg st
         else if cmd = ''STAT'' then stat_cmd m arg st
         else if cmd = ''PORT'' then port_cmd env arg st
         else if cmd = ''PASV'' then pasv_cmd env arg st
         else if cmd = ''RETR'' then retr_cmd m arg st
         else if cmd = ''STOR'' then stor_cmd m arg st
         else if cmd = ''STOU'' then stou_cmd m arg st
         else if cmd = ''APPE'' then appe_cmd m arg st
         else if cmd = ''ABOR'' then abor_cmd m arg st
         else if cmd = ''HASH'' then hash_cmd m arg st
         else if cmd = ''HELP'' then help_cmd arg st
         else (st, Inr NOT_IMPLEMENTED))"

end
