(* ===== verification/Utf8.thy ===== *)
theory Utf8
  imports Prelude
begin

text \<open>
  bytes.decode("utf-8") and str.encode("utf-8"), strict, on lists of code points: overlong forms,
  surrogates and code points above 0x10FFFF are refused. The control connection uses them for every
  line and every reply.
\<close>

definition cont_byte :: "byte \<Rightarrow> bool" where
  "cont_byte b \<longleftrightarrow> 128 \<le> unat b \<and> unat b < 192"

definition cont_bits :: "byte \<Rightarrow> nat" where
  "cont_bits b = unat b - 128"

function utf8_decode :: "bytes \<Rightarrow> nat list option" where
  "utf8_decode bs =
     (case bs of
        [] \<Rightarrow> Some []
      | a # bs1 \<Rightarrow>
          let n = unat a in
          if n < 128 then map_option ((#) n) (utf8_decode bs1)
          else
            (case bs1 of
               [] \<Rightarrow> None
             | b # bs2 \<Rightarrow>
                 if \<not> cont_byte b then None
                 else if 194 \<le> n \<and> n < 224 then map_option ((#) ((n - 192) * 64 + cont_bits b)) (utf8_decode bs2)
                 else
                   (case bs2 of
                      [] \<Rightarrow> None
                    | c # bs3 \<Rightarrow>
                        if \<not> cont_byte c then None
                        else if 224 \<le> n \<and> n < 240 then
                          let cp = (n - 224) * 4096 + cont_bits b * 64 + cont_bits c in
                          if 2048 \<le> cp \<and> (cp < 55296 \<or> 57344 \<le> cp) then map_option ((#) cp) (utf8_decode bs3) else None
                        else
                          (case bs3 of
                             [] \<Rightarrow> None
                           | d # bs4 \<Rightarrow>
                               let cp = (n - 240) * 262144 + cont_bits b * 4096 + cont_bits c * 64 + cont_bits d in
                               if cont_byte d \<and> 240 \<le> n \<and> 65536 \<le> cp \<and> cp < 1114112
                               then map_option ((#) cp) (utf8_decode bs4) else None))))"
  by pat_completeness auto
termination by (relation "measure length") auto

declare utf8_decode.simps [simp del]

definition utf8_encode_char :: "nat \<Rightarrow> bytes" where
  "utf8_encode_char n =
     (if n < 128 then [word_of_nat n]
      else if n < 2048 then [word_of_nat (192 + n div 64), word_of_nat (128 + n mod 64)]
      else if n < 65536 then
        [word_of_nat (224 + n div 4096), word_of_nat (128 + n div 64 mod 64), word_of_nat (128 + n mod 64)]
      else
        [word_of_nat (240 + n div 262144), word_of_nat (128 + n div 4096 mod 64), word_of_nat (128 + n div 64 mod 64),
         word_of_nat (128 + n mod 64)])"

definition encode_points :: "nat list \<Rightarrow> bytes" where
  "encode_points cps = concat (map utf8_encode_char cps)"

text \<open>Code points that can be encoded.\<close>

definition scalar :: "nat \<Rightarrow> bool" where
  "scalar n \<longleftrightarrow> n < 55296 \<or> (57344 \<le> n \<and> n < 1114112)"

lemma unat_small: "n < 256 \<Longrightarrow> unat (word_of_nat n :: byte) = n"
  by (simp add: unat_of_nat)

lemma cont_byte_encoded: "cont_byte (word_of_nat (128 + n mod 64))" "cont_bits (word_of_nat (128 + n mod 64)) = n mod 64"
proof -
  have "n mod 64 < 64" by simp
  then have "unat (word_of_nat (128 + n mod 64) :: byte) = 128 + n mod 64" by (intro unat_small) linarith
  then show "cont_byte (word_of_nat (128 + n mod 64))" "cont_bits (word_of_nat (128 + n mod 64)) = n mod 64"
    by (simp_all add: cont_byte_def cont_bits_def)
qed

lemma split_64: "n div 64 * 64 + n mod 64 = (n::nat)"
  by (rule div_mult_mod_eq)

lemma div_64: "n div 4096 = n div 64 div (64::nat)" "n div 262144 = n div 4096 div (64::nat)"
  by (simp_all flip: div_mult2_eq)

lemma split_4096: "n div 4096 * 4096 + n div 64 mod 64 * 64 + n mod 64 = (n::nat)"
  using split_64 [of "n div 64"] split_64 [of n] unfolding div_64 by linarith

lemma split_262144: "n div 262144 * 262144 + n div 4096 mod 64 * 4096 + n div 64 mod 64 * 64 + n mod 64 = (n::nat)"
  using split_64 [of "n div 4096"] split_4096 [of n] unfolding div_64(2) by linarith

lemmas div_bounds = div_less_iff_less_mult less_eq_div_iff_mult_less_eq

lemma decode1: "unat a < 128 \<Longrightarrow> utf8_decode (a # bs) = map_option ((#) (unat a)) (utf8_decode bs)"
  by (simp add: utf8_decode.simps [of "a # bs"])

lemma decode2: "194 \<le> unat a \<Longrightarrow> unat a < 224 \<Longrightarrow> cont_byte b \<Longrightarrow>
    utf8_decode (a # b # bs) = map_option ((#) ((unat a - 192) * 64 + cont_bits b)) (utf8_decode bs)"
  by (simp add: utf8_decode.simps [of "a # b # bs"])

lemma decode3: "224 \<le> unat a \<Longrightarrow> unat a < 240 \<Longrightarrow> cont_byte b \<Longrightarrow> cont_byte c \<Longrightarrow>
    (unat a - 224) * 4096 + cont_bits b * 64 + cont_bits c = n \<Longrightarrow> 2048 \<le> n \<Longrightarrow> n < 55296 \<or> 57344 \<le> n \<Longrightarrow>
    utf8_decode (a # b # c # bs) = map_option ((#) n) (utf8_decode bs)"
  by (auto simp: utf8_decode.simps [of "a # b # c # bs"] Let_def)

lemma decode4: "240 \<le> unat a \<Longrightarrow> cont_byte b \<Longrightarrow> cont_byte c \<Longrightarrow> cont_byte d \<Longrightarrow>
    (unat a - 240) * 262144 + cont_bits b * 4096 + cont_bits c * 64 + cont_bits d = n \<Longrightarrow> 65536 \<le> n \<Longrightarrow> n < 1114112 \<Longrightarrow>
    utf8_decode (a # b # c # d # bs) = map_option ((#) n) (utf8_decode bs)"
  by (auto simp: utf8_decode.simps [of "a # b # c # d # bs"] Let_def)

lemma decode_char:
  assumes s: "scalar n"
  shows "utf8_decode (utf8_encode_char n @ rest) = map_option ((#) n) (utf8_decode rest)"
proof -
  consider "n < 128" | "128 \<le> n" "n < 2048" | "2048 \<le> n" "n < 65536" | "65536 \<le> n" "n < 1114112"
    using s by (force simp: scalar_def)
  then show ?thesis
  proof cases
    case 1
    then show ?thesis by (simp add: utf8_encode_char_def decode1 unat_small)
  next
    case 2
    let ?a = "word_of_nat (192 + n div 64) :: byte" and ?b = "word_of_nat (128 + n mod 64) :: byte"
    have d: "2 \<le> n div 64" "n div 64 < 32" using 2 by (simp_all add: div_bounds)
    then have u: "unat ?a = 192 + n div 64" by (intro unat_small) simp
    have "utf8_encode_char n @ rest = ?a # ?b # rest" using 2 by (simp add: utf8_encode_char_def)
    also have "utf8_decode \<dots> = map_option ((#) n) (utf8_decode rest)"
      using d by (subst decode2) (simp_all only: u cont_byte_encoded, simp_all)
    finally show ?thesis .
  next
    case 3
    let ?a = "word_of_nat (224 + n div 4096) :: byte" and ?b = "word_of_nat (128 + n div 64 mod 64) :: byte"
      and ?c = "word_of_nat (128 + n mod 64) :: byte"
    have d: "n div 4096 < 16" using 3 by (simp add: div_bounds)
    then have u: "unat ?a = 224 + n div 4096" by (intro unat_small) simp
    have e: "utf8_encode_char n @ rest = ?a # ?b # ?c # rest" using 3 by (simp add: utf8_encode_char_def)
    have v: "(unat ?a - 224) * 4096 + cont_bits ?b * 64 + cont_bits ?c = n"
      unfolding u cont_byte_encoded using split_4096 [of n] by simp
    from 3 s have g: "n < 55296 \<or> 57344 \<le> n" by (simp add: scalar_def)
    show ?thesis unfolding e by (rule decode3 [OF _ _ cont_byte_encoded(1) cont_byte_encoded(1) v 3(1) g]) (use d u in simp_all)
  next
    case 4
    let ?a = "word_of_nat (240 + n div 262144) :: byte" and ?b = "word_of_nat (128 + n div 4096 mod 64) :: byte"
      and ?c = "word_of_nat (128 + n div 64 mod 64) :: byte" and ?d = "word_of_nat (128 + n mod 64) :: byte"
    have "n div 262144 < 5" using 4 by (simp add: div_bounds)
    then have u: "unat ?a = 240 + n div 262144" by (intro unat_small) simp
    have e: "utf8_encode_char n @ rest = ?a # ?b # ?c # ?d # rest" using 4 by (simp add: utf8_encode_char_def)
    have v: "(unat ?a - 240) * 262144 + cont_bits ?b * 4096 + cont_bits ?c * 64 + cont_bits ?d = n"
      unfolding u cont_byte_encoded using split_262144 [of n] by simp
    show ?thesis unfolding e
      by (rule decode4 [OF _ cont_byte_encoded(1) cont_byte_encoded(1) cont_byte_encoded(1) v 4]) (use u in simp)
  qed
qed

lemma utf8_roundtrip: "list_all scalar cps \<Longrightarrow> utf8_decode (encode_points cps) = Some cps"
proof (induction cps)
  case Nil
  then show ?case by (simp add: encode_points_def utf8_decode.simps)
next
  case (Cons n cps)
  then show ?case using decode_char [of n "encode_points cps"] by (simp add: encode_points_def)
qed

text \<open>The encoding of a str whose characters are code points below 256, and the bytes of ASCII text.\<close>

definition encode_text :: "string \<Rightarrow> bytes" where
  "encode_text s = encode_points (map ord_char s)"

definition ascii :: "string \<Rightarrow> bool" where
  "ascii s \<longleftrightarrow> list_all (\<lambda>c. ord_char c < 128) s"

lemma ord_char_less: "ord_char c < 256"
  by (simp add: ord_char_def)

lemma char_ord: "char_of (ord_char c) = c"
  by (simp add: ord_char_def)

lemma encode_ascii: "ascii s \<Longrightarrow> encode_text s = map (\<lambda>c. word_of_nat (ord_char c)) s"
  by (induction s) (simp_all add: ascii_def encode_text_def encode_points_def utf8_encode_char_def)

lemma encode_text_append [simp]: "encode_text (s @ t) = encode_text s @ encode_text t"
  by (simp add: encode_text_def encode_points_def)

lemma decode_encode_text: "utf8_decode (encode_text s) = Some (map ord_char s)"
  unfolding encode_text_def
  by (rule utf8_roundtrip) (simp add: list_all_iff scalar_def order.strict_trans [OF ord_char_less])

end
