(* ===== verification/Client_Handler.thy ===== *)
theory Client_Handler
  imports Command_Handler Utf8
begin

text \<open>
  src/server/client_handler.py and the worker threads of src/server/command_handler.py: one control
  connection, from its greeting to its cleanup, as a step relation over the bytes that arrive, the
  commands, the transfer worker and what other sessions do to the tree.
\<close>

section \<open>Lines\<close>

text \<open>\<open>buffer.split(b"\r\n", 1)\<close>, None without the separator.\<close>

fun split_crlf :: "bytes \<Rightarrow> (bytes \<times> bytes) option" where
  "split_crlf [] = None"
| "split_crlf [b] = None"
| "split_crlf (b # c # bs) =
     (if b = 13 \<and> c = 10 then Some ([], bs) else map_option (\<lambda>(l, r). (b # l, r)) (split_crlf (c # bs)))"

text \<open>
  A line as text. Case mapping and white space of str are modelled for ASCII, so a line that is valid
  UTF-8 with other characters in it is outside the model: the connection takes no step on it.
\<close>

datatype line_text = Plain string | Undecodable | Beyond

definition decode_line :: "bytes \<Rightarrow> line_text" where
  "decode_line line =
     (case utf8_decode line of
        None \<Rightarrow> Undecodable
      | Some cps \<Rightarrow> if list_all (\<lambda>n. n < 128) cps then Plain (map char_of cps) else Beyond)"

section \<open>The connection\<close>

text \<open>
  The thread of the handler greets, reads, or has an answer to send, after which it returns if the
  command was QUIT; it then cleans up. The replies given to the open socket are kept with their
  origin, the handler's thread or a transfer worker.
\<close>

datatype handler_phase = Starting | Reading | Answering string bool | Closing | Closed

datatype speaker = Commands | Transfers

record connection =
  cn_state :: server_state
  cn_buffer :: bytes
  cn_phase :: handler_phase
  cn_open :: bool
  cn_sent :: "(speaker \<times> string) list"

definition new_connection :: "file_system \<Rightarrow> nat \<Rightarrow> path \<Rightarrow> string \<Rightarrow> string option \<Rightarrow> string option \<Rightarrow> connection" where
  "new_connection fs counter root sid peer server =
     \<lparr>cn_state = \<lparr>sv_fs = fs, sv_counter = counter, sv_session = new_session root sid peer server, sv_sockets = [],
        sv_next = 0, sv_events = []\<rparr>,
      cn_buffer = [], cn_phase = Starting, cn_open = True, cn_sent = []\<rparr>"

text \<open>send: errors of the socket are swallowed.\<close>

definition send_text :: "speaker \<Rightarrow> string \<Rightarrow> connection \<Rightarrow> connection" where
  "send_text who r c = (if cn_open c then c\<lparr>cn_sent := cn_sent c @ [(who, r)]\<rparr> else c)"

definition syntax_error :: string where
  "syntax_error = ''500 Syntax error, command unrecognized'' @ crlf"

definition internal_error :: string where
  "internal_error = ''500 Internal server error'' @ crlf"

definition handle_line :: "path \<Rightarrow> cmd_env \<Rightarrow> bytes \<Rightarrow> connection \<Rightarrow> connection option" where
  "handle_line root env line c =
     (case decode_line line of
        Undecodable \<Rightarrow> Some (c\<lparr>cn_phase := Answering syntax_error False\<rparr>)
      | Beyond \<Rightarrow> None
      | Plain raw \<Rightarrow>
          let command = parse raw in
          (case handle (Some root) env command (cn_state c) of
             (st, Inl e) \<Rightarrow> Some (c\<lparr>cn_state := st, cn_phase := Answering internal_error False\<rparr>)
           | (st, Inr response) \<Rightarrow>
               Some (c\<lparr>cn_state := st, cn_phase := Answering response (cmd_name command = ''QUIT'')\<rparr>)))"

text \<open>\<open>if response: self.send(response)\<close>, and the return after QUIT.\<close>

definition answer_line :: "string \<Rightarrow> bool \<Rightarrow> connection \<Rightarrow> connection" where
  "answer_line response quit c =
     (if response = [] then c else send_text Commands response c)\<lparr>cn_phase := if quit then Closing else Reading\<rparr>"

section \<open>The transfer worker\<close>

text \<open>run_transfer, up to the point where the operation has read the session.\<close>

definition begin_worker :: "server_state \<Rightarrow> server_state option" where
  "begin_worker st =
     (case transfer_worker (sv_session st) of
        None \<Rightarrow> None
      | Some w \<Rightarrow>
          if w_phase w \<noteq> Started then None
          else
            (case begin_transfer (sv_next st) (w_operation w) (sv_session st) of
               (s, a) \<Rightarrow>
                 Some (st\<lparr>sv_session := s\<lparr>transfer_worker := Some (w\<lparr>w_phase := Running a\<rparr>)\<rparr>, sv_next := sv_next st + 1\<rparr>)))"

text \<open>What the world outside gives a running transfer.\<close>

record world =
  wl_uploads :: upload_env
  wl_uuids :: "string list"
  wl_host_of :: "string \<Rightarrow> string"
  wl_before :: file_system
  wl_probes :: "(bool \<times> recv) list"
  wl_data :: "(bool \<times> recv) list"

definition file_argument :: "worker \<Rightarrow> string" where
  "file_argument w = (case w_argument w of Some f \<Rightarrow> f | None \<Rightarrow> [])"

definition run_operation :: "world \<Rightarrow> path \<Rightarrow> file_system \<Rightarrow> worker \<Rightarrow> transfer_args \<Rightarrow>
    (file_system \<times> (exn + transfer_result)) option" where
  "run_operation wd root fs w a =
     (case w_operation w of
        RETR \<Rightarrow> map_option (Pair fs) (download (wl_host_of wd) root (wl_before wd) fs a (file_argument w) (wl_probes wd) (wl_data wd))
      | STOR \<Rightarrow> map_option snd (upload (wl_uploads wd) root fs a (file_argument w) (wl_data wd))
      | APPE \<Rightarrow> map_option snd (append_upload (wl_uploads wd) root fs a (file_argument w) (wl_data wd))
      | STOU \<Rightarrow> map_option snd (upload_unique (wl_uploads wd) (wl_uuids wd) root fs a (wl_data wd)))"

definition report_text :: "exn + transfer_result \<Rightarrow> string" where
  "report_text r =
     (case r of
        Inl e \<Rightarrow> ''426 Transfer failed'' @ crlf
      | Inr t \<Rightarrow>
          if tr_success t then ''226 Transfer complete'' @ crlf
          else show_int (tr_reply_code t) @ '' '' @ opt_text (tr_error t) @ crlf)"

text \<open>The operation returns: its finally clause closes the session's data socket and forgets it.\<close>

definition finish_worker :: "world \<Rightarrow> path \<Rightarrow> server_state \<Rightarrow> server_state option" where
  "finish_worker wd root st =
     (case transfer_worker (sv_session st) of
        None \<Rightarrow> None
      | Some w \<Rightarrow>
          (case w_phase w of
             Running a \<Rightarrow>
               (case run_operation wd root (sv_fs st) w a of
                  None \<Rightarrow> None
                | Some (fs', r) \<Rightarrow>
                    Some ((close_socket (data_socket (sv_session st)) st)
                      \<lparr>sv_fs := fs',
                       sv_session := (finish (ta_event a) (sv_session st))
                         \<lparr>transfer_worker := Some (w\<lparr>w_phase := Reporting (report_text r)\<rparr>)\<rparr>\<rparr>))
           | _ \<Rightarrow> None))"

definition report_worker :: "connection \<Rightarrow> connection option" where
  "report_worker c =
     (case transfer_worker (sv_session (cn_state c)) of
        None \<Rightarrow> None
      | Some w \<Rightarrow>
          (case w_phase w of
             Reporting r \<Rightarrow>
               Some ((send_text Transfers r c)
                 \<lparr>cn_state := upd (\<lambda>s. s\<lparr>transfer_worker := Some (w\<lparr>w_phase := Ended\<rparr>)\<rparr>) (cn_state c)\<rparr>)
           | _ \<Rightarrow> None))"

section \<open>Cleanup\<close>

text \<open>
  cleanup cancels, waits for the worker at most a second and resets the session. A worker that lives
  on belongs to the surroundings afterwards: what it still does to the tree is a step of others.
\<close>

definition cleanup_state :: "server_state \<Rightarrow> server_state" where
  "cleanup_state st =
     (let st1 = cancel_transfer st;
          st2 = close_data_socket st1
      in upd (\<lambda>s. s\<lparr>data_host := None, data_port := None, sess_data_mode := None, rename_from := None,
                   transfer_cancelled := False, current_transfer := None, transfer_worker := None\<rparr>) st2)"

definition cleanup :: "connection \<Rightarrow> connection" where
  "cleanup c = c\<lparr>cn_state := cleanup_state (cn_state c), cn_open := False\<rparr>"

section \<open>Steps\<close>

text \<open>The steps of the handler's thread and of its transfer worker.\<close>

inductive handler_step :: "path \<Rightarrow> (world \<Rightarrow> bool) \<Rightarrow> connection \<Rightarrow> connection \<Rightarrow> bool" for root wok where
  Greet: "cn_phase c = Starting \<Longrightarrow> handler_step root wok c ((send_text Commands READY c)\<lparr>cn_phase := Reading\<rparr>)"
| Receive: "cn_phase c = Reading \<Longrightarrow> cn_open c \<Longrightarrow> split_crlf (cn_buffer c) = None \<Longrightarrow> data \<noteq> [] \<Longrightarrow> length data \<le> 1024 \<Longrightarrow>
    handler_step root wok c (c\<lparr>cn_buffer := cn_buffer c @ data\<rparr>)"
| Hang_Up: "cn_phase c = Reading \<Longrightarrow> split_crlf (cn_buffer c) = None \<Longrightarrow> handler_step root wok c (c\<lparr>cn_phase := Closing\<rparr>)"
| Line: "cn_phase c = Reading \<Longrightarrow> split_crlf (cn_buffer c) = Some (line, rest) \<Longrightarrow>
    handle_line root env line (c\<lparr>cn_buffer := rest\<rparr>) = Some c' \<Longrightarrow> handler_step root wok c c'"
| Answer: "cn_phase c = Answering response quit \<Longrightarrow> handler_step root wok c (answer_line response quit c)"
| Begin: "begin_worker (cn_state c) = Some st \<Longrightarrow> handler_step root wok c (c\<lparr>cn_state := st\<rparr>)"
| Finish: "wok wd \<Longrightarrow> finish_worker wd root (cn_state c) = Some st \<Longrightarrow> handler_step root wok c (c\<lparr>cn_state := st\<rparr>)"
| Report: "report_worker c = Some c' \<Longrightarrow> handler_step root wok c c'"
| Cleanup: "cn_phase c = Closing \<Longrightarrow> handler_step root wok c ((cleanup c)\<lparr>cn_phase := Closed\<rparr>)"

inductive_cases handler_stepE: "handler_step root wok c c'"

text \<open>
  The surroundings of a connection, the other clients among them, may put any tree in place that satisfies
  tree_ok and may take transfer identifiers; the server may be stopped, which cleans up under the handler's
  feet.
\<close>

inductive conn_step :: "path \<Rightarrow> (file_system \<Rightarrow> bool) \<Rightarrow> (world \<Rightarrow> bool) \<Rightarrow> connection \<Rightarrow> connection \<Rightarrow> bool"
  for root tree_ok wok where
  Own: "handler_step root wok c c' \<Longrightarrow> conn_step root tree_ok wok c c'"
| Others: "tree_ok fs \<Longrightarrow> counter \<ge> sv_counter (cn_state c) \<Longrightarrow>
    conn_step root tree_ok wok c (c\<lparr>cn_state := (cn_state c)\<lparr>sv_fs := fs, sv_counter := counter\<rparr>\<rparr>)"
| Stop: "conn_step root tree_ok wok c (cleanup c)"

inductive_cases conn_stepE: "conn_step root tree_ok wok c c'"

inductive conn_reach :: "path \<Rightarrow> (file_system \<Rightarrow> bool) \<Rightarrow> (world \<Rightarrow> bool) \<Rightarrow> connection \<Rightarrow> connection \<Rightarrow> bool"
  for root tree_ok wok c0 where
  start: "conn_reach root tree_ok wok c0 c0"
| step: "conn_reach root tree_ok wok c0 c \<Longrightarrow> conn_step root tree_ok wok c c' \<Longrightarrow> conn_reach root tree_ok wok c0 c'"

section \<open>Framing\<close>

text \<open>The reading loop alone: the lines of a buffer, and of a sequence of received pieces.\<close>

lemma split_crlf_shorter: "split_crlf bs = Some (l, r) \<Longrightarrow> length r < length bs"
  by (induction bs arbitrary: l r rule: split_crlf.induct) (auto split: if_splits)

function take_lines :: "bytes \<Rightarrow> bytes list \<times> bytes" where
  "take_lines buffer =
     (case split_crlf buffer of
        None \<Rightarrow> ([], buffer)
      | Some (line, rest) \<Rightarrow> (case take_lines rest of (ls, r) \<Rightarrow> (line # ls, r)))"
  by pat_completeness auto
termination by (relation "measure length") (auto dest: split_crlf_shorter)

declare take_lines.simps [simp del]

fun read_lines :: "bytes \<Rightarrow> bytes list \<Rightarrow> bytes list \<times> bytes" where
  "read_lines buffer [] = ([], buffer)"
| "read_lines buffer (data # pieces) =
     (case take_lines (buffer @ data) of
        (ls, rest) \<Rightarrow> (case read_lines rest pieces of (ms, r) \<Rightarrow> (ls @ ms, r)))"

lemma split_crlf_append: "split_crlf bs = Some (l, r) \<Longrightarrow> split_crlf (bs @ xs) = Some (l, r @ xs)"
  by (induction bs arbitrary: l r rule: split_crlf.induct) (auto split: if_splits)

lemma split_crlf_line: "split_crlf l = None \<Longrightarrow> split_crlf (l @ 13 # 10 # r) = Some (l, r)"
  by (induction l rule: split_crlf.induct) (auto split: if_splits)

lemma split_crlf_parts: "split_crlf bs = Some (l, r) \<Longrightarrow> bs = l @ 13 # 10 # r \<and> split_crlf l = None"
proof (induction bs arbitrary: l r rule: split_crlf.induct)
  case (3 b c bs)
  show ?case
  proof (cases "b = 13 \<and> c = 10")
    case True
    with 3 show ?thesis by auto
  next
    case False
    with 3(2) obtain m where m: "split_crlf (c # bs) = Some (m, r)" "l = b # m" by auto
    from 3(1) [OF False m(1)] have i: "c # bs = m @ 13 # 10 # r" "split_crlf m = None" by simp_all
    have "split_crlf (b # m) = None" using i False by (cases m) auto
    with i m show ?thesis by simp
  qed
qed simp_all

text \<open>Where TCP cuts the stream does not matter.\<close>

lemma take_lines_append:
  "take_lines (bs @ xs) = (case take_lines bs of (ls, r) \<Rightarrow> (case take_lines (r @ xs) of (ms, r') \<Rightarrow> (ls @ ms, r')))"
proof (induction bs rule: take_lines.induct)
  case (1 bs)
  show ?case
  proof (cases "split_crlf bs")
    case None
    then show ?thesis by (simp add: take_lines.simps [of bs] split: prod.split)
  next
    case (Some p)
    obtain l r where p: "p = (l, r)" by (cases p)
    have "split_crlf (bs @ xs) = Some (l, r @ xs)" using split_crlf_append Some p by blast
    then show ?thesis using 1 [OF Some] p Some
      by (simp add: take_lines.simps [of bs] take_lines.simps [of "bs @ xs"] split: prod.split)
  qed
qed

lemma take_lines_rest: "snd (take_lines bs) = r \<Longrightarrow> take_lines r = ([], r)"
proof (induction bs arbitrary: r rule: take_lines.induct)
  case (1 bs)
  show ?case
  proof (cases "split_crlf bs")
    case None
    then have t: "take_lines bs = ([], bs)" by (simp add: take_lines.simps [of bs])
    with 1(2) show ?thesis by simp
  next
    case (Some p)
    with 1(2) have "snd (take_lines (snd p)) = r" by (auto simp: take_lines.simps [of bs] split: prod.splits)
    then show ?thesis using 1(1) [OF Some] by (cases p) auto
  qed
qed

lemma read_lines_concat: "take_lines b = ([], b) \<Longrightarrow> read_lines b pieces = take_lines (b @ concat pieces)"
proof (induction pieces arbitrary: b)
  case (Cons d ds)
  obtain ls r where t: "take_lines (b @ d) = (ls, r)" by (cases "take_lines (b @ d)")
  then have "take_lines r = ([], r)" using take_lines_rest [of "b @ d"] by simp
  from Cons.IH [OF this] show ?case using take_lines_append [of "b @ d" "concat ds"] t by (simp split: prod.split)
qed simp

text \<open>The bytes of a line of text as the client sends it, and of a dialogue.\<close>

lemma take_lines_commands:
  "list_all (\<lambda>l. split_crlf l = None) ls \<Longrightarrow> take_lines (concat (map (\<lambda>l. l @ [13, 10]) ls)) = (ls, [])"
proof (induction ls)
  case (Cons l ls)
  have "split_crlf (l @ 13 # 10 # concat (map (\<lambda>l. l @ [13, 10]) ls)) = Some (l, concat (map (\<lambda>l. l @ [13, 10]) ls))"
    by (rule split_crlf_line) (use Cons in simp)
  then show ?case using Cons by (simp add: take_lines.simps [of "l @ _"])
qed (simp add: take_lines.simps)

lemma decode_line_ascii: "ascii v \<Longrightarrow> decode_line (encode_text v) = Plain v"
  by (simp add: decode_line_def decode_encode_text ascii_def list_all_iff char_ord map_idI)

end
