(* ===== verification/FTP_Client.thy ===== *)
theory FTP_Client
  imports Client_Handler File_Handler
begin

text \<open>
  src/client/ftp_client.py, src/common/rdt_utils.py, and send_file_rdt and receive_file_rdt, which the
  client uses for its data connections. An operation takes the client's state and gives the new one
  with a result or an exception, and None while it waits for bytes that have not arrived. The control
  connection delivers a script of received pieces; an empty piece is its end. Progress callbacks are
  left out: the wrappers that count for them pass the chunks on unchanged.
\<close>

section \<open>rdt_utils\<close>

definition int_error :: "string \<Rightarrow> exn" where
  "int_error s = ValueError (''invalid literal for int() with base 10: '' @ py_repr s)"

fun ints_of :: "string list \<Rightarrow> exn + int list" where
  "ints_of [] = Inr []"
| "ints_of (p # ps) =
     (case py_int p of
        None \<Rightarrow> Inl (int_error p)
      | Some v \<Rightarrow> (case ints_of ps of Inl e \<Rightarrow> Inl e | Inr vs \<Rightarrow> Inr (v # vs)))"

text \<open>str.find of one character.\<close>

fun find_char :: "char \<Rightarrow> string \<Rightarrow> nat option" where
  "find_char c [] = None"
| "find_char c (x # xs) = (if x = c then Some 0 else map_option Suc (find_char c xs))"

definition parse_pasv_response :: "string \<Rightarrow> exn + (string \<times> int)" where
  "parse_pasv_response response =
     (case (find_char (CHR ''('') response, find_char (CHR '')'') response) of
        (Some start, Some stop) \<Rightarrow>
          (case ints_of (split_on (CHR '','') (drop (start + 1) (take stop response))) of
             Inl e \<Rightarrow> Inl e
           | Inr parts \<Rightarrow>
               if length parts < 6 then Inl (IndexError ''list index out of range'')
               else Inr (join_with ''.'' (map show_int (take 4 parts)), parts ! 4 * 256 + parts ! 5))
      | _ \<Rightarrow> Inl (ValueError ''Invalid PASV response format''))"

definition format_port_command :: "string \<Rightarrow> int \<Rightarrow> string" where
  "format_port_command ip port =
     ''PORT '' @ join_with '','' (split_on (CHR ''.'') ip) @ '','' @ show_int (port div 256) @ '','' @ show_int (port mod 256) @ crlf"

section \<open>The client\<close>

record client =
  cl_server_ip :: string
  cl_download_dir :: path
  cl_mode :: string
  cl_type :: string
  cl_negotiated_mode :: "string option"
  cl_negotiated_type :: "string option"
  cl_buffer :: bytes
  cl_input :: "bytes list"
  cl_lines :: "bytes list"
  cl_datagrams :: "(bytes \<times> address) list"
  cl_fs :: file_system

type_synonym 'a client_op = "client \<Rightarrow> (client \<times> (exn + 'a)) option"

definition return_op :: "'a \<Rightarrow> 'a client_op" where
  "return_op x c = Some (c, Inr x)"

definition raise_op :: "exn \<Rightarrow> 'a client_op" where
  "raise_op e c = Some (c, Inl e)"

definition bind_op :: "'a client_op \<Rightarrow> ('a \<Rightarrow> 'b client_op) \<Rightarrow> 'b client_op" where
  "bind_op m f c = (case m c of None \<Rightarrow> None | Some (c', Inl e) \<Rightarrow> Some (c', Inl e) | Some (c', Inr x) \<Rightarrow> f x c')"

definition lift_op :: "exn + 'a \<Rightarrow> 'a client_op" where
  "lift_op r = (case r of Inl e \<Rightarrow> raise_op e | Inr x \<Rightarrow> return_op x)"

definition mode_unsupported :: "string \<Rightarrow> exn" where
  "mode_unsupported m = ValueError (''Unsupported transfer mode: '' @ py_repr m)"

definition type_unsupported :: "string \<Rightarrow> exn" where
  "type_unsupported t = ValueError (''Unsupported transfer type: '' @ py_repr t)"

definition new_client :: "string \<Rightarrow> path \<Rightarrow> string \<Rightarrow> string \<Rightarrow> file_system \<Rightarrow> bytes list \<Rightarrow> file_system \<times> (exn + client)" where
  "new_client host download_dir mode_arg type_arg fs input =
     (if ascii_upper mode_arg \<notin> set modes then (fs, Inl (mode_unsupported mode_arg))
      else if ascii_upper type_arg \<notin> set types then (fs, Inl (type_unsupported type_arg))
      else
        (case makedirs True fs download_dir of
           (fs', Some e) \<Rightarrow> (fs', Inl e)
         | (fs', None) \<Rightarrow>
             (fs', Inr \<lparr>cl_server_ip = host, cl_download_dir = download_dir, cl_mode = ascii_upper mode_arg,
                cl_type = ascii_upper type_arg, cl_negotiated_mode = None, cl_negotiated_type = None, cl_buffer = [],
                cl_input = input, cl_lines = [], cl_datagrams = [], cl_fs = fs'\<rparr>)))"

section \<open>Receiving replies\<close>

definition connection_lost :: exn where
  "connection_lost = OSErr OtherOS ''Control connection closed before complete FTP reply''"

text \<open>_recv_line: the buffer and the pieces still to come, and the line with its CRLF.\<close>

fun recv_line :: "bytes \<Rightarrow> bytes list \<Rightarrow> (bytes \<times> bytes list \<times> (exn + bytes)) option" where
  "recv_line buffer [] =
     (case split_crlf buffer of None \<Rightarrow> None | Some (line, rest) \<Rightarrow> Some (rest, [], Inr (line @ [13, 10])))"
| "recv_line buffer (data # pieces) =
     (case split_crlf buffer of
        Some (line, rest) \<Rightarrow> Some (rest, data # pieces, Inr (line @ [13, 10]))
      | None \<Rightarrow> if data = [] then Some (buffer, pieces, Inl connection_lost) else recv_line (buffer @ data) pieces)"

lemma recv_line_shorter:
  "recv_line buffer pieces = Some (b, ps, Inr l) \<Longrightarrow> length b + length (concat ps) < length buffer + length (concat pieces)"
  by (induction buffer pieces rule: recv_line.induct)
    (auto split: option.splits if_splits dest: split_crlf_shorter)

text \<open>The loops of _recv_reply and _recv_listing_reply: lines up to a last one.\<close>

function recv_until :: "(bytes \<Rightarrow> bool) \<Rightarrow> bytes list \<Rightarrow> bytes \<Rightarrow> bytes list \<Rightarrow> (bytes \<times> bytes list \<times> (exn + bytes list)) option" where
  "recv_until final lines buffer pieces =
     (case recv_line buffer pieces of
        None \<Rightarrow> None
      | Some (b, ps, Inl e) \<Rightarrow> Some (b, ps, Inl e)
      | Some (b, ps, Inr line) \<Rightarrow>
          if final line then Some (b, ps, Inr (lines @ [line])) else recv_until final (lines @ [line]) b ps)"
  by pat_completeness auto
termination
  by (relation "measure (\<lambda>(f, ls, b, ps). length b + length (concat ps))") (auto dest: recv_line_shorter)

declare recv_until.simps [simp del]

definition ascii_digit :: "byte \<Rightarrow> bool" where
  "ascii_digit b \<longleftrightarrow> 48 \<le> unat b \<and> unat b \<le> 57"

definition multi_line :: "bytes \<Rightarrow> bool" where
  "multi_line first \<longleftrightarrow> 4 \<le> length first \<and> list_all ascii_digit (take 3 first) \<and> first ! 3 = 45"

definition recv_reply_bytes :: "bytes \<Rightarrow> bytes list \<Rightarrow> (bytes \<times> bytes list \<times> (exn + bytes list)) option" where
  "recv_reply_bytes buffer pieces =
     (case recv_line buffer pieces of
        None \<Rightarrow> None
      | Some (b, ps, Inl e) \<Rightarrow> Some (b, ps, Inl e)
      | Some (b, ps, Inr first) \<Rightarrow>
          if multi_line first then recv_until (\<lambda>line. take 4 line = take 3 first @ [32]) [first] b ps
          else Some (b, ps, Inr [first]))"

definition listing_end :: "bytes \<Rightarrow> bool" where
  "listing_end line \<longleftrightarrow> take 3 line \<in> {[50, 50, 54], [52, 50, 53], [52, 50, 54], [52, 53, 48], [53, 53, 48]}"

definition recv_listing_bytes :: "bytes \<Rightarrow> bytes list \<Rightarrow> (bytes \<times> bytes list \<times> (exn + bytes list)) option" where
  "recv_listing_bytes buffer pieces =
     (case recv_line buffer pieces of
        None \<Rightarrow> None
      | Some (b, ps, Inl e) \<Rightarrow> Some (b, ps, Inl e)
      | Some (b, ps, Inr first) \<Rightarrow>
          if take 3 first = [49, 53, 48] then recv_until listing_end [first] b ps else Some (b, ps, Inr [first]))"

text \<open>The reply as text; one with characters beyond ASCII is outside the model, as for the server.\<close>

definition decode_reply :: "bytes list \<Rightarrow> (exn + string) option" where
  "decode_reply lines =
     (case decode_line (concat lines) of
        Plain s \<Rightarrow> Some (Inr s)
      | Undecodable \<Rightarrow> Some (Inl (ValueError ''utf-8''))
      | Beyond \<Rightarrow> None)"

definition receive_op :: "(bytes \<Rightarrow> bytes list \<Rightarrow> (bytes \<times> bytes list \<times> (exn + bytes list)) option) \<Rightarrow> string client_op" where
  "receive_op reader c =
     (case reader (cl_buffer c) (cl_input c) of
        None \<Rightarrow> None
      | Some (b, ps, Inl e) \<Rightarrow> Some (c\<lparr>cl_buffer := b, cl_input := ps\<rparr>, Inl e)
      | Some (b, ps, Inr lines) \<Rightarrow> map_option (Pair (c\<lparr>cl_buffer := b, cl_input := ps\<rparr>)) (decode_reply lines))"

definition recv_reply :: "string client_op" where
  "recv_reply = receive_op recv_reply_bytes"

definition recv_listing_reply :: "string client_op" where
  "recv_listing_reply = receive_op recv_listing_bytes"

section \<open>Commands\<close>

text \<open>str.split().\<close>

fun words_of :: "string \<Rightarrow> string list" where
  "words_of [] = []"
| "words_of (c # s) =
     (if is_space c then words_of s
      else (case s of
              [] \<Rightarrow> [[c]]
            | d # t \<Rightarrow>
                if is_space d then [c] # words_of s
                else (case words_of s of [] \<Rightarrow> [[c]] | w # ws \<Rightarrow> (c # w) # ws)))"

definition record_negotiation :: "string \<Rightarrow> string \<Rightarrow> client \<Rightarrow> client" where
  "record_negotiation value reply c =
     (if \<not> starts_with reply ''200'' then c
      else
        (case words_of (strip value) of
           [name, argument] \<Rightarrow>
             let a = ascii_upper argument in
             if ascii_upper name = ''MODE'' \<and> a \<in> set modes then c\<lparr>cl_mode := a, cl_negotiated_mode := Some a\<rparr>
             else if ascii_upper name = ''TYPE'' \<and> a \<in> set types then c\<lparr>cl_type := a, cl_negotiated_type := Some a\<rparr>
             else c
         | _ \<Rightarrow> c))"

definition command_name :: "string \<Rightarrow> string" where
  "command_name value = cmd_name (parse value)"

definition send_command :: "string \<Rightarrow> string client_op" where
  "send_command value c =
     bind_op (if command_name value = ''LIST'' \<or> command_name value = ''NLST'' then recv_listing_reply else recv_reply)
       (\<lambda>reply c1. Some (record_negotiation value reply c1, Inr reply))
       (c\<lparr>cl_lines := cl_lines c @ [encode_text (value @ crlf)]\<rparr>)"

definition expect :: "string \<Rightarrow> string \<Rightarrow> unit client_op" where
  "expect code reply = (if starts_with reply code then return_op () else raise_op (RuntimeError (strip reply)))"

definition connect :: "string client_op" where
  "connect = recv_reply"

definition login :: "string \<Rightarrow> string \<Rightarrow> unit client_op" where
  "login user password =
     bind_op (send_command (''USER '' @ user)) (\<lambda>r. bind_op (expect ''331'' r) (\<lambda>u.
     bind_op (send_command (''PASS '' @ password)) (expect ''230'')))"

text \<open>close: errors of the connection are ignored, others raised before the socket is closed.\<close>

definition close_op :: "unit client_op" where
  "close_op c =
     (case send_command ''QUIT'' c of
        None \<Rightarrow> None
      | Some (c', Inl (OSErr k m)) \<Rightarrow> Some (c', Inr ())
      | Some (c', Inl e) \<Rightarrow> Some (c', Inl e)
      | Some (c', Inr r) \<Rightarrow> Some (c', Inr ()))"

definition set_mode :: "string \<Rightarrow> string client_op" where
  "set_mode mode =
     (let normalized = ascii_upper mode in
      if normalized \<notin> set modes then raise_op (mode_unsupported mode)
      else bind_op (send_command (''MODE '' @ normalized)) (\<lambda>reply c.
        Some (if starts_with reply ''200'' then c\<lparr>cl_mode := normalized, cl_negotiated_mode := Some normalized\<rparr> else c, Inr reply)))"

definition set_type :: "string \<Rightarrow> string client_op" where
  "set_type type_arg =
     (let normalized = ascii_upper type_arg in
      if normalized \<notin> set types then raise_op (type_unsupported type_arg)
      else send_command (''TYPE '' @ normalized))"

definition ensure_transfer_type :: "unit client_op" where
  "ensure_transfer_type c =
     (if cl_negotiated_type c = Some (cl_type c) then return_op () c
      else bind_op (send_command (''TYPE '' @ cl_type c)) (expect ''200'') c)"

definition ensure_transfer_mode :: "unit client_op" where
  "ensure_transfer_mode c =
     (if cl_negotiated_mode c = Some (cl_mode c) then return_op () c
      else bind_op (send_command (''MODE '' @ cl_mode c)) (\<lambda>reply. bind_op (expect ''200'' reply)
        (\<lambda>u c1. Some (c1\<lparr>cl_negotiated_mode := Some (cl_mode c1)\<rparr>, Inr ()))) c)"

section \<open>Data connections\<close>

text \<open>re.search of a literal followed by a run of characters of a class: the run of the first match.\<close>

fun search_after :: "string \<Rightarrow> (char \<Rightarrow> bool) \<Rightarrow> string \<Rightarrow> string option" where
  "search_after literal ok [] = None"
| "search_after literal ok (c # s) =
     (if starts_with (c # s) literal \<and> takeWhile ok (drop (length literal) (c # s)) \<noteq> []
      then Some (takeWhile ok (drop (length literal) (c # s)))
      else search_after literal ok s)"

definition id_char :: "char \<Rightarrow> bool" where
  "id_char c \<longleftrightarrow> is_digit c \<or> (65 \<le> ord_char c \<and> ord_char c \<le> 90) \<or> (97 \<le> ord_char c \<and> ord_char c \<le> 122)
     \<or> c = CHR ''_'' \<or> c = CHR ''-''"

definition transfer_id_from_reply :: "string \<Rightarrow> exn + string" where
  "transfer_id_from_reply reply =
     (case search_after ''transfer_id='' id_char reply of
        Some i \<Rightarrow> if starts_with reply ''150'' then Inr i else Inl (RuntimeError (strip reply))
      | None \<Rightarrow> Inl (RuntimeError (strip reply)))"

definition enter_pasv :: "address client_op" where
  "enter_pasv = bind_op (send_command ''PASV'') (\<lambda>reply. bind_op (expect ''227'' reply) (\<lambda>u. lift_op (parse_pasv_response reply)))"

text \<open>What the client's system and network give one transfer.\<close>

record client_env =
  te_local_ip :: string
  te_local_port :: int
  te_temps :: "string list"
  te_data :: "(bool \<times> recv) list"
  te_host_of :: "string \<Rightarrow> string"

definition enter_port :: "client_env \<Rightarrow> address client_op" where
  "enter_port env =
     bind_op (send_command (strip (format_port_command (te_local_ip env) (te_local_port env)))) (\<lambda>reply c.
       (case search_after ''server UDP port '' is_digit reply of
          Some port \<Rightarrow>
            if starts_with reply ''200''
            then Some (c, Inr (cl_server_ip c, (case py_int port of Some n \<Rightarrow> n | None \<Rightarrow> 0)))
            else Some (c, Inl (RuntimeError (strip reply)))
        | None \<Rightarrow> Some (c, Inl (RuntimeError (strip reply)))))"

text \<open>The probe of _pasv_download_socket and _send_active_download_probe.\<close>

definition send_probe :: "address \<Rightarrow> int \<Rightarrow> unit client_op" where
  "send_probe endpoint transfer_id c =
     (case make_packet transfer_id 0 0 FLAG_START [] of
        Inl e \<Rightarrow> Some (c, Inl e)
      | Inr packet \<Rightarrow> Some (c\<lparr>cl_datagrams := cl_datagrams c @ [(packet, endpoint)]\<rparr>, Inr ()))"

definition pasv_download_socket :: "address client_op" where
  "pasv_download_socket = bind_op enter_pasv (\<lambda>endpoint. bind_op (send_probe endpoint 0) (\<lambda>u. return_op endpoint))"

text \<open>receive_file_rdt and send_file_rdt: True, or False after any exception.\<close>

definition receive_file_rdt :: "client_env \<Rightarrow> file_system \<Rightarrow> path \<Rightarrow> int \<Rightarrow> string \<Rightarrow> string \<Rightarrow> (file_system \<times> bool) option" where
  "receive_file_rdt env fs save_path transfer_id mode type_arg =
     (case receiver_source (snd (receive_chunks_rdt
         \<lparr>rc_transfer_id_hint = Some transfer_id, rc_timeout_ms = 1000, rc_max_timeouts = 5,
          rc_expected_mode = Some mode, rc_expected_type = Some type_arg\<rparr> (te_data env))) of
        None \<Rightarrow> None
      | Some src \<Rightarrow>
          (case write_file_from_chunks_atomic (te_temps env) fs save_path (decode_chunks src (Some mode) (Some type_arg)) of
             (fs', Inl e) \<Rightarrow> Some (fs', False)
           | (fs', Inr n) \<Rightarrow> Some (fs', True)))"

definition send_file_rdt :: "client_env \<Rightarrow> file_system \<Rightarrow> path \<Rightarrow> address \<Rightarrow> int \<Rightarrow> string \<Rightarrow> string \<Rightarrow> bool option" where
  "send_file_rdt env fs filepath dest transfer_id mode type_arg =
     (let total_size = (if path_exists fs filepath then (case get_file_size fs filepath of Inl e \<Rightarrow> None | Inr n \<Rightarrow> Some n) else None);
          cfg = \<lparr>sc_transfer_id = transfer_id, sc_dest = (te_host_of env (fst dest), snd dest), sc_retry_limit = 10,
                 sc_window_size = 4, sc_total_bytes = total_size, sc_transfer_mode = mode, sc_transfer_type = type_arg\<rparr>;
          chunks = encode_chunks (read_file_chunks fs filepath DEFAULT_CHUNK_SIZE) (Some mode) (Some type_arg)
      in map_option (\<lambda>r. case r of Inl e \<Rightarrow> False | Inr n \<Rightarrow> True) (sender_result (snd (send_chunks_rdt cfg chunks (te_data env)))))"

section \<open>Transfers\<close>

definition remote_base :: "string \<Rightarrow> string" where
  "remote_base s = last (split_on slash s)"

text \<open>A remote name that ends in a slash or a dot component has no file to download to; it is outside the model.\<close>

definition download_op :: "client_env \<Rightarrow> string \<Rightarrow> int \<Rightarrow> bool client_op" where
  "download_op env remote wire c =
     (if \<not> name_ok (remote_base remote) then None
      else map_option (\<lambda>(fs', ok). (c\<lparr>cl_fs := fs'\<rparr>, Inr ok))
        (receive_file_rdt env (cl_fs c) (cl_download_dir c @ [remote_base remote]) wire (cl_mode c) (cl_type c)))"

definition download_file :: "client_env \<Rightarrow> string \<Rightarrow> string \<Rightarrow> bool client_op" where
  "download_file env remote mode =
     bind_op ensure_transfer_type (\<lambda>u. bind_op ensure_transfer_mode (\<lambda>u.
     bind_op (if ascii_upper mode = ''PASV'' then pasv_download_socket else enter_port env) (\<lambda>endpoint.
     bind_op (if ascii_upper mode = ''ACTIVE'' then send_probe endpoint 0 else return_op ()) (\<lambda>u.
     bind_op (send_command (''RETR '' @ remote)) (\<lambda>reply.
     bind_op (lift_op (transfer_id_from_reply reply)) (\<lambda>tid.
     let wire = normalize_transfer_id (TidStr tid) in
     bind_op (if ascii_upper mode = ''ACTIVE'' then send_probe endpoint wire else return_op ()) (\<lambda>u.
     bind_op (download_op env remote wire) (\<lambda>ok.
     bind_op recv_reply (\<lambda>complete. return_op (ok \<and> starts_with complete ''226''))))))))))"

definition upload_op :: "client_env \<Rightarrow> path \<Rightarrow> address \<Rightarrow> int \<Rightarrow> bool client_op" where
  "upload_op env local endpoint wire c =
     map_option (\<lambda>ok. (c, Inr ok)) (send_file_rdt env (cl_fs c) local endpoint wire (cl_mode c) (cl_type c))"

definition upload_file :: "client_env \<Rightarrow> path \<Rightarrow> string \<Rightarrow> string \<Rightarrow> string \<Rightarrow> bool client_op" where
  "upload_file env local remote cmd mode =
     bind_op ensure_transfer_type (\<lambda>u. bind_op ensure_transfer_mode (\<lambda>u.
     bind_op (if ascii_upper mode = ''PASV'' then enter_pasv else enter_port env) (\<lambda>endpoint.
     bind_op (send_command (cmd @ '' '' @ remote)) (\<lambda>reply.
     bind_op (lift_op (transfer_id_from_reply reply)) (\<lambda>tid.
     bind_op (upload_op env local endpoint (normalize_transfer_id (TidStr tid))) (\<lambda>ok.
     bind_op recv_reply (\<lambda>complete. return_op (ok \<and> starts_with complete ''226''))))))))"

text \<open>upload_unique_file reads the last reply only after a successful transmission.\<close>

definition upload_unique_file :: "client_env \<Rightarrow> path \<Rightarrow> string \<Rightarrow> bool client_op" where
  "upload_unique_file env local mode =
     bind_op ensure_transfer_type (\<lambda>u. bind_op ensure_transfer_mode (\<lambda>u.
     bind_op (if ascii_upper mode = ''PASV'' then enter_pasv else enter_port env) (\<lambda>endpoint.
     bind_op (send_command ''STOU'') (\<lambda>reply.
     bind_op (lift_op (transfer_id_from_reply reply)) (\<lambda>tid.
     bind_op (upload_op env local endpoint (normalize_transfer_id (TidStr tid))) (\<lambda>ok.
     if ok then bind_op recv_reply (\<lambda>complete. return_op (starts_with complete ''226'')) else return_op False))))))"

end
