(* ===== verification/Replies.thy ===== *)
theory Replies
  imports Command_Handler
begin

text \<open>
  The replies of the command handler: their form, and which of them announce a transfer. Every
  command but the four transfers leaves the session's worker alone.
\<close>

section \<open>Codes of service errors\<close>

definition code_ok :: "exn \<Rightarrow> bool" where
  "code_ok e = (case e of FsError op code m \<Rightarrow> code \<in> {426, 451, 501, 550} | _ \<Rightarrow> True)"

named_theorems codes \<open>the errors of the service and of the functions below it have reply codes\<close>

lemma code_ok_simps [simp]:
  "code_ok (OSErr k m)" "code_ok (ValueError m)" "code_ok (os_error n p)" "code_ok (os_error2 n p q)"
  "code_ok (permission_error m)" "code_ok (raise_for_path fs p op d)"
  by (simp_all add: code_ok_def os_error_def os_error2_def permission_error_def raise_for_path_def)

lemma caught_code: "code_ok e \<Longrightarrow> code_ok (caught op e)"
  by (cases e) (simp_all add: code_ok_def translate_error_def)

lemma call_code: "call op r = Inl e \<Longrightarrow> (\<And>e. r = Inl e \<Longrightarrow> code_ok e) \<Longrightarrow> code_ok e"
  by (auto simp: call_def caught_code split: sum.splits)

lemma resolve_code [codes]: "resolve root fs cwd s = Inl e \<Longrightarrow> code_ok e"
  unfolding resolve_def by (erule call_code) (auto simp: resolve_path_def Let_def split: if_splits)

lemma directory_check_code: "directory_check fs p = Some e \<Longrightarrow> code_ok e"
  by (auto simp: directory_check_def split: if_splits)

lemma change_directory_code [codes]: "change_directory root fs cwd s = Inl e \<Longrightarrow> code_ok e"
  by (auto simp: change_directory_def split: sum.splits if_splits dest: resolve_code)

lemma parent_directory_code [codes]: "parent_directory root fs cwd = Inl e \<Longrightarrow> code_ok e"
  by (auto simp: parent_directory_def split: if_splits dest: change_directory_code)

lemma prepare_retrieve_code [codes]: "prepare_retrieve root fs cwd s = Inl e \<Longrightarrow> code_ok e"
  by (auto simp: prepare_retrieve_def split: sum.splits if_splits dest: resolve_code)

lemma display_path_code [codes]: "display_path root fs p = Inl e \<Longrightarrow> code_ok e"
  by (auto simp: display_path_def Let_def code_ok_def split: if_splits)

lemma svc_list_code [codes]: "svc_list root fs cwd s = Inl e \<Longrightarrow> code_ok e"
  by (auto simp: svc_list_def list_directory_def split: sum.splits option.splits
      dest: resolve_code directory_check_code elim!: call_code)

lemma svc_names_code [codes]: "svc_names root fs cwd s = Inl e \<Longrightarrow> code_ok e"
  by (auto simp: svc_names_def list_names_def split: sum.splits option.splits
      dest: resolve_code directory_check_code elim!: call_code)

lemma svc_stat_code [codes]: "svc_stat root fs cwd s = Inl e \<Longrightarrow> code_ok e"
  by (auto simp: svc_stat_def get_entry_info_def split: sum.splits if_splits dest: resolve_code elim!: call_code)

lemma modified_time_code [codes]: "modified_time root fs cwd s = Inl e \<Longrightarrow> code_ok e"
  by (auto simp: modified_time_def split: sum.splits dest: svc_stat_code)

lemma svc_size_code [codes]: "svc_size root fs cwd s = Inl e \<Longrightarrow> code_ok e"
  by (auto simp: svc_size_def get_file_size_def split: sum.splits dest: prepare_retrieve_code elim!: call_code)

lemma svc_hash_code [codes]: "svc_hash md5 root fs cwd s a = Inl e \<Longrightarrow> code_ok e"
  by (auto simp: svc_hash_def compute_hash_def read_file_chunks_def not_found_def
      split: sum.splits if_splits dest: prepare_retrieve_code elim!: call_code)

lemma sys_call_code: "snd (sys_call fs p r) = Inl e \<Longrightarrow> code_ok e"
  by (auto simp: sys_call_def split: sum.splits)

lemma makedirs_code: "\<forall>e. snd (makedirs ok fs p) = Some e \<longrightarrow> code_ok e"
proof (induction ok fs p rule: makedirs.induct)
  case (1 ok fs p)
  obtain fs1 r where r: "(if p \<noteq> [] \<and> \<not> path_exists fs (butlast p) then makedirs ok fs (butlast p) else (fs, None)) = (fs1, r)"
    by (metis prod.collapse)
  have c: "\<forall>e'. r = Some e' \<longrightarrow> code_ok e'"
  proof (cases "p \<noteq> [] \<and> \<not> path_exists fs (butlast p)")
    case True
    with 1 [OF True] r show ?thesis by simp
  next
    case False
    with r show ?thesis by auto
  qed
  show ?case unfolding makedirs.simps [of ok fs p] Let_def r
    using c by (auto split: option.splits sum.splits exn.splits os_kind.splits if_splits)
qed

lemma make_directory_code: "snd (make_directory fs b p) = Inl e \<Longrightarrow> code_ok e"
  using makedirs_code [of False fs p] by (auto simp: make_directory_def split: if_splits prod.splits option.splits)

lemma remove_directory_code: "snd (remove_directory fs b p) = Inl e \<Longrightarrow> code_ok e"
  by (auto simp: remove_directory_def split: if_splits dest: sys_call_code)

lemma delete_file_code: "snd (delete_file fs b p) = Inl e \<Longrightarrow> code_ok e"
  by (auto simp: delete_file_def split: if_splits dest: sys_call_code)

lemma rename_entry_code: "snd (rename_entry fs b p q) = Inl e \<Longrightarrow> code_ok e"
  by (auto simp: rename_entry_def split: if_splits sum.splits)

lemma svc_change_codes [codes]:
  "snd (svc_make_directory root fs cwd s) = Inl e \<Longrightarrow> code_ok e"
  "snd (svc_remove_directory root fs cwd s) = Inl e \<Longrightarrow> code_ok e"
  "snd (svc_delete root fs cwd s) = Inl e \<Longrightarrow> code_ok e"
  "snd (svc_rename root fs cwd s t) = Inl e \<Longrightarrow> code_ok e"
  by (auto simp: svc_make_directory_def svc_remove_directory_def svc_delete_def svc_rename_def split: sum.splits
      elim: call_code dest: resolve_code make_directory_code remove_directory_code delete_file_code rename_entry_code)

section \<open>The form of replies\<close>

definition reply_ok :: "string \<Rightarrow> bool" where
  "reply_ok r \<longleftrightarrow> 4 \<le> length r \<and> list_all is_digit (take 3 r) \<and> (r ! 3 = CHR '' '' \<or> r ! 3 = CHR ''-'')
     \<and> drop (length r - 2) r = crlf"

definition announces :: "string \<Rightarrow> bool" where
  "announces r = starts_with r ''150 Opening''"

text \<open>A text to which CRLF is added gives a reply that announces no transfer.\<close>

definition head_ok :: "string \<Rightarrow> bool" where
  "head_ok m \<longleftrightarrow> 4 \<le> length m \<and> list_all is_digit (take 3 m) \<and> (m ! 3 = CHR '' '' \<or> m ! 3 = CHR ''-'')
     \<and> \<not> starts_with m ''150 O''"

lemma crlf_chars: "crlf = [CHR 0x0D, CHR 0x0A]"
  by code_simp

lemma length_crlf [simp]: "length crlf = 2"
  by (simp add: crlf_def)

lemma head_reply: "head_ok m \<Longrightarrow> reply_ok (m @ crlf) \<and> \<not> announces (m @ crlf)"
proof
  assume h: "head_ok m"
  then show "reply_ok (m @ crlf)" by (auto simp: head_ok_def reply_ok_def nth_append)
  show "\<not> announces (m @ crlf)"
  proof
    assume "announces (m @ crlf)"
    then have t: "take (length ''150 Opening'') (m @ crlf) = ''150 Opening''" unfolding announces_def starts_with_def .
    have "take 5 (m @ crlf) = take 5 (take (length ''150 Opening'') (m @ crlf))" unfolding take_take by (simp add: numeral_eq_Suc)
    also have "\<dots> = ''150 O''" unfolding t by simp
    finally have t5: "take 5 (m @ crlf) = ''150 O''" .
    show False
    proof (cases "5 \<le> length m")
      case True
      with t5 h show False by (simp add: head_ok_def starts_with_def numeral_eq_Suc)
    next
      case False
      then have "length m = 4" using h by (simp add: head_ok_def)
      with arg_cong [OF t5, of "\<lambda>x. x ! 4"] show False by (simp add: nth_append crlf_chars)
    qed
  qed
qed

lemma digit_check: "is_digit c = (48 \<le> (of_char c :: nat) \<and> (of_char c :: nat) \<le> 57)"
  by (simp add: is_digit_def ord_char_def)

lemma codes_shown: "show_int 426 = ''426''" "show_int 451 = ''451''" "show_int 501 = ''501''" "show_int 550 = ''550''"
  by code_simp+

lemma code_shown: "code \<in> {426, 451, 501, 550} \<Longrightarrow> show_int code \<in> {''426'', ''451'', ''501'', ''550''}"
  by (elim insertE) (simp_all only: codes_shown, simp_all)

lemma code_head: "c \<in> {''426'', ''451'', ''501'', ''550''} \<Longrightarrow> head_ok (c @ '' '' @ m)"
  by (elim insertE) (simp_all add: head_ok_def digit_check starts_with_def)

lemma error_head: "code \<in> {426, 451, 501, 550} \<Longrightarrow> head_ok (show_int code @ '' '' @ m)"
  by (rule code_head [OF code_shown])

definition plain_answer :: "server_state \<Rightarrow> response \<Rightarrow> bool" where
  "plain_answer st r \<longleftrightarrow> transfer_worker (sv_session (fst r)) = transfer_worker (sv_session st)
     \<and> (\<forall>x. snd r = Inr x \<longrightarrow> reply_ok x \<and> \<not> announces x)"

lemma plain_say: "transfer_worker (sv_session st1) = transfer_worker (sv_session st) \<Longrightarrow> head_ok m \<Longrightarrow> plain_answer st (say m st1)"
  by (simp add: plain_answer_def say_def head_reply)

lemma plain_error:
  assumes "code_ok e" "transfer_worker (sv_session st1) = transfer_worker (sv_session st)" "\<forall>f. fallback = Some f \<longrightarrow> head_ok f"
  shows "plain_answer st (st1, error_reply fallback e)"
proof (cases "(fallback, e)" rule: error_reply.cases)
  case (1 fb op code m)
  with assms(1) have "code \<in> {426, 451, 501, 550}" by (simp add: code_ok_def)
  from head_reply [OF error_head [OF this, of m]] 1 assms(2) show ?thesis by (simp add: plain_answer_def)
qed (use assms head_reply in \<open>simp_all add: plain_answer_def\<close>)

lemma plain_service:
  assumes c: "service_call (Some root) st act = (st1, r)" and code: "\<And>e. snd (act root (sv_fs st)) = Inl e \<Longrightarrow> code_ok e"
  shows "transfer_worker (sv_session st1) = transfer_worker (sv_session st)" "r = Inl e \<Longrightarrow> code_ok e"
    "r = snd (act root (sv_fs st))"
  using c code by (auto simp: service_call_def handler_fs_def split: prod.splits)

lemma plain_answer_service:
  assumes code: "\<And>e. snd (act root (sv_fs st)) = Inl e \<Longrightarrow> code_ok e" and "\<forall>f. fallback = Some f \<longrightarrow> head_ok f"
    and "\<And>x st1. transfer_worker (sv_session (change x st1)) = transfer_worker (sv_session st1)" and "\<And>x. head_ok (text x)"
  shows "plain_answer st (answer fallback change text (service_call (Some root) st act))"
proof -
  obtain st1 r where c: "service_call (Some root) st act = (st1, r)" by (cases "service_call (Some root) st act")
  note p = plain_service [OF c code]
  show ?thesis using assms(2,3,4) p(1,2) by (cases r) (auto simp: c answer_def intro: plain_error plain_say)
qed

lemma plain_logged:
  "(is_logged_in (sv_session st) \<Longrightarrow> plain_answer st (f st)) \<Longrightarrow> plain_answer st (logged st f)"
  by (simp add: logged_def plain_say head_ok_def digit_check starts_with_def)

lemmas literal = head_ok_def digit_check starts_with_def

section \<open>The commands\<close>

lemma plain_text: "head_ok m \<Longrightarrow> plain_answer st (upd f st, Inr (m @ crlf))"
  if "transfer_worker (f (sv_session st)) = transfer_worker (sv_session st)"
  using that by (simp add: plain_answer_def head_reply upd_def)

lemma upd_worker [simp]:
  "sv_session (upd f st) = f (sv_session st)" "sv_session (set_cwd p st) = (sv_session st)\<lparr>current_dir := p\<rparr>"
  "sv_session (forget_rename st) = (sv_session st)\<lparr>rename_from := None\<rparr>"
  by (simp_all add: upd_def set_cwd_def forget_rename_def)

lemma plain_replies:
  assumes "transfer_worker (f (sv_session st)) = transfer_worker (sv_session st)"
  shows "plain_answer st (upd f st, Inr USER_OK)" "plain_answer st (upd f st, Inr LOGIN_OK)" "plain_answer st (upd f st, Inr QUIT)"
  unfolding USER_OK_def LOGIN_OK_def QUIT_def
  by (rule plain_text, simp add: assms, simp add: literal)+

lemma plain_unknown: "plain_answer st (st, Inr NOT_IMPLEMENTED)"
  using plain_text [of "\<lambda>s. s" st "''502 Command not implemented''"] by (simp add: NOT_IMPLEMENTED_def upd_def literal)

lemma plain_simple:
  "plain_answer st (user_cmd arg st)" "plain_answer st (password_cmd arg st)" "plain_answer st (quit_cmd arg st)"
  "plain_answer st (noop_cmd arg st)" "plain_answer st (type_cmd arg st)" "plain_answer st (mode_cmd arg st)"
  by (auto simp: user_cmd_def password_cmd_def quit_cmd_def noop_cmd_def type_cmd_def mode_cmd_def Let_def literal
      intro!: plain_replies plain_logged plain_say)

lemma plain_help: "plain_answer st (help_cmd arg st)"
  by (auto simp: help_cmd_def literal intro!: plain_say split: option.split)

lemma query_code: "(\<And>e. f root fs = Inl e \<Longrightarrow> code_ok e) \<Longrightarrow> snd (query f root fs) = Inl e \<Longrightarrow> code_ok e"
  by (simp add: query_def)

lemma plain_queries:
  "plain_answer st (pwd_cmd (Some root) arg st)" "plain_answer st (list_cmd (Some root) arg st)"
  "plain_answer st (nlst_cmd (Some root) arg st)" "plain_answer st (size_cmd (Some root) arg st)"
  "plain_answer st (mdtm_cmd (Some root) arg st)" "plain_answer st (stat_cmd (Some root) arg st)"
  "plain_answer st (hash_cmd (Some root) arg st)"
  by (auto simp: pwd_cmd_def list_cmd_def nlst_cmd_def size_cmd_def mdtm_cmd_def stat_cmd_def hash_cmd_def literal
      listing_reply_def status_text_def entry_text_def query_def
      intro!: plain_logged plain_say plain_answer_service) (erule codes)+

lemma plain_changes:
  "plain_answer st (cwd_cmd (Some root) arg st)" "plain_answer st (cdup_cmd (Some root) arg st)"
  "plain_answer st (mkd_cmd (Some root) arg st)" "plain_answer st (rmd_cmd (Some root) arg st)"
  "plain_answer st (dele_cmd (Some root) arg st)"
  by (auto simp: cwd_cmd_def cdup_cmd_def mkd_cmd_def rmd_cmd_def dele_cmd_def literal query_def
      intro!: plain_logged plain_say plain_answer_service) (erule codes)+

lemma close_worker [simp]:
  "sv_session (close_socket i st) = sv_session st" "sv_session (close_data_socket st) = (sv_session st)\<lparr>data_socket := None\<rparr>"
  "transfer_worker (sv_session (open_data lp h p mode st)) = transfer_worker (sv_session st)"
  "transfer_worker (sv_session (cancel_transfer st)) = transfer_worker (sv_session st)"
  by (simp_all add: close_socket_def close_data_socket_def open_data_def upd_def cancel_transfer_def cancel_def Let_def
      split: option.split)

lemma plain_raise: "transfer_worker (sv_session st1) = transfer_worker (sv_session st) \<Longrightarrow> plain_answer st (st1, Inl e)"
  by (simp add: plain_answer_def)

lemma plain_data:
  "plain_answer st (port_cmd env arg st)" "plain_answer st (pasv_cmd env arg st)" "plain_answer st (abor_cmd m arg st)"
  by (auto simp: port_cmd_def pasv_cmd_def abor_cmd_def Let_def literal pasv_reply_def
      intro!: plain_logged plain_say plain_raise split: option.split sum.split exn.split)

lemma plain_rename:
  "plain_answer st (rnfr_cmd (Some root) arg st)" "plain_answer st (rnto_cmd (Some root) arg st)"
proof -
  show "plain_answer st (rnfr_cmd (Some root) arg st)" unfolding rnfr_cmd_def
  proof (rule plain_logged)
    obtain st1 r where c: "service_call (Some root) st (query (\<lambda>root fs. prepare_retrieve root fs (cwd_of st) arg)) = (st1, r)"
      by (metis prod.collapse)
    have "r = Inl e \<Longrightarrow> code_ok e" for e
      by (rule plain_service(2) [OF c]) (auto simp: query_def elim: codes)
    moreover have "transfer_worker (sv_session st1) = transfer_worker (sv_session st)"
      by (rule plain_service(1) [OF c]) (auto simp: query_def elim: codes)
    ultimately show "plain_answer st (if arg = [] then say ''501 Missing filename'' st
      else case service_call (Some root) st (query (\<lambda>root fs. prepare_retrieve root fs (cwd_of st) arg)) of
        (st1, Inl e) \<Rightarrow> (forget_rename st1, error_reply (Some ''550 File not found'') e)
      | (st1, Inr p) \<Rightarrow> say ''350 Ready for RNTO'' (upd (\<lambda>s. s\<lparr>rename_from := Some arg\<rparr>) st1))"
      unfolding c by (auto simp: literal intro!: plain_say plain_error split: sum.split)
  qed
  show "plain_answer st (rnto_cmd (Some root) arg st)" unfolding rnto_cmd_def
  proof (rule plain_logged)
    have "plain_answer st (case service_call (Some root) st (\<lambda>root fs. svc_rename root fs (cwd_of st) source arg) of
        (st1, Inl e) \<Rightarrow> (forget_rename st1, error_reply (Some ''550 Rename failed'') e)
      | (st1, Inr u) \<Rightarrow> say ''250 Rename successful'' (forget_rename st1))" for source
    proof -
      obtain st1 r where c: "service_call (Some root) st (\<lambda>root fs. svc_rename root fs (cwd_of st) source arg) = (st1, r)"
        by (metis prod.collapse)
      have "r = Inl e \<Longrightarrow> code_ok e" for e by (rule plain_service(2) [OF c]) (auto elim: codes)
      moreover have "transfer_worker (sv_session st1) = transfer_worker (sv_session st)"
        by (rule plain_service(1) [OF c]) (auto elim: codes)
      ultimately show ?thesis unfolding c by (auto simp: literal intro!: plain_say plain_error split: sum.split)
    qed
    then show "plain_answer st (if arg = [] then say ''501 Missing filename'' (forget_rename st)
      else case rename_from (sv_session st) of None \<Rightarrow> say ''503 RNFR required'' st
        | Some source \<Rightarrow>
            if source = [] then say ''503 RNFR required'' st
            else case service_call (Some root) st (\<lambda>root fs. svc_rename root fs (cwd_of st) source arg) of
                (st1, Inl e) \<Rightarrow> (forget_rename st1, error_reply (Some ''550 Rename failed'') e)
              | (st1, Inr u) \<Rightarrow> say ''250 Rename successful'' (forget_rename st1))"
      by (auto simp: literal intro!: plain_say split: option.split)
  qed
qed

text \<open>The answer that starts a worker, given only when none is alive.\<close>

definition starts_transfer :: "server_state \<Rightarrow> response \<Rightarrow> bool" where
  "starts_transfer st r \<longleftrightarrow> \<not> transfer_in_progress (sv_session st)
     \<and> (\<exists>w x. transfer_worker (sv_session (fst r)) = Some w \<and> w_phase w = Started \<and> snd r = Inr x \<and> reply_ok x \<and> announces x)"

lemma start_reply: "reply_ok (''150 Opening data connection; transfer_id='' @ i @ crlf)"
  "announces (''150 Opening data connection; transfer_id='' @ i @ crlf)"
  by (auto simp: reply_ok_def announces_def starts_with_def digit_check)

lemma start_transfer_answer: "plain_answer st (start_transfer m op arg st) \<or> starts_transfer st (start_transfer m op arg st)"
proof (cases "data_socket (sv_session st) = None \<and> (data_host (sv_session st) = None \<or> data_host (sv_session st) = Some [])
    \<or> transfer_in_progress (sv_session st) \<or> m = None")
  case True
  then show ?thesis by (auto simp: start_transfer_def literal intro!: plain_say)
next
  case False
  then show ?thesis using start_reply [of "CHR ''T'' # pad6 (sv_counter st)"]
    by (auto simp: start_transfer_def starts_transfer_def start_transfer_thread_def new_transfer_id_def Let_def say_def upd_def)
qed

lemma transfer_answers:
  "plain_answer st (retr_cmd m arg st) \<or> starts_transfer st (retr_cmd m arg st)"
  "plain_answer st (stor_cmd m arg st) \<or> starts_transfer st (stor_cmd m arg st)"
  "plain_answer st (stou_cmd m arg st) \<or> starts_transfer st (stou_cmd m arg st)"
  "plain_answer st (appe_cmd m arg st) \<or> starts_transfer st (appe_cmd m arg st)"
proof -
  have no: "plain_answer st (say ''530 Not logged in'' st)" "plain_answer st (say ''501 Missing filename'' st)"
    "plain_answer st (say ''501 Syntax error in parameters'' st)"
    by (auto simp: literal intro!: plain_say)
  show "plain_answer st (retr_cmd m arg st) \<or> starts_transfer st (retr_cmd m arg st)"
    "plain_answer st (stor_cmd m arg st) \<or> starts_transfer st (stor_cmd m arg st)"
    "plain_answer st (stou_cmd m arg st) \<or> starts_transfer st (stou_cmd m arg st)"
    "plain_answer st (appe_cmd m arg st) \<or> starts_transfer st (appe_cmd m arg st)"
    unfolding retr_cmd_def stor_cmd_def stou_cmd_def appe_cmd_def logged_def
    using no start_transfer_answer [of st m] by (simp_all only: split: if_split) blast+
qed

lemma handle_answers:
  "plain_answer st (handle (Some root) env c st) \<or> starts_transfer st (handle (Some root) env c st)"
proof -
  define st1 where "st1 = (if rename_from (sv_session st) \<noteq> None \<and> cmd_name c \<noteq> ''RNTO'' then forget_rename st else st)"
  have w: "transfer_worker (sv_session st1) = transfer_worker (sv_session st)" "transfer_in_progress (sv_session st1) = transfer_in_progress (sv_session st)"
    by (simp_all add: st1_def transfer_in_progress_def worker_alive_def)
  note simple = plain_simple [of st1 "cmd_argument c"] plain_help [of st1 "cmd_argument c"] plain_queries [of st1 root "cmd_argument c"]
    plain_changes [of st1 root "cmd_argument c"] plain_data(1,2) [where st = st1 and env = env and arg = "cmd_argument c"]
    plain_data(3) [where st = st1 and arg = "cmd_argument c" and m = "Some root"]
    plain_rename [of st1 root "cmd_argument c"] plain_unknown [of st1]
  note trans = transfer_answers [of st1 "Some root" "cmd_argument c"]
  define Q where "Q r \<longleftrightarrow> plain_answer st1 r \<or> starts_transfer st1 r" for r
  have i: "Q a \<Longrightarrow> Q b \<Longrightarrow> Q (if b1 then a else b)" for a b b1 by simp
  have p: "plain_answer st1 r \<Longrightarrow> Q r" for r by (simp add: Q_def)
  note qs = simple [THEN p] trans [folded Q_def]
  have "Q (handle (Some root) env c st)"
    unfolding handle_def Let_def st1_def [symmetric] by (intro i qs)
  then have "plain_answer st1 (handle (Some root) env c st) \<or> starts_transfer st1 (handle (Some root) env c st)"
    unfolding Q_def .
  then show ?thesis by (simp add: plain_answer_def starts_transfer_def w)
qed

end
