(* ===== verification/File_Store.thy ===== *)
theory File_Store
  imports Filesystem_Service
begin

text \<open>
  The contract of the filesystem service towards the command and transfer layers, as an abstract
  store: a map from resolved paths to contents, on which an upload, a deletion or a rename is one
  update. A locale states what refining such a store means and proves it for whole runs of requests;
  the service's model is interpreted in it.
\<close>

section \<open>Stores\<close>

text \<open>
  A run of requests, with the ones that were granted.
\<close>

fun run_all :: "('s \<Rightarrow> 'r \<Rightarrow> 's \<times> bool) \<Rightarrow> 's \<Rightarrow> 'r list \<Rightarrow> 's \<times> 'r list" where
  "run_all exec s [] = (s, [])"
| "run_all exec s (r # rs) =
     (let (s1, granted) = exec s r; (s2, gs) = run_all exec s1 rs in (s2, if granted then r # gs else gs))"

text \<open>
  A provider of requests: exec performs one and says whether it was granted, abs is the store the
  state represents, spec what a granted request does to the store, inv what every request keeps.
\<close>

locale request_store =
  fixes exec :: "'s \<Rightarrow> 'r \<Rightarrow> 's \<times> bool"
    and abs :: "'s \<Rightarrow> 'a"
    and spec :: "'r \<Rightarrow> 'a \<Rightarrow> 'a"
    and inv :: "'s \<Rightarrow> bool"
    and ok :: "'r \<Rightarrow> bool"
  assumes keeps: "inv s \<Longrightarrow> ok r \<Longrightarrow> inv (fst (exec s r))"
    and refines: "inv s \<Longrightarrow> ok r \<Longrightarrow> abs (fst (exec s r)) = (if snd (exec s r) then spec r (abs s) else abs s)"
begin

lemma run_cons:
  "exec s r = (s1, g) \<Longrightarrow> fst (run_all exec s (r # rs)) = fst (run_all exec s1 rs) \<and>
     snd (run_all exec s (r # rs)) = (if g then [r] else []) @ snd (run_all exec s1 rs)"
  by (simp add: Let_def split: prod.split)

lemma run_refines:
  "inv s \<Longrightarrow> list_all ok rs \<Longrightarrow>
     inv (fst (run_all exec s rs)) \<and> abs (fst (run_all exec s rs)) = fold spec (snd (run_all exec s rs)) (abs s)"
proof (induction rs arbitrary: s)
  case (Cons r rs)
  from Cons.prems have r: "inv s" "ok r" "list_all ok rs" by simp_all
  obtain s1 g where e: "exec s r = (s1, g)" by (cases "exec s r")
  with keeps [OF r(1,2)] refines [OF r(1,2)] have "inv s1" "abs s1 = (if g then spec r (abs s) else abs s)" by simp_all
  with Cons.IH [of s1] r(3) run_cons [OF e] show ?case by simp
qed simp

end

section \<open>The service as a store\<close>

text \<open>
  The requests of the command layer that change the tree. A rename is the pair RNFR and RNTO, whose
  first half accepts files only.
\<close>

datatype request =
    Upload upload_env bool path string source
  | Delete path string
  | Rename path string string
  | MakeDir path string
  | RemoveDir path string

definition succeeded :: "'a outcome \<Rightarrow> file_system \<times> bool" where
  "succeeded r = (fst r, case snd r of Inl e \<Rightarrow> False | Inr x \<Rightarrow> True)"

fun exec_request :: "path \<Rightarrow> file_system \<Rightarrow> request \<Rightarrow> file_system \<times> bool" where
  "exec_request root fs (Upload env appending cwd s chunks) =
     succeeded (snd ((if appending then svc_append else svc_store) env root fs cwd s chunks))"
| "exec_request root fs (Delete cwd s) = succeeded (svc_delete root fs cwd s)"
| "exec_request root fs (Rename cwd a b) =
     (case prepare_retrieve root fs cwd a of
        Inl e \<Rightarrow> (fs, False)
      | Inr p \<Rightarrow> succeeded (svc_rename root fs cwd a b))"
| "exec_request root fs (MakeDir cwd s) = succeeded (svc_make_directory root fs cwd s)"
| "exec_request root fs (RemoveDir cwd s) = succeeded (svc_remove_directory root fs cwd s)"

type_synonym store = "path \<Rightarrow> bytes option"

text \<open>The abstract effect, with the paths resolved by the links of the tree fs0.\<close>

fun spec_request :: "path \<Rightarrow> file_system \<Rightarrow> request \<Rightarrow> store \<Rightarrow> store" where
  "spec_request root fs0 (Upload env appending cwd s chunks) m =
     (let p = target root fs0 cwd s
      in m(p \<mapsto> (if appending then (case m p of Some old \<Rightarrow> old | None \<Rightarrow> []) else []) @ concat (fst chunks)))"
| "spec_request root fs0 (Delete cwd s) m = m(target root fs0 cwd s := None)"
| "spec_request root fs0 (Rename cwd a b) m =
     m(target root fs0 cwd b := m (target root fs0 cwd a), target root fs0 cwd a := None)"
| "spec_request root fs0 (MakeDir cwd s) m = m"
| "spec_request root fs0 (RemoveDir cwd s) m = m"

fun request_ok :: "request \<Rightarrow> bool" where
  "request_ok (Upload env appending cwd s chunks) = (temps_ok env \<and> slashless cwd)"
| "request_ok (Delete cwd s) = slashless cwd"
| "request_ok (Rename cwd a b) = slashless cwd"
| "request_ok (MakeDir cwd s) = slashless cwd"
| "request_ok (RemoveDir cwd s) = slashless cwd"

definition store_inv :: "path \<Rightarrow> file_system \<Rightarrow> file_system \<Rightarrow> bool" where
  "store_inv root fs0 fs \<longleftrightarrow> good_root fs root \<and> is_link fs = is_link fs0 \<and> loop_free fs0 \<and> same_outside root fs0 fs"

lemma target_cong: "is_link fs' = is_link fs \<Longrightarrow> target root fs' cwd s = target root fs cwd s"
  unfolding target_def by (simp only: realpath_cong [of fs' fs])

lemma store_inv_step:
  assumes "store_inv root fs0 fs" "step_ok root fs fs'" "is_link fs' = is_link fs"
  shows "store_inv root fs0 fs'"
  using assms step_ok_root [of fs root fs'] by (auto simp: store_inv_def step_ok_def intro: same_outside_trans)

lemma store_inv_resolve:
  assumes "store_inv root fs0 fs" "slashless cwd" "resolve root fs cwd s = Inr p"
  shows "p = target root fs0 cwd s" "inside fs root p"
proof -
  have g: "good_root fs root" "is_link fs = is_link fs0" "loop_free fs"
    using assms(1) loop_free_cong [of fs fs0] by (simp_all add: store_inv_def)
  from resolve_target [OF g(1) assms(2) g(3) assms(3)] target_cong [OF g(2)]
  show "p = target root fs0 cwd s" "inside fs root p" by simp_all
qed

lemma rename_file_request:
  assumes root: "good_root fs root" and a: "inside fs root a" "files fs a \<noteq> None" and b: "inside fs root b"
    and r: "rename_entry fs root a b = (fs', Inr ())"
  shows "step_ok root fs fs' \<and> is_link fs' = is_link fs \<and> files fs' = (files fs)(b := files fs a, a := None)"
proof -
  from rename_entry_effect [OF root a(1) b r] have e: "fs' = move fs a b" "node fs b = None"
    "\<not> prefix a b" "\<not> prefix b a" "is_dir fs (butlast b)" by auto
  have nd: "\<not> is_dir fs a" using a(2) is_dir_not_file by auto
  have ndb: "\<not> is_dir fs b" using e(2) by (simp add: is_dir_def)
  obtain d where d: "files fs a = Some d" using a(2) by auto
  have bn: "b \<noteq> []" using e(3,4) by (cases "a = []") (auto simp: ndb wf_root)
  have lb: "name_ok (last b)" using insideD(2) [OF b] bn by (simp add: names_ok_def)
  have an: "a \<noteq> []" using e(3) by auto
  from rename_file [OF good_rootD(1) [OF root] insideD(1) [OF a(1)] insideD(1) [OF b] d ndb bn e(5) lb e(3,4)]
  obtain g where g: "sys_rename fs a b = Inr g" "node g = (node fs)(b := node fs a, a := None)" by blast
  have "g = fs'" using r g(1) by (auto simp: rename_entry_def split: if_splits)
  with g have n: "node fs' = (node fs)(b := node fs a, a := None)" by simp
  have "step_ok root fs fs'" unfolding e(1)
    by (rule step_ok_move [OF root insideD(3) [OF a(1)] insideD(3,2) [OF b] e(2-5)])
  moreover have "is_link fs' = is_link fs" unfolding e(1)
    by (rule links_move_file [OF good_rootD(1) [OF root] nd plain_last_link [OF insideD(1) [OF a(1)] an] e(2,4)])
  moreover have "files fs' = (files fs)(b := files fs a, a := None)"
    by (auto simp: files_def n)
  ultimately show ?thesis by simp
qed

text \<open>What one request owes: it keeps the invariant, and its effect on the files is the abstract one.\<close>

definition request_done :: "path \<Rightarrow> file_system \<Rightarrow> file_system \<Rightarrow> request \<Rightarrow> bool" where
  "request_done root fs0 fs r \<longleftrightarrow> store_inv root fs0 (fst (exec_request root fs r)) \<and>
    files (fst (exec_request root fs r)) =
      (if snd (exec_request root fs r) then spec_request root fs0 r (files fs) else files fs)"

lemma upload_done:
  assumes inv: "store_inv root fs0 fs" and ok: "request_ok r" and Upload: "r = Upload env ap cwd s chunks"
  shows "request_done root fs0 fs r"
proof -
  note request_done_def [simp]
  have root: "good_root fs root" using inv by (simp add: store_inv_def)
  note res = store_inv_resolve [OF inv] and keep = store_inv_step [OF inv]
  show ?thesis
  proof (cases "resolve root fs cwd s")
    case (Inl e)
    then show ?thesis using Upload inv by (simp add: svc_store_def svc_append_def succeeded_def)
  next
    case (Inr p)
    note p = res [OF _ Inr]
    have sl: "slashless cwd" "temps_ok env" using ok Upload by simp_all
    obtain tr fs' x where u: "atomic_upload env fs p chunks ap = (tr, fs', x)" by (metis prod_cases3)
    have ex: "exec_request root fs r = succeeded (fs', x)"
      using Upload Inr u by (cases ap) (simp_all add: svc_store_def svc_append_def)
    note eff = atomic_upload_effect [OF root p(2) [OF sl(1)] sl(2) u]
    have k: "store_inv root fs0 fs'"
      using step_ok_upload [OF root p(2) [OF sl(1)] sl(2) u] keep by simp
    show ?thesis
    proof (cases x)
      case (Inl e)
      then have "files fs' = files fs" using eff by (simp add: files_def fun_eq_iff)
      then show ?thesis using ex k Inl by (simp add: succeeded_def)
    next
      case (Inr y)
      have "files fs' q = files fs q" if "q \<noteq> p" for q
        using eff Inr that by (simp add: files_def)
      moreover have "files fs' p = Some ((if ap then (case files fs p of Some old \<Rightarrow> old | None \<Rightarrow> []) else []) @ concat (fst chunks))"
        using eff Inr by simp
      ultimately show ?thesis using ex k Inr Upload p(1) [OF sl(1)]
        by (simp add: succeeded_def Let_def fun_eq_iff)
    qed
  qed
qed

lemma delete_done:
  assumes inv: "store_inv root fs0 fs" and ok: "request_ok r" and Delete: "r = Delete cwd s"
  shows "request_done root fs0 fs r"
proof -
  note request_done_def [simp]
  have root: "good_root fs root" using inv by (simp add: store_inv_def)
  note res = store_inv_resolve [OF inv] and keep = store_inv_step [OF inv]
  show ?thesis
  proof (cases "resolve root fs cwd s")
    case (Inl e)
    then show ?thesis using Delete inv by (simp add: svc_delete_def succeeded_def)
  next
    case (Inr p)
    have sl: "slashless cwd" using ok Delete by simp
    note p = res [OF sl Inr]
    obtain fs' x where d: "delete_file fs root p = (fs', x)" by (cases "delete_file fs root p")
    have ex: "exec_request root fs r = succeeded (fs', call ''delete'' x)"
      using Delete Inr d by (simp add: svc_delete_def succeeded_def)
    from delete_file_effect [OF root p(2) d] show ?thesis
    proof (elim disjE exE conjE)
      assume e: "x = Inr ()" "fs' = cut fs p" "files fs p \<noteq> None"
      have nd: "\<not> is_dir fs p" using e(3) is_dir_not_file by auto
      then have "p \<noteq> root" using good_rootD(5) [OF root] by auto
      then have "step_ok root fs fs'" unfolding e(2) using nd by (intro step_ok_cut [OF root insideD(3) [OF p(2)]]) auto
      moreover have "is_link fs' = is_link fs" unfolding e(2)
        using e(3) by (intro links_cut) (auto simp: files_def is_link_def split: option.splits kind.splits)
      ultimately show ?thesis using keep ex e Delete p(1) by (simp add: succeeded_def call_def)
    next
      fix e assume "x = Inl e" "fs' = fs"
      then show ?thesis using ex inv by (simp add: succeeded_def call_def)
    qed
  qed
qed

lemma rename_done:
  assumes inv: "store_inv root fs0 fs" and ok: "request_ok r" and Rename: "r = Rename cwd a b"
  shows "request_done root fs0 fs r"
proof -
  note request_done_def [simp]
  have root: "good_root fs root" using inv by (simp add: store_inv_def)
  note res = store_inv_resolve [OF inv] and keep = store_inv_step [OF inv]
  have sl: "slashless cwd" using ok Rename by simp
  show ?thesis
  proof (cases "prepare_retrieve root fs cwd a")
    case (Inl e)
    then show ?thesis using Rename inv by simp
  next
    case (Inr p)
    then have ra: "resolve root fs cwd a = Inr p" and fp: "path_isfile fs p"
      by (auto simp: prepare_retrieve_def split: sum.splits if_splits)
    note p = res [OF sl ra]
    have fa: "files fs p \<noteq> None" using fp isfile_plain [OF good_rootD(1) [OF root] insideD(1) [OF p(2)]] by simp
    show ?thesis
    proof (cases "resolve root fs cwd b")
      case (Inl e)
      then show ?thesis using Rename inv Inr ra by (simp add: svc_rename_def succeeded_def)
    next
      case rb: (Inr q)
      note q = res [OF sl rb]
      obtain fs' x where d: "rename_entry fs root p q = (fs', x)" by (cases "rename_entry fs root p q")
      have ex: "exec_request root fs r = succeeded (fs', call ''rename'' x)"
        using Rename Inr ra rb d by (simp add: svc_rename_def succeeded_def)
      show ?thesis
      proof (cases x)
        case (Inl e)
        then have "fs' = fs" using rename_entry_effect [OF root p(2) q(2) d] by auto
        then show ?thesis using ex Inl inv by (simp add: succeeded_def call_def)
      next
        case xr: (Inr y)
        then have "rename_entry fs root p q = (fs', Inr ())" using d by simp
        from rename_file_request [OF root p(2) fa q(2) this] keep ex xr Rename p(1) q(1)
        show ?thesis by (simp add: succeeded_def call_def)
      qed
    qed
  qed
qed

lemma make_dir_done:
  assumes inv: "store_inv root fs0 fs" and ok: "request_ok r" and MakeDir: "r = MakeDir cwd s"
  shows "request_done root fs0 fs r"
proof -
  note request_done_def [simp]
  have root: "good_root fs root" using inv by (simp add: store_inv_def)
  note res = store_inv_resolve [OF inv] and keep = store_inv_step [OF inv]
  have sl: "slashless cwd" using ok MakeDir by simp
  show ?thesis
  proof (cases "resolve root fs cwd s")
    case (Inl e)
    then show ?thesis using MakeDir inv by (simp add: svc_make_directory_def succeeded_def)
  next
    case (Inr p)
    note p = res [OF sl Inr]
    obtain fs' x where d: "make_directory fs root p = (fs', x)" by (cases "make_directory fs root p")
    from make_directory_effect [OF root p(2) d] keep MakeDir Inr d show ?thesis
      by (simp add: svc_make_directory_def succeeded_def)
  qed
qed

lemma remove_dir_done:
  assumes inv: "store_inv root fs0 fs" and ok: "request_ok r" and RemoveDir: "r = RemoveDir cwd s"
  shows "request_done root fs0 fs r"
proof -
  note request_done_def [simp]
  have root: "good_root fs root" using inv by (simp add: store_inv_def)
  note res = store_inv_resolve [OF inv] and keep = store_inv_step [OF inv]
  have sl: "slashless cwd" using ok RemoveDir by simp
  show ?thesis
  proof (cases "resolve root fs cwd s")
    case (Inl e)
    then show ?thesis using RemoveDir inv by (simp add: svc_remove_directory_def succeeded_def)
  next
    case (Inr p)
    note p = res [OF sl Inr]
    obtain fs' x where d: "remove_directory fs root p = (fs', x)" by (cases "remove_directory fs root p")
    have ex: "exec_request root fs r = succeeded (fs', call ''rmdir'' x)"
      using RemoveDir Inr d by (simp add: svc_remove_directory_def succeeded_def)
    from remove_directory_effect [OF root p(2) d] show ?thesis
    proof (elim disjE exE conjE)
      assume e: "x = Inr ()" "fs' = cut fs p" "is_dir fs p" "entries fs p = []" "p \<noteq> root"
      have "step_ok root fs fs'" unfolding e(2) using e(4,5) by (intro step_ok_cut [OF root insideD(3) [OF p(2)]]) auto
      moreover have "is_link fs' = is_link fs" unfolding e(2) by (rule links_cut [OF is_dir_not_link [OF e(3)]])
      moreover have "files fs' = files fs" unfolding e(2) using is_dir_not_file [OF e(3)] by auto
      ultimately show ?thesis using keep ex e RemoveDir by (simp add: succeeded_def call_def)
    next
      fix e assume "x = Inl e" "fs' = fs"
      then show ?thesis using ex inv by (simp add: succeeded_def call_def)
    qed
  qed
qed

lemma request_effect:
  assumes "store_inv root fs0 fs" "request_ok r"
  shows "request_done root fs0 fs r"
  by (cases r)
    (rule upload_done [OF assms] delete_done [OF assms] rename_done [OF assms] make_dir_done [OF assms]
       remove_dir_done [OF assms], assumption)+

interpretation service: request_store "exec_request root" files "spec_request root fs0" "store_inv root fs0" request_ok
  for root fs0
  using request_effect by unfold_locales (simp_all add: request_done_def)

section \<open>The working directory a client is shown\<close>

lemma common_prefix_le: "common_prefix p q \<le> length p"
  by (induction p q rule: common_prefix.induct) auto

lemma common_prefix_prefix: "common_prefix p (p @ q) = length p"
  by (induction p) (cases q; simp)+

lemma relpath_below: "relpath (p @ q) p = (if q = [] then ''.'' else join_with [slash] q)"
  by (simp add: relpath_def common_prefix_prefix)

lemma join_dot: "names_ok q \<Longrightarrow> q \<noteq> [] \<Longrightarrow> join_with [slash] q \<noteq> ''.''"
proof
  assume q: "names_ok q" "q \<noteq> []" "join_with [slash] q = ''.''"
  have "q = split_on slash (join_with [slash] q)"
    by (rule split_join [symmetric]) (use q in \<open>auto simp: names_ok_def name_ok_def\<close>)
  also have "\<dots> = [''.'']" unfolding q(3) by (simp add: slash_def)
  finally show False using q(1) by (simp add: name_ok_def)
qed

text \<open>Names the display shows as they are: no backslash at the start and no NUL character.\<close>

definition displayable :: "path \<Rightarrow> bool" where
  "displayable q \<longleftrightarrow> q = [] \<or> ord_char (hd (hd q)) \<noteq> 92 \<and> list_all (\<lambda>n. char_of (0::nat) \<notin> set n) q"

lemma join_set: "c \<in> set (join_with sep ws) \<Longrightarrow> c \<in> set sep \<or> (\<exists>w\<in>set ws. c \<in> set w)"
  by (induction sep ws rule: join_with.induct) auto

lemma join_hd: "q \<noteq> [] \<Longrightarrow> hd q \<noteq> [] \<Longrightarrow> join_with sep q \<noteq> [] \<and> hd (join_with sep q) = hd (hd q)"
  by (cases q; cases "tl q") auto

lemma display_resolves:
  assumes root: "good_root fs root" and p: "plain fs (root @ q)" "names_ok q" "displayable q"
  shows "display_path root fs (root @ q) = Inr (slash # join_with [slash] q)"
    and "resolve root fs cwd (slash # join_with [slash] q) = Inr (root @ q)"
proof -
  let ?s = "join_with [slash] q"
  have ok: "names_ok (root @ q)" using p(2) good_rootD(3) [OF root] by simp
  have real: "realpath fs (root @ q) = root @ q" by (rule realpath_plain [OF p(1)])
  have val: "validate_path fs root (root @ q)"
    using validate_good [OF root names_ok_slashless [OF ok]] real by simp
  show "display_path root fs (root @ q) = Inr (slash # ?s)"
    using join_dot [OF p(2)] relpath_below [of root q] real val
    by (cases "q = []") (simp_all add: display_path_def Let_def)
  have st: "starts_with (slash # ?s) [slash]" by (simp add: starts_with_def)
  have ls: "lstrip_separators (slash # ?s) = ?s"
  proof (cases "q = []")
    case True
    then show ?thesis by (simp add: lstrip_separators_def)
  next
    case False
    then have "hd q \<noteq> []" "slash \<notin> set (hd q)" using p(2) by (auto simp: names_ok_def name_ok_def)
    then have "hd (hd q) \<noteq> slash" by (metis hd_in_set)
    moreover have "ord_char (hd (hd q)) \<noteq> 92" using p(3) False by (simp add: displayable_def)
    ultimately show ?thesis using join_hd [OF False \<open>hd q \<noteq> []\<close>, of "[slash]"]
      by (cases ?s) (simp_all add: lstrip_separators_def)
  qed
  have nul: "char_of (0::nat) \<notin> set (slash # ?s)"
  proof
    assume "char_of (0::nat) \<in> set (slash # ?s)"
    then have "char_of (0::nat) = slash \<or> (\<exists>w\<in>set q. char_of (0::nat) \<in> set w)"
      using join_set [of _ "[slash]" q] by auto
    moreover have "char_of (0::nat) \<noteq> slash" by code_simp
    ultimately show False using p(3) by (auto simp: displayable_def list_all_iff)
  qed
  have names: "request_names root cwd (slash # ?s) = (if q = [] then root @ [[]] else root @ q)"
  proof (cases "q = []")
    case True
    then show ?thesis using st ls by (simp add: request_names_def)
  next
    case False
    have "split_on slash ?s = q"
      by (rule split_join) (use p(2) False in \<open>auto simp: names_ok_def name_ok_def\<close>)
    then show ?thesis using st ls False by (simp add: request_names_def)
  qed
  have r: "realpath fs (request_names root cwd (slash # ?s)) = root @ q"
  proof (cases "q = []")
    case True
    have "walk f fs seen a (c @ [[]]) = Some (a @ c, True, seen)" if "plain fs (a @ c)" for f seen a c
      using that
    proof (induction c arbitrary: a)
      case (Cons n c)
      have "n \<noteq> []" "n \<noteq> ''.''" "n \<noteq> ''..''" using plain_names [OF Cons.prems] by simp_all
      with Cons plain_link [OF Cons.prems] show ?case by (simp add: walk_entry)
    qed (simp add: walk_skip)
    from this [of "[]" root] p(1) True have "walk (link_fuel fs) fs [] [] (root @ [[]]) = Some (root, True, [])" by simp
    moreover have "norm_from [] root = root"
      using norm_plain [of root "[]"] good_rootD(2) [OF root] by (simp add: plain_def)
    ultimately show ?thesis using True names by (simp add: realpath_def)
  next
    case False
    then show ?thesis using real names by simp
  qed
  show "resolve root fs cwd (slash # ?s) = Inr (root @ q)"
    using nul r val by (simp add: resolve_def resolve_path_def Let_def call_def)
qed

section \<open>Properties\<close>

text \<open>C27: The service refines an abstract store. Over any run of uploads, appends, deletions, renames and
  directory operations the contents of all files are those the granted requests give when each is one
  update of a map from paths to contents; refused requests have no effect.\<close>

theorem service_refines_store:
  assumes "good_root fs root" "loop_free fs" "list_all request_ok rs"
    and "run_all (exec_request root) fs rs = (fs', granted)"
  shows "files fs' = fold (spec_request root fs) granted (files fs)"
proof -
  have "store_inv root fs fs" using assms(1,2) by (simp add: store_inv_def)
  from service.run_refines [OF this assms(3)] assms(4) show ?thesis by simp
qed

definition clean_tree :: file_system where
  "clean_tree = sample_tree\<lparr>nodes :=
     [([], dir_inode), ([''etc''], dir_inode), ([''ftp''], dir_inode), ([''ftp'', ''a''], file_inode [1, 2, 3]),
      ([''ftp'', ''d''], dir_inode), ([''ftp'', ''d'', ''B''], file_inode [4])]\<rparr>"

lemma clean_good: "good_root clean_tree sample_root"
  by code_simp

lemma clean_loop_free: "loop_free clean_tree"
  by (rule no_links_loop_free) code_simp

definition sample_requests :: "request list" where
  "sample_requests =
     [Upload sample_env False sample_root ''n'' ([[5, 6]], None),
      Rename sample_root ''a'' ''d/a2'',
      Upload sample_env True sample_root ''n'' ([[7]], None),
      Upload sample_env False sample_root ''n'' ([[8], [8], [8]], None),
      Delete sample_root ''missing'', MakeDir sample_root ''e/f'', RemoveDir sample_root ''d'']"

theorem service_refines_store_witness:
  "(case run_all (exec_request sample_root) clean_tree sample_requests of
      (fs', granted) \<Rightarrow> length granted = 4 \<and> files fs' = fold (spec_request sample_root clean_tree) granted (files clean_tree)
        \<and> files fs' [''ftp'', ''n''] = Some [5, 6, 7] \<and> files fs' [''ftp'', ''d'', ''a2''] = Some [1, 2, 3])"
proof -
  obtain fs' granted where u: "run_all (exec_request sample_root) clean_tree sample_requests = (fs', granted)"
    by (cases "run_all (exec_request sample_root) clean_tree sample_requests")
  have v: "case run_all (exec_request sample_root) clean_tree sample_requests of
      (fs', granted) \<Rightarrow> length granted = 4
        \<and> files fs' [''ftp'', ''n''] = Some [5, 6, 7] \<and> files fs' [''ftp'', ''d'', ''a2''] = Some [1, 2, 3]" by code_simp
  have "list_all request_ok sample_requests" by code_simp
  from service_refines_store [OF clean_good clean_loop_free this u] u v show ?thesis by simp
qed





end
