(* ===== verification/Handler_Properties.thy ===== *)
theory Handler_Properties
  imports Command_Handler File_Store
begin

text \<open>
  What the command handler keeps and promises: a session invariant that ties the session's fields to
  the file system, its sockets and its worker; access control; the form of replies.
\<close>

section \<open>The session invariant\<close>

definition links_outside :: "path \<Rightarrow> file_system \<Rightarrow> bool" where
  "links_outside root fs \<longleftrightarrow> (\<forall>q. prefix root q \<longrightarrow> is_link fs q = None)"

text \<open>A transfer is registered exactly while a worker has not finished it; a started one finds a data host.\<close>

definition transferring :: "session \<Rightarrow> bool" where
  "transferring s =
     (case transfer_worker s of
        None \<Rightarrow> False
      | Some w \<Rightarrow> (case w_phase w of Started \<Rightarrow> True | Running a \<Rightarrow> True | Reporting r \<Rightarrow> False | Ended \<Rightarrow> False))"

definition transfer_ok :: "session \<Rightarrow> bool" where
  "transfer_ok s \<longleftrightarrow> (transferring s \<longleftrightarrow> current_transfer s \<noteq> None) \<and>
     (\<forall>w. transfer_worker s = Some w \<longrightarrow> w_phase w = Started \<longrightarrow> data_host s \<noteq> None) \<and>
     (data_socket s \<noteq> None \<longrightarrow> data_host s \<noteq> None)"

text \<open>The session's data socket is its only open socket: none is leaked.\<close>

definition sockets_ok :: "server_state \<Rightarrow> bool" where
  "sockets_ok st \<longleftrightarrow>
     map fst (sv_sockets st) = (case data_socket (sv_session st) of None \<Rightarrow> [] | Some i \<Rightarrow> [i])
     \<and> (\<forall>i\<in>fst ` set (sv_sockets st). i < sv_next st)"

definition session_ok :: "path \<Rightarrow> file_system \<Rightarrow> server_state \<Rightarrow> bool" where
  "session_ok root fs0 st \<longleftrightarrow>
     store_inv root fs0 (sv_fs st) \<and> links_outside root fs0
     \<and> inside fs0 root (current_dir (sv_session st))
     \<and> (rename_from (sv_session st) \<noteq> None \<longrightarrow> is_logged_in (sv_session st))
     \<and> transfer_ok (sv_session st) \<and> sockets_ok st"

lemma upd_simps [simp]:
  "sv_fs (upd f st) = sv_fs st" "sv_session (upd f st) = f (sv_session st)" "sv_sockets (upd f st) = sv_sockets st"
  "sv_next (upd f st) = sv_next st" "sv_counter (upd f st) = sv_counter st" "sv_events (upd f st) = sv_events st"
  by (simp_all add: upd_def)

lemma say_simps [simp]: "fst (say m st) = st" "snd (say m st) = Inr (m @ crlf)"
  by (simp_all add: say_def)

lemma forget_ok: "session_ok root fs0 st \<Longrightarrow> session_ok root fs0 (forget_rename st)"
  by (simp add: session_ok_def forget_rename_def transfer_ok_def sockets_ok_def transferring_def)

lemma transferring_upd [simp]:
  "transferring (s\<lparr>username := a\<rparr>) = transferring s" "transferring (s\<lparr>is_logged_in := b\<rparr>) = transferring s"
  "transferring (s\<lparr>rename_from := c\<rparr>) = transferring s" "transferring (s\<lparr>transfer_type := t\<rparr>) = transferring s"
  "transferring (s\<lparr>transfer_mode := t\<rparr>) = transferring s" "transferring (s\<lparr>current_dir := d\<rparr>) = transferring s"
  "transferring (s\<lparr>data_socket := i\<rparr>) = transferring s" "transferring (s\<lparr>data_host := a\<rparr>) = transferring s"
  "transferring (s\<lparr>data_port := i1\<rparr>) = transferring s" "transferring (s\<lparr>sess_data_mode := i2\<rparr>) = transferring s"
  "transferring (s\<lparr>transfer_cancelled := b\<rparr>) = transferring s"
  "transferring (s\<lparr>transfer_cancel_event := i\<rparr>) = transferring s"
  "transferring (s\<lparr>sess_transfer_id := a\<rparr>) = transferring s" "transferring (s\<lparr>current_transfer := x\<rparr>) = transferring s"
  by (simp_all add: transferring_def)

lemma transfer_ok_upd [simp]:
  "transfer_ok (s\<lparr>username := a\<rparr>) = transfer_ok s" "transfer_ok (s\<lparr>is_logged_in := b\<rparr>) = transfer_ok s"
  "transfer_ok (s\<lparr>rename_from := c\<rparr>) = transfer_ok s" "transfer_ok (s\<lparr>transfer_type := t\<rparr>) = transfer_ok s"
  "transfer_ok (s\<lparr>transfer_mode := t\<rparr>) = transfer_ok s" "transfer_ok (s\<lparr>current_dir := d\<rparr>) = transfer_ok s"
  "transfer_ok (s\<lparr>transfer_cancelled := b\<rparr>) = transfer_ok s"
  "transfer_ok (s\<lparr>transfer_cancel_event := i\<rparr>) = transfer_ok s"
  by (simp_all add: transfer_ok_def)

lemma transfer_ok_close: "transfer_ok s \<Longrightarrow> transfer_ok (s\<lparr>data_socket := None\<rparr>)"
  by (simp add: transfer_ok_def)

lemma sockets_ok_upd: "data_socket (f (sv_session st)) = data_socket (sv_session st) \<Longrightarrow> sockets_ok (upd f st) = sockets_ok st"
  by (simp add: sockets_ok_def)

text \<open>Commands of the service leave everything but the tree as it is.\<close>

lemma service_call_state:
  assumes "service_call (Some root) st act = (st1, r)"
  shows "\<exists>fs1. act root (sv_fs st) = (fs1, r) \<and> st1 = st\<lparr>sv_fs := fs1\<rparr>"
  using assms by (auto simp: service_call_def handler_fs_def split: prod.splits)

lemma session_ok_fs: "session_ok root fs0 st \<Longrightarrow> store_inv root fs0 fs1 \<Longrightarrow> session_ok root fs0 (st\<lparr>sv_fs := fs1\<rparr>)"
  by (simp add: session_ok_def sockets_ok_def)

lemma answer_ok:
  assumes "session_ok root fs0 st" "store_inv root fs0 (fst (act root (sv_fs st)))"
    and "\<And>st1 x. session_ok root fs0 st1 \<Longrightarrow> sv_session st1 = sv_session st \<Longrightarrow> snd (act root (sv_fs st)) = Inr x \<Longrightarrow>
          session_ok root fs0 (change x st1)"
  shows "session_ok root fs0 (fst (answer fb change text (service_call (Some root) st act)))"
proof -
  obtain st1 r where c: "service_call (Some root) st act = (st1, r)" by (cases "service_call (Some root) st act")
  from service_call_state [OF this] obtain fs1 where f: "act root (sv_fs st) = (fs1, r)" "st1 = st\<lparr>sv_fs := fs1\<rparr>" by blast
  have "session_ok root fs0 st1" using session_ok_fs [OF assms(1)] assms(2) f by simp
  then show ?thesis using c f assms(3) [of st1] by (auto simp: answer_def split: sum.split)
qed

lemma query_ok: "session_ok root fs0 st \<Longrightarrow> store_inv root fs0 (fst (query f root (sv_fs st)))"
  by (simp add: query_def session_ok_def)

section \<open>The service's changes keep it\<close>

lemma inside_slashless: "inside fs root p \<Longrightarrow> slashless p"
  by (simp add: inside_def names_ok_slashless)

lemma session_root: "session_ok root fs0 st \<Longrightarrow> good_root (sv_fs st) root"
  by (simp add: session_ok_def store_inv_def)

lemma svc_delete_keeps: "store_inv root fs0 fs \<Longrightarrow> slashless cwd \<Longrightarrow> store_inv root fs0 (fst (svc_delete root fs cwd s))"
  using request_effect [of root fs0 fs "Delete cwd s"] by (simp add: request_done_def succeeded_def)

lemma svc_mkdir_keeps: "store_inv root fs0 fs \<Longrightarrow> slashless cwd \<Longrightarrow> store_inv root fs0 (fst (svc_make_directory root fs cwd s))"
  using request_effect [of root fs0 fs "MakeDir cwd s"] by (simp add: request_done_def succeeded_def)

lemma svc_rmdir_keeps: "store_inv root fs0 fs \<Longrightarrow> slashless cwd \<Longrightarrow> store_inv root fs0 (fst (svc_remove_directory root fs cwd s))"
  using request_effect [of root fs0 fs "RemoveDir cwd s"] by (simp add: request_done_def succeeded_def)

lemma links_move_free:
  assumes "\<forall>q. prefix a q \<longrightarrow> is_link fs q = None" "\<forall>q. prefix b q \<longrightarrow> node fs q = None" "\<not> prefix b a"
  shows "is_link (move fs a b) = is_link fs"
proof
  fix q
  have d: "is_link fs (a @ s) = None" for s using assms(1) by simp
  have n: "prefix b q \<Longrightarrow> is_link fs q = None" using assms(2) by (simp add: is_link_def)
  show "is_link (move fs a b) q = is_link fs q"
    using d [of "drop (length b) q"] n assms(1) unfolding is_link_def node_move [OF assms(2,3)] by auto
qed

lemma svc_rename_keeps:
  assumes inv: "store_inv root fs0 fs" and lo: "links_outside root fs0" and sl: "slashless cwd"
  shows "store_inv root fs0 (fst (svc_rename root fs cwd a b))"
proof (cases "resolve root fs cwd a")
  case (Inl e)
  then show ?thesis using inv by (simp add: svc_rename_def)
next
  case ra: (Inr p)
  show ?thesis
  proof (cases "resolve root fs cwd b")
    case (Inl e)
    then show ?thesis using inv ra by (simp add: svc_rename_def)
  next
    case rb: (Inr q)
    have root: "good_root fs root" using inv by (simp add: store_inv_def)
    note p = store_inv_resolve [OF inv sl ra] and q = store_inv_resolve [OF inv sl rb]
    obtain fs' x where d: "rename_entry fs root p q = (fs', x)" by (cases "rename_entry fs root p q")
    have r: "fst (svc_rename root fs cwd a b) = fs'" using ra rb d by (simp add: svc_rename_def)
    from rename_entry_effect [OF root p(2) q(2) d] show ?thesis
    proof (elim disjE exE conjE)
      assume e: "fs' = move fs p q" "node fs q = None" "\<not> prefix p q" "\<not> prefix q p" "is_dir fs (butlast q)"
      have free: "\<forall>z. prefix q z \<longrightarrow> node fs z = None"
        using wf_free [OF good_rootD(1) [OF root] _ e(2)] e(2) by (auto simp: is_dir_def)
      have "\<forall>z. prefix p z \<longrightarrow> is_link fs z = None"
        using lo inv insideD(3) [OF p(2)] prefix_order.trans by (fastforce simp: links_outside_def store_inv_def)
      then have "is_link fs' = is_link fs" unfolding e(1) by (rule links_move_free [OF _ free e(4)])
      moreover have "step_ok root fs fs'" unfolding e(1)
        by (rule step_ok_move [OF root insideD(3) [OF p(2)] insideD(3,2) [OF q(2)] e(2-5)])
      ultimately show ?thesis using r store_inv_step [OF inv] by simp
    next
      fix e assume "fs' = fs"
      then show ?thesis using r inv by simp
    qed
  qed
qed

lemma change_directory_inside:
  assumes "session_ok root fs0 st" "change_directory root (sv_fs st) (cwd_of st) s = Inr p"
  shows "inside fs0 root p"
proof -
  have inv: "store_inv root fs0 (sv_fs st)" and cwd: "inside fs0 root (cwd_of st)"
    using assms(1) by (simp_all add: session_ok_def)
  have r: "resolve root (sv_fs st) (cwd_of st) s = Inr p"
    using assms(2) by (auto simp: change_directory_def split: sum.splits if_splits)
  from store_inv_resolve(2) [OF inv inside_slashless [OF cwd] r] inside_cong [of "sv_fs st" fs0] inv
  show ?thesis by (simp add: store_inv_def)
qed

lemma root_inside: "session_ok root fs0 st \<Longrightarrow> inside fs0 root root"
proof -
  assume s: "session_ok root fs0 st"
  from s have l: "is_link (sv_fs st) = is_link fs0" by (simp add: session_ok_def store_inv_def)
  from session_root [OF s] have "inside (sv_fs st) root root" by (simp add: good_root_def inside_def)
  then show ?thesis using inside_cong [OF l] by simp
qed

lemma parent_directory_inside:
  assumes "session_ok root fs0 st" "parent_directory root (sv_fs st) (cwd_of st) = Inr p"
  shows "inside fs0 root p"
  using assms change_directory_inside [OF assms(1)] root_inside [OF assms(1)]
  by (auto simp: parent_directory_def split: if_splits)

lemma set_cwd_ok: "session_ok root fs0 st \<Longrightarrow> inside fs0 root p \<Longrightarrow> session_ok root fs0 (set_cwd p st)"
  by (simp add: session_ok_def set_cwd_def sockets_ok_def)

section \<open>Sockets\<close>

lemma close_socket_simps [simp]:
  "sv_fs (close_socket i st) = sv_fs st" "sv_session (close_socket i st) = sv_session st"
  "sv_next (close_socket i st) = sv_next st" "sv_counter (close_socket i st) = sv_counter st"
  "sv_events (close_socket i st) = sv_events st"
  by (simp_all add: close_socket_def split: option.split)

lemma close_data_empty: "sockets_ok st \<Longrightarrow> sv_sockets (close_socket (data_socket (sv_session st)) st) = []"
proof -
  assume s: "sockets_ok st"
  show ?thesis
  proof (cases "data_socket (sv_session st)")
    case None
    with s show ?thesis by (simp add: close_socket_def sockets_ok_def)
  next
    case (Some i)
    with s obtain p where "sv_sockets st = [(i, p)]" by (auto simp: sockets_ok_def map_eq_Cons_conv)
    with Some show ?thesis by (simp add: close_socket_def)
  qed
qed

lemma close_data_ok: "session_ok root fs0 st \<Longrightarrow> session_ok root fs0 (close_data_socket st)"
  using close_data_empty [of st] transfer_ok_close
  by (simp add: session_ok_def close_data_socket_def sockets_ok_def)

lemma close_data_simps: "sockets_ok st \<Longrightarrow> sv_sockets (close_data_socket st) = []"
  "data_socket (sv_session (close_data_socket st)) = None"
  using close_data_empty [of st] by (simp_all add: close_data_socket_def)

lemma open_data_ok:
  assumes "session_ok root fs0 st"
  shows "session_ok root fs0 (open_data lp h p mode (close_data_socket st))"
proof -
  have "sv_sockets (close_data_socket st) = []" using assms close_data_simps by (simp add: session_ok_def)
  moreover have "session_ok root fs0 (close_data_socket st)" by (rule close_data_ok [OF assms])
  ultimately show ?thesis by (simp add: session_ok_def open_data_def sockets_ok_def transfer_ok_def transferring_def)
qed

lemma cancel_ok:
  assumes "session_ok root fs0 st"
  shows "session_ok root fs0 (cancel_transfer st)"
proof -
  have "sockets_ok st" using assms by (simp add: session_ok_def)
  from close_data_empty [OF this] assms transfer_ok_close show ?thesis
    by (simp add: session_ok_def cancel_transfer_def cancel_def Let_def sockets_ok_def)
qed

lemma start_transfer_ok:
  assumes "session_ok root fs0 st"
  shows "session_ok root fs0 (fst (start_transfer m op arg st))"
proof (cases "data_host (sv_session st)")
  case None
  with assms have "data_socket (sv_session st) = None" by (auto simp: session_ok_def transfer_ok_def)
  with None assms show ?thesis by (simp add: start_transfer_def)
next
  case (Some h)
  then show ?thesis using assms
    by (simp add: start_transfer_def start_transfer_thread_def new_transfer_id_def Let_def session_ok_def
        sockets_ok_def transfer_ok_def transferring_def)
qed

section \<open>Commands keep the invariant\<close>

lemma logged_ok:
  assumes "session_ok root fs0 st" "is_logged_in (sv_session st) \<Longrightarrow> session_ok root fs0 (fst (f st))"
  shows "session_ok root fs0 (fst (logged st f))"
  using assms by (simp add: logged_def)

lemma upd_ok:
  assumes "session_ok root fs0 st" "transfer_ok (f (sv_session st))" "data_socket (f (sv_session st)) = data_socket (sv_session st)"
    "current_dir (f (sv_session st)) = current_dir (sv_session st)"
    "rename_from (f (sv_session st)) \<noteq> None \<longrightarrow> is_logged_in (f (sv_session st))"
  shows "session_ok root fs0 (upd f st)"
  using assms by (simp add: session_ok_def sockets_ok_def)

lemma session_okD:
  "session_ok root fs0 st \<Longrightarrow> transfer_ok (sv_session st)"
  "session_ok root fs0 st \<Longrightarrow> rename_from (sv_session st) \<noteq> None \<longrightarrow> is_logged_in (sv_session st)"
  "session_ok root fs0 st \<Longrightarrow> store_inv root fs0 (sv_fs st)"
  "session_ok root fs0 st \<Longrightarrow> links_outside root fs0"
  "session_ok root fs0 st \<Longrightarrow> slashless (cwd_of st)"
  by (auto simp: session_ok_def intro: inside_slashless)

lemma simple_cmds_ok:
  assumes "session_ok root fs0 st"
  shows "session_ok root fs0 (fst (user_cmd arg st))" "session_ok root fs0 (fst (quit_cmd arg st))"
    "session_ok root fs0 (fst (noop_cmd arg st))" "session_ok root fs0 (fst (type_cmd arg st))"
    "session_ok root fs0 (fst (mode_cmd arg st))" "session_ok root fs0 (fst (help_cmd arg st))"
    "session_ok root fs0 (fst (abor_cmd m arg st))"
  using assms upd_ok [OF assms] session_okD(1,2) [OF assms] upd_ok [OF cancel_ok [OF assms]] session_okD(1,2) [OF cancel_ok [OF assms]]
  by (auto simp: user_cmd_def quit_cmd_def noop_cmd_def type_cmd_def mode_cmd_def help_cmd_def abor_cmd_def
      logged_def Let_def split: option.split)

lemma password_ok: "session_ok root fs0 st \<Longrightarrow> session_ok root fs0 (fst (password_cmd arg st))"
  by (auto simp: password_cmd_def session_ok_def sockets_ok_def)

lemma query_cmds_ok:
  assumes "session_ok root fs0 st"
  shows "session_ok root fs0 (fst (pwd_cmd (Some root) arg st))" "session_ok root fs0 (fst (list_cmd (Some root) arg st))"
    "session_ok root fs0 (fst (nlst_cmd (Some root) arg st))" "session_ok root fs0 (fst (size_cmd (Some root) arg st))"
    "session_ok root fs0 (fst (mdtm_cmd (Some root) arg st))" "session_ok root fs0 (fst (stat_cmd (Some root) arg st))"
    "session_ok root fs0 (fst (hash_cmd (Some root) arg st))"
  using assms
  by (auto simp: pwd_cmd_def list_cmd_def nlst_cmd_def size_cmd_def mdtm_cmd_def stat_cmd_def hash_cmd_def
      intro!: logged_ok answer_ok query_ok)

lemma change_cmds_ok:
  assumes "session_ok root fs0 st"
  shows "session_ok root fs0 (fst (mkd_cmd (Some root) arg st))" "session_ok root fs0 (fst (rmd_cmd (Some root) arg st))"
    "session_ok root fs0 (fst (dele_cmd (Some root) arg st))"
  using assms session_okD [OF assms] svc_mkdir_keeps svc_rmdir_keeps svc_delete_keeps
  by (auto simp: mkd_cmd_def rmd_cmd_def dele_cmd_def intro!: logged_ok answer_ok)

lemma cwd_cmds_ok:
  assumes "session_ok root fs0 st"
  shows "session_ok root fs0 (fst (cwd_cmd (Some root) arg st))" "session_ok root fs0 (fst (cdup_cmd (Some root) arg st))"
  using assms change_directory_inside [OF assms] parent_directory_inside [OF assms]
  by (auto simp: cwd_cmd_def cdup_cmd_def query_def intro!: logged_ok answer_ok set_cwd_ok session_okD(3))

lemma rename_cmds_ok:
  assumes "session_ok root fs0 st"
  shows "session_ok root fs0 (fst (rnfr_cmd (Some root) arg st))" "session_ok root fs0 (fst (rnto_cmd (Some root) arg st))"
proof -
  show "session_ok root fs0 (fst (rnfr_cmd (Some root) arg st))"
  proof (cases "is_logged_in (sv_session st) \<and> arg \<noteq> []")
    case True
    obtain st1 r where c: "service_call (Some root) st (query (\<lambda>root fs. prepare_retrieve root fs (cwd_of st) arg)) = (st1, r)"
      by (metis prod.collapse)
    from service_call_state [OF c] have "st1 = st" by (auto simp: query_def)
    then show ?thesis using True c assms forget_ok [OF assms]
      by (auto simp: rnfr_cmd_def logged_def session_okD intro!: upd_ok split: sum.split)
  qed (use assms in \<open>auto simp: rnfr_cmd_def logged_def\<close>)
  show "session_ok root fs0 (fst (rnto_cmd (Some root) arg st))"
  proof (cases "is_logged_in (sv_session st) \<and> arg \<noteq> [] \<and> (\<exists>x xs. rename_from (sv_session st) = Some (x # xs))")
    case True
    then obtain x xs where rf: "rename_from (sv_session st) = Some (x # xs)" by blast
    obtain st1 r where c: "service_call (Some root) st (\<lambda>root fs. svc_rename root fs (cwd_of st) (x # xs) arg) = (st1, r)"
      by (metis prod.collapse)
    from service_call_state [OF c] svc_rename_keeps [OF session_okD(3,4,5) [OF assms]]
    have "session_ok root fs0 st1" using session_ok_fs [OF assms] by (metis fst_conv)
    from forget_ok [OF this] True rf c show ?thesis by (auto simp: rnto_cmd_def logged_def split: sum.split)
  next
    case False
    then show ?thesis using assms forget_ok [OF assms]
      by (auto simp: rnto_cmd_def logged_def neq_Nil_conv split: option.split)
  qed
qed

lemma data_cmds_ok:
  assumes "session_ok root fs0 st"
  shows "session_ok root fs0 (fst (port_cmd env arg st))" "session_ok root fs0 (fst (pasv_cmd env arg st))"
  using assms close_data_ok [OF assms] open_data_ok [OF assms]
  by (auto simp: port_cmd_def pasv_cmd_def Let_def intro!: logged_ok split: option.split sum.split exn.split prod.split)

lemma transfer_cmds_ok:
  assumes "session_ok root fs0 st"
  shows "session_ok root fs0 (fst (retr_cmd m arg st))" "session_ok root fs0 (fst (stor_cmd m arg st))"
    "session_ok root fs0 (fst (stou_cmd m arg st))" "session_ok root fs0 (fst (appe_cmd m arg st))"
  using assms start_transfer_ok [OF assms]
  by (auto simp: retr_cmd_def stor_cmd_def stou_cmd_def appe_cmd_def intro!: logged_ok)

lemma handle_ok:
  assumes "session_ok root fs0 st"
  shows "session_ok root fs0 (fst (handle (Some root) env c st))"
proof -
  define st1 where "st1 = (if rename_from (sv_session st) \<noteq> None \<and> cmd_name c \<noteq> ''RNTO'' then forget_rename st else st)"
  have s: "session_ok root fs0 st1" using assms forget_ok by (simp add: st1_def)
  note oks = simple_cmds_ok [OF s] password_ok [OF s] query_cmds_ok [OF s] change_cmds_ok [OF s] cwd_cmds_ok [OF s]
    rename_cmds_ok [OF s] data_cmds_ok [OF s] transfer_cmds_ok [OF s]
  show ?thesis unfolding handle_def Let_def st1_def [symmetric] using oks s by (simp split: if_split)
qed

end
