(* ===== verification/Connection.thy ===== *)
theory Connection
  imports Client_Handler Replies Handler_Properties
begin

text \<open>
  What holds of every control connection whatever the client sends, the network delivers and other
  sessions do: the session invariant, the matching of transfers and their replies, access control.
\<close>

section \<open>Transfers keep the tree's invariant\<close>

lemma resolve_inside:
  assumes "store_inv root fs0 fs" "slashless cwd" "resolve root fs cwd s = Inr p"
  shows "inside fs root p"
  using store_inv_resolve(2) [OF assms] .

lemma upload_keeps:
  assumes "store_inv root fs0 fs" "inside fs root p" "temps_ok env"
  shows "store_inv root fs0 (fst (snd (atomic_upload env fs p chunks ap)))"
proof -
  have root: "good_root fs root" using assms(1) by (simp add: store_inv_def)
  obtain tr fs' r where u: "atomic_upload env fs p chunks ap = (tr, fs', r)" by (metis prod_cases3)
  from step_ok_upload [OF root assms(2,3) u] store_inv_step [OF assms(1)] u show ?thesis by simp
qed

lemma svc_uploads_keep:
  assumes "store_inv root fs0 fs" "slashless cwd" "temps_ok env"
  shows "store_inv root fs0 (fst (snd (svc_store env root fs cwd s chunks)))"
    "store_inv root fs0 (fst (snd (svc_append env root fs cwd s chunks)))"
  using assms upload_keeps [OF assms(1) _ assms(3)] resolve_inside [OF assms(1,2)]
  by (auto simp: svc_store_def svc_append_def split: sum.split)

lemma unique_inside:
  assumes fs: "fs_wf fs" and d: "inside fs root d" "is_dir fs d" and f: "free_name fs d pre uuids = Some p"
    and pre: "slash \<notin> set pre" "\<forall>u\<in>set uuids. slash \<notin> set u"
  shows "inside fs root p"
  using f pre(2)
proof (induction uuids)
  case (Cons u us)
  show ?case
  proof (cases "path_lexists fs (unique_path d pre u)")
    case True
    with Cons show ?thesis by simp
  next
    case False
    then have p: "p = unique_path d pre u" using Cons.prems by simp
    have n: "name_ok (pre @ u @ ''.bin'')"
    proof -
      have "last (pre @ u @ ''.bin'') = CHR ''n''" by simp
      then have "pre @ u @ ''.bin'' \<noteq> ''.''" "pre @ u @ ''.bin'' \<noteq> ''..''" by fastforce+
      moreover have "slash \<notin> set ''.bin''" by (simp add: slash_def)
      ultimately show ?thesis using pre(1) Cons.prems(2) by (simp add: name_ok_def)
    qed
    have l: "locate fs p = Inr p" using follow_plain(1) [OF fs insideD(1) [OF d(1)]] d(2)
      by (auto simp: p unique_path_def locate_def is_dir_def split: option.splits)
    have "node fs p = None" using False l by (simp add: path_lexists_def p split: option.splits)
    then have "is_link fs p = None" by (simp add: is_link_def)
    then show ?thesis using d(1) n by (simp add: p unique_path_def inside_def plain_snoc)
  qed
qed simp


lemma svc_unique_keeps:
  assumes "store_inv root fs0 fs" "slashless cwd" "temps_ok env" "\<forall>u\<in>set uuids. slash \<notin> set u"
    and u: "svc_store_unique env uuids root fs cwd chunks ''upload_'' = Some r"
  shows "store_inv root fs0 (fst (snd r))"
proof (cases "resolve root fs cwd []")
  case (Inl e)
  with u assms(1) show ?thesis by (auto simp: svc_store_unique_def)
next
  case (Inr d)
  have root: "good_root fs root" using assms(1) by (simp add: store_inv_def)
  note d = resolve_inside [OF assms(1,2) Inr]
  show ?thesis
  proof (cases "path_isdir fs d")
    case False
    with u Inr assms(1) show ?thesis by (auto simp: svc_store_unique_def)
  next
    case True
    then have dir: "is_dir fs d" using isdir_plain [OF good_rootD(1) [OF root] insideD(1) [OF d]] by simp
    from u Inr True obtain p where p: "free_name fs d ''upload_'' uuids = Some p" "r = atomic_upload env fs p chunks False"
      by (auto simp: svc_store_unique_def)
    have "slash \<notin> set ''upload_''" by (simp add: slash_def)
    from unique_inside [OF good_rootD(1) [OF root] d dir p(1) this assms(4)] upload_keeps [OF assms(1) _ assms(3)] p(2)
    show ?thesis by simp
  qed
qed

text \<open>The random names of temporary files and of STOU have no slash.\<close>

definition world_ok :: "world \<Rightarrow> bool" where
  "world_ok wd \<longleftrightarrow> temps_ok (wl_uploads wd) \<and> list_all (\<lambda>u. slash \<notin> set u) (wl_uuids wd)"

lemma target_slashless: "slashless p \<Longrightarrow> slashless (fst (transfer_target fs p s))"
  using realpath_names_ok [of p fs] by (simp add: transfer_target_def Let_def names_ok_slashless)

lemma run_operation_keeps:
  assumes "store_inv root fs0 fs" "slashless (ta_cwd a)" "world_ok wd" "run_operation wd root fs w a = Some (fs', r)"
  shows "store_inv root fs0 fs'"
proof -
  have w: "temps_ok (wl_uploads wd)" "\<forall>u\<in>set (wl_uuids wd). slash \<notin> set u"
    using assms(3) by (simp_all add: world_ok_def list_all_iff)
  obtain cwd path where t: "transfer_target fs (ta_cwd a) (file_argument w) = (cwd, path)"
    by (cases "transfer_target fs (ta_cwd a) (file_argument w)")
  have sl: "slashless cwd" using target_slashless [OF assms(2), of fs "file_argument w"] t by simp
  note keep = svc_uploads_keep [OF assms(1) sl w(1)] svc_unique_keeps [OF assms(1,2) w]
  let ?ch = "\<lambda>src. decode_chunks src (args_mode a) (args_type a)"
  show ?thesis
  proof (cases "w_operation w")
    case RETR
    with assms(1,4) show ?thesis by (auto simp: run_operation_def)
  next
    case STOR
    with assms(4) t obtain src where "fs' = fst (snd (svc_store (wl_uploads wd) root fs cwd path (?ch src)))"
      by (auto simp: run_operation_def upload_def finished_def)
    with keep(1) show ?thesis by metis
  next
    case STOU
    with assms(4) obtain src x where "svc_store_unique (wl_uploads wd) (wl_uuids wd) root fs (ta_cwd a) (?ch src) ''upload_'' = Some x"
      "fs' = fst (snd x)"
      by (auto simp: run_operation_def upload_unique_def finished_def split: option.splits)
    with keep(3) show ?thesis by metis
  next
    case APPE
    with assms(4) t obtain src where "fs' = fst (snd (svc_append (wl_uploads wd) root fs cwd path (?ch src)))"
      by (auto simp: run_operation_def append_upload_def finished_def)
    with keep(2) show ?thesis by metis
  qed
qed

section \<open>The connection invariant\<close>

definition args_ok :: "path \<Rightarrow> file_system \<Rightarrow> session \<Rightarrow> bool" where
  "args_ok root fs0 s \<longleftrightarrow>
     (\<forall>w a. transfer_worker s = Some w \<longrightarrow> w_phase w = Running a \<longrightarrow> inside fs0 root (ta_cwd a))"

text \<open>The reports that have been sent, the announcements of transfers sent or about to be.\<close>

definition reports :: "connection \<Rightarrow> nat" where
  "reports c = length (filter (\<lambda>(who, r). who = Transfers) (cn_sent c))"

definition announcements :: "connection \<Rightarrow> nat" where
  "announcements c = length (filter (\<lambda>(who, r). who = Commands \<and> announces r) (cn_sent c))
     + (case cn_phase c of Answering r quit \<Rightarrow> (if announces r then 1 else 0) | _ \<Rightarrow> 0)"

definition pending :: "connection \<Rightarrow> nat" where
  "pending c = (if worker_alive (sv_session (cn_state c)) then 1 else 0)"

definition answers_ok :: "connection \<Rightarrow> bool" where
  "answers_ok c \<longleftrightarrow> (\<forall>(who, r)\<in>set (cn_sent c). who = Commands \<longrightarrow> reply_ok r)
     \<and> (\<forall>r quit. cn_phase c = Answering r quit \<longrightarrow> reply_ok r)"

definition conn_ok :: "path \<Rightarrow> file_system \<Rightarrow> connection \<Rightarrow> bool" where
  "conn_ok root fs0 c \<longleftrightarrow>
     session_ok root fs0 (cn_state c) \<and> args_ok root fs0 (sv_session (cn_state c)) \<and> answers_ok c
     \<and> (cn_open c \<longrightarrow> reports c + pending c = announcements c)
     \<and> (cn_phase c = Closed \<longrightarrow> sv_sockets (cn_state c) = [] \<and> transfer_worker (sv_session (cn_state c)) = None)"

text \<open>The steps of the worker keep the session's invariant.\<close>

lemma begin_worker_ok:
  assumes "session_ok root fs0 st" "begin_worker st = Some st'"
  shows "session_ok root fs0 st'" "args_ok root fs0 (sv_session st')"
    "worker_alive (sv_session st') = worker_alive (sv_session st)" "transfer_worker (sv_session st) \<noteq> None"
  using assms
  by (auto simp: begin_worker_def begin_transfer_def event_for_def session_ok_def sockets_ok_def transfer_ok_def
      transferring_def args_ok_def worker_alive_def split: option.splits if_splits)

lemma finish_worker_ok:
  assumes s: "session_ok root fs0 st" and a: "args_ok root fs0 (sv_session st)" and wd: "world_ok wd"
    and f: "finish_worker wd root st = Some st'"
  shows "session_ok root fs0 st'" "args_ok root fs0 (sv_session st')"
    "worker_alive (sv_session st') = worker_alive (sv_session st)" "transfer_worker (sv_session st) \<noteq> None"
proof -
  from f obtain w a1 fs' r where w: "transfer_worker (sv_session st) = Some w" "w_phase w = Running a1"
    "run_operation wd root (sv_fs st) w a1 = Some (fs', r)"
    and st': "st' = (close_socket (data_socket (sv_session st)) st)\<lparr>sv_fs := fs',
       sv_session := (finish (ta_event a1) (sv_session st))\<lparr>transfer_worker := Some (w\<lparr>w_phase := Reporting (report_text r)\<rparr>)\<rparr>\<rparr>"
    by (auto simp: finish_worker_def split: option.splits worker_phase.splits)
  have "slashless (ta_cwd a1)" using a w(1,2) inside_slashless by (auto simp: args_ok_def)
  from run_operation_keeps [OF session_okD(3) [OF s] this wd w(3)] have "store_inv root fs0 fs'" .
  moreover have "sv_sockets (close_socket (data_socket (sv_session st)) st) = []"
    using s close_data_empty by (simp add: session_ok_def)
  ultimately show "session_ok root fs0 st'" using s w
    by (simp add: st' session_ok_def finish_def transfer_ok_def transferring_def sockets_ok_def)
  show "args_ok root fs0 (sv_session st')" "worker_alive (sv_session st') = worker_alive (sv_session st)"
    "transfer_worker (sv_session st) \<noteq> None"
    using w by (simp_all add: st' args_ok_def worker_alive_def)
qed

lemma cleanup_state_ok:
  assumes "session_ok root fs0 st"
  shows "session_ok root fs0 (cleanup_state st)" "sv_sockets (cleanup_state st) = []"
    "transfer_worker (sv_session (cleanup_state st)) = None"
proof -
  note c = close_data_ok [OF cancel_ok [OF assms]]
  have "sockets_ok (cancel_transfer st)" using cancel_ok [OF assms] by (simp add: session_ok_def)
  note e = close_data_simps(1) [OF this] close_data_simps(2) [of "cancel_transfer st"]
  from c e show "session_ok root fs0 (cleanup_state st)" "sv_sockets (cleanup_state st) = []"
    "transfer_worker (sv_session (cleanup_state st)) = None"
    by (simp_all add: cleanup_state_def Let_def session_ok_def transfer_ok_def transferring_def sockets_ok_def)
qed

lemma report_worker_ok:
  assumes s: "session_ok root fs0 (cn_state c)" and r: "report_worker c = Some c'"
  shows "session_ok root fs0 (cn_state c')" "args_ok root fs0 (sv_session (cn_state c'))"
    "cn_phase c' = cn_phase c" "cn_open c' = cn_open c" "pending c = 1" "pending c' = 0"
    "\<exists>x. cn_sent c' = cn_sent c @ (if cn_open c then [(Transfers, x)] else [])"
    "transfer_worker (sv_session (cn_state c)) \<noteq> None"
proof -
  from r obtain w x where w: "transfer_worker (sv_session (cn_state c)) = Some w" "w_phase w = Reporting x"
    and c': "c' = (send_text Transfers x c)\<lparr>cn_state := upd (\<lambda>s. s\<lparr>transfer_worker := Some (w\<lparr>w_phase := Ended\<rparr>)\<rparr>) (cn_state c)\<rparr>"
    by (auto simp: report_worker_def split: option.splits worker_phase.splits)
  show "session_ok root fs0 (cn_state c')" using s w
    by (simp add: c' session_ok_def transfer_ok_def transferring_def sockets_ok_def)
  show "args_ok root fs0 (sv_session (cn_state c'))" "cn_phase c' = cn_phase c" "cn_open c' = cn_open c"
    "pending c = 1" "pending c' = 0" "transfer_worker (sv_session (cn_state c)) \<noteq> None"
    "\<exists>x. cn_sent c' = cn_sent c @ (if cn_open c then [(Transfers, x)] else [])"
    using w by (auto simp: c' args_ok_def send_text_def pending_def worker_alive_def)
qed

text \<open>A command: the answer that is due announces a transfer exactly if it has started a worker.\<close>

lemma reply_500: "reply_ok syntax_error" "reply_ok internal_error" "\<not> announces syntax_error" "\<not> announces internal_error"
proof -
  have "head_ok ''500 Syntax error, command unrecognized''" "head_ok ''500 Internal server error''"
    by (simp_all add: literal)
  from head_reply [OF this(1)] head_reply [OF this(2)]
  show "reply_ok syntax_error" "reply_ok internal_error" "\<not> announces syntax_error" "\<not> announces internal_error"
    unfolding syntax_error_def internal_error_def by simp_all
qed

lemma handle_line_ok:
  assumes c: "conn_ok root fs0 c" and ph: "cn_phase c = Reading" and h: "handle_line root env line c = Some c'"
  shows "conn_ok root fs0 c'"
proof (cases "decode_line line")
  case (Plain raw)
  obtain st r where hd: "handle (Some root) env (parse raw) (cn_state c) = (st, r)"
    by (cases "handle (Some root) env (parse raw) (cn_state c)")
  have s: "session_ok root fs0 st" using handle_ok [of root fs0 "cn_state c" env "parse raw"] c hd by (simp add: conn_ok_def)
  define resp quit where "resp = (case r of Inl e \<Rightarrow> internal_error | Inr x \<Rightarrow> x)"
    and "quit = (case r of Inl e \<Rightarrow> False | Inr x \<Rightarrow> cmd_name (parse raw) = ''QUIT'')"
  have c': "c' = c\<lparr>cn_state := st, cn_phase := Answering resp quit\<rparr>"
    using h Plain hd by (cases r) (simp_all add: handle_line_def Let_def resp_def quit_def)
  from handle_answers [of "cn_state c" root env "parse raw"]
  consider (plain) "plain_answer (cn_state c) (st, r)" | (starts) "starts_transfer (cn_state c) (st, r)" unfolding hd by blast
  then show ?thesis
  proof cases
    case plain
    then have w: "transfer_worker (sv_session st) = transfer_worker (sv_session (cn_state c))" and "reply_ok resp \<and> \<not> announces resp"
      using reply_500 by (auto simp: plain_answer_def resp_def split: sum.split)
    then show ?thesis using c ph s
      by (auto simp: c' conn_ok_def args_ok_def answers_ok_def reports_def announcements_def pending_def worker_alive_def)
  next
    case starts
    then obtain w x where w: "transfer_worker (sv_session st) = Some w" "w_phase w = Started" "r = Inr x" "reply_ok x" "announces x"
      "\<not> worker_alive (sv_session (cn_state c))"
      by (auto simp: starts_transfer_def transfer_in_progress_def)
    then have "pending c = 0" "pending c' = 1" "args_ok root fs0 (sv_session st)" "resp = x"
      by (simp_all add: pending_def c' worker_alive_def args_ok_def resp_def)
    then show ?thesis using c ph s w
      by (auto simp: c' conn_ok_def answers_ok_def reports_def announcements_def)
  qed
next
  case Undecodable
  then show ?thesis using h c ph reply_500
    by (auto simp: handle_line_def conn_ok_def answers_ok_def reports_def announcements_def pending_def)
next
  case Beyond
  then show ?thesis using h by (simp add: handle_line_def)
qed

lemma send_simps [simp]:
  "cn_state (send_text who r c) = cn_state c" "cn_phase (send_text who r c) = cn_phase c" "cn_open (send_text who r c) = cn_open c"
  "cn_buffer (send_text who r c) = cn_buffer c"
  "cn_sent (send_text who r c) = cn_sent c @ (if cn_open c then [(who, r)] else [])"
  by (simp_all add: send_text_def)

lemma conn_ok_state:
  assumes "conn_ok root fs0 c" "session_ok root fs0 st" "args_ok root fs0 (sv_session st)"
    and "worker_alive (sv_session st) = worker_alive (sv_session (cn_state c))" "transfer_worker (sv_session (cn_state c)) \<noteq> None"
  shows "conn_ok root fs0 (c\<lparr>cn_state := st\<rparr>)"
  using assms by (simp add: conn_ok_def answers_ok_def reports_def announcements_def pending_def)

lemma handler_step_ok:
  assumes "handler_step root world_ok c c'" "conn_ok root fs0 c"
  shows "conn_ok root fs0 c'"
  using assms
proof (cases rule: handler_step.cases)
  case Greet
  have "head_ok ''220 Hybrid FTP Server Ready''" by (simp add: literal)
  from head_reply [OF this] have "reply_ok READY" "\<not> announces READY" unfolding READY_def by simp_all
  with Greet assms(2) show ?thesis
    by (auto simp: conn_ok_def answers_ok_def reports_def announcements_def pending_def)
next
  case (Line line rest env)
  have "conn_ok root fs0 (c\<lparr>cn_buffer := rest\<rparr>)" using assms(2)
    by (simp add: conn_ok_def answers_ok_def reports_def announcements_def pending_def)
  from handle_line_ok [OF this _ Line(3)] Line(1) show ?thesis by simp
next
  case (Answer response quit)
  have "response \<noteq> []" using Answer assms(2) by (auto simp: conn_ok_def answers_ok_def reply_ok_def)
  with Answer assms(2) show ?thesis
    by (auto simp: answer_line_def conn_ok_def answers_ok_def reports_def announcements_def pending_def)
next
  case (Begin st)
  from assms(2) have "session_ok root fs0 (cn_state c)" by (simp add: conn_ok_def)
  from conn_ok_state [OF assms(2) begin_worker_ok [OF this Begin(2)]] show ?thesis by (simp add: Begin(1))
next
  case (Finish wd st)
  from assms(2) have "session_ok root fs0 (cn_state c)" "args_ok root fs0 (sv_session (cn_state c))" by (simp_all add: conn_ok_def)
  from conn_ok_state [OF assms(2) finish_worker_ok [OF this Finish(2,3)]] show ?thesis by (simp add: Finish(1))
next
  case Report
  from assms(2) have "session_ok root fs0 (cn_state c)" by (simp add: conn_ok_def)
  note b = report_worker_ok [OF this Report]
  obtain x where x: "cn_sent c' = cn_sent c @ (if cn_open c then [(Transfers, x)] else [])" using b(7) by blast
  have "reports c' = reports c + (if cn_open c then 1 else 0)" "announcements c' = announcements c"
    by (simp_all add: reports_def announcements_def x b(3))
  moreover have "answers_ok c'" using assms(2) by (auto simp: conn_ok_def answers_ok_def x b(3))
  ultimately show ?thesis using b(1-6,8) assms(2) by (auto simp: conn_ok_def)
next
  case Cleanup
  have "session_ok root fs0 (cn_state c)" using assms(2) by (simp add: conn_ok_def)
  from cleanup_state_ok [OF this] Cleanup assms(2) show ?thesis
    by (simp add: cleanup_def conn_ok_def args_ok_def answers_ok_def)
qed (use assms(2) in \<open>simp_all add: conn_ok_def answers_ok_def reports_def announcements_def pending_def\<close>)

lemma conn_step_ok:
  assumes "conn_step root (store_inv root fs0) world_ok c c'" "conn_ok root fs0 c"
  shows "conn_ok root fs0 c'"
  using assms
proof (cases rule: conn_step.cases)
  case Own
  then show ?thesis using handler_step_ok assms(2) by blast
next
  case (Others fs counter)
  then show ?thesis using assms(2)
    by (simp add: conn_ok_def session_ok_def sockets_ok_def answers_ok_def reports_def announcements_def pending_def)
next
  case Stop
  have "session_ok root fs0 (cn_state c)" using assms(2) by (simp add: conn_ok_def)
  from cleanup_state_ok [OF this] Stop assms(2) show ?thesis
    by (simp add: cleanup_def conn_ok_def args_ok_def answers_ok_def)
qed

lemma conn_reach_ok:
  "conn_reach root (store_inv root fs0) world_ok c0 c \<Longrightarrow> conn_ok root fs0 c0 \<Longrightarrow> conn_ok root fs0 c"
  by (induction rule: conn_reach.induct) (auto intro: conn_step_ok)

lemma new_connection_ok:
  assumes "store_inv root fs0 fs" "links_outside root fs0"
  shows "conn_ok root fs0 (new_connection fs n root sid peer server)"
proof -
  have g: "good_root fs root" and l: "is_link fs = is_link fs0" using assms(1) by (simp_all add: store_inv_def)
  have "inside fs root root" using g by (simp add: good_root_def inside_def)
  then have "inside fs0 root root" using inside_cong [OF l] by simp
  with assms show ?thesis
    by (simp add: conn_ok_def new_connection_def new_session_def session_ok_def transfer_ok_def transferring_def sockets_ok_def
        args_ok_def answers_ok_def reports_def announcements_def pending_def worker_alive_def)
qed

section \<open>Executed runs\<close>

text \<open>Steps chosen by an action, for runs that are computed.\<close>

datatype action = DoGreet | DoReceive bytes | DoLine cmd_env | DoAnswer | DoBegin | DoFinish world | DoReport | DoHangUp | DoCleanup

fun perform :: "path \<Rightarrow> action \<Rightarrow> connection \<Rightarrow> connection option" where
  "perform root DoGreet c = (if cn_phase c = Starting then Some ((send_text Commands READY c)\<lparr>cn_phase := Reading\<rparr>) else None)"
| "perform root (DoReceive data) c =
     (if cn_phase c = Reading \<and> cn_open c \<and> split_crlf (cn_buffer c) = None \<and> data \<noteq> [] \<and> length data \<le> 1024
      then Some (c\<lparr>cn_buffer := cn_buffer c @ data\<rparr>) else None)"
| "perform root (DoLine env) c =
     (if cn_phase c \<noteq> Reading then None
      else case split_crlf (cn_buffer c) of
             None \<Rightarrow> None
           | Some (line, rest) \<Rightarrow> handle_line root env line (c\<lparr>cn_buffer := rest\<rparr>))"
| "perform root DoAnswer c = (case cn_phase c of Answering response quit \<Rightarrow> Some (answer_line response quit c) | _ \<Rightarrow> None)"
| "perform root DoBegin c = map_option (\<lambda>st. c\<lparr>cn_state := st\<rparr>) (begin_worker (cn_state c))"
| "perform root (DoFinish wd) c =
     (if world_ok wd then map_option (\<lambda>st. c\<lparr>cn_state := st\<rparr>) (finish_worker wd root (cn_state c)) else None)"
| "perform root DoReport c = report_worker c"
| "perform root DoHangUp c =
     (if cn_phase c = Reading \<and> split_crlf (cn_buffer c) = None then Some (c\<lparr>cn_phase := Closing\<rparr>) else None)"
| "perform root DoCleanup c = (if cn_phase c = Closing then Some ((cleanup c)\<lparr>cn_phase := Closed\<rparr>) else None)"

fun perform_all :: "path \<Rightarrow> action list \<Rightarrow> connection \<Rightarrow> connection option" where
  "perform_all root [] c = Some c"
| "perform_all root (a # as) c = (case perform root a c of None \<Rightarrow> None | Some c' \<Rightarrow> perform_all root as c')"

lemma perform_handler: "perform root a c = Some c' \<Longrightarrow> handler_step root world_ok c c'"
  by (cases a) (auto split: if_splits option.splits handler_phase.splits intro: handler_step.intros)

lemma perform_step: "perform root a c = Some c' \<Longrightarrow> conn_step root tree_ok world_ok c c'"
  by (rule conn_step.Own [OF perform_handler])

lemma perform_reach:
  "perform_all root as c = Some c' \<Longrightarrow> conn_reach root tree_ok world_ok c0 c \<Longrightarrow> conn_reach root tree_ok world_ok c0 c'"
proof (induction as arbitrary: c)
  case (Cons a as)
  then obtain c1 where c1: "perform root a c = Some c1" "perform_all root as c1 = Some c'" by (auto split: option.splits)
  show ?case by (rule Cons.IH [OF c1(2) conn_reach.step [OF Cons.prems(2) perform_step [OF c1(1)]]])
qed simp

definition sample_connection :: connection where
  "sample_connection = new_connection clean_tree 1 sample_root ''S000001'' (Some ''127.0.0.1'') (Some ''127.0.0.1'')"

definition sample_cmd_env :: cmd_env where
  "sample_cmd_env = \<lparr>ce_port = Inr 40000, ce_own_address = None\<rparr>"

definition sample_world :: world where
  "sample_world = \<lparr>wl_uploads = sample_env, wl_uuids = [''u''], wl_host_of = (\<lambda>h. h), wl_before = clean_tree, wl_probes = [], wl_data = []\<rparr>"

text \<open>The client logs in and asks for a file that does not exist; the worker is faster than the handler.\<close>

definition sample_actions :: "action list" where
  "sample_actions =
     [DoGreet, DoReceive (encode_text (''USER a'' @ crlf @ ''PASS b'' @ crlf @ ''PASV'' @ crlf @ ''RETR zz'' @ crlf)),
      DoLine sample_cmd_env, DoAnswer, DoLine sample_cmd_env, DoAnswer, DoLine sample_cmd_env, DoAnswer,
      DoLine sample_cmd_env, DoBegin, DoFinish sample_world, DoReport, DoAnswer]"

lemma sample_dialogue:
  "(case perform_all sample_root sample_actions sample_connection of
      None \<Rightarrow> False
    | Some c \<Rightarrow> cn_open c \<and> reports c = 1 \<and> pending c = 0 \<and> map fst (cn_sent c) = [Commands, Commands, Commands, Commands, Transfers, Commands]
        \<and> drop 4 (map snd (cn_sent c)) =
          [''550 Path not found.'' @ crlf, ''150 Opening data connection; transfer_id=T000001'' @ crlf])"
  by code_simp

text \<open>
  A worker is started before the handler returns the 150 reply, and both threads write to the socket.
  A transfer that fails at once is reported before it is announced: the client takes the report for
  the answer to its command and the announcement for the answer to its next one.
\<close>

lemma report_before_announcement:
  "\<exists>c. conn_reach sample_root tree_ok world_ok sample_connection c \<and>
     drop 4 (map snd (cn_sent c)) =
       [''550 Path not found.'' @ crlf, ''150 Opening data connection; transfer_id=T000001'' @ crlf]"
proof -
  obtain c where c: "perform_all sample_root sample_actions sample_connection = Some c"
    "drop 4 (map snd (cn_sent c)) =
       [''550 Path not found.'' @ crlf, ''150 Opening data connection; transfer_id=T000001'' @ crlf]"
    using sample_dialogue by (auto split: option.splits)
  from perform_reach [OF c(1) conn_reach.start] c(2) show ?thesis by blast
qed

section \<open>Access control\<close>

text \<open>The parts of the state a client that is not logged in cannot change.\<close>

definition only_login :: "server_state \<Rightarrow> server_state \<Rightarrow> bool" where
  "only_login st st' \<longleftrightarrow> st'\<lparr>sv_session := sv_session st\<rparr> = st
     \<and> (sv_session st')\<lparr>username := username (sv_session st), is_logged_in := is_logged_in (sv_session st),
          rename_from := rename_from (sv_session st)\<rparr> = sv_session st"

lemma record_same: "st\<lparr>sv_session := sv_session st\<rparr> = (st :: server_state)"
  "s\<lparr>username := username s, is_logged_in := is_logged_in s, rename_from := rename_from s\<rparr> = (s :: session)"
  by (cases st, simp) (cases s, simp)

lemma only_loginI [intro]:
  "only_login st st" "only_login st (fst (say m st))" "only_login st (st\<lparr>sv_session := (sv_session st)\<lparr>rename_from := rf\<rparr>\<rparr>)"
  by (simp_all add: only_login_def say_def record_same)

lemma logged_out: "\<not> is_logged_in (sv_session st) \<Longrightarrow> logged st f = say ''530 Not logged in'' st"
  by (simp add: logged_def)

lemmas logged_cmds = type_cmd_def mode_cmd_def pwd_cmd_def cwd_cmd_def cdup_cmd_def mkd_cmd_def rmd_cmd_def dele_cmd_def
  rnfr_cmd_def rnto_cmd_def list_cmd_def nlst_cmd_def size_cmd_def mdtm_cmd_def stat_cmd_def hash_cmd_def port_cmd_def
  pasv_cmd_def retr_cmd_def stor_cmd_def stou_cmd_def appe_cmd_def abor_cmd_def

text \<open>What a command gives without a login.\<close>

definition denied :: "server_state \<Rightarrow> response \<Rightarrow> bool" where
  "denied st r \<longleftrightarrow> only_login st (fst r) \<and> \<not> is_logged_in (sv_session (fst r))"

lemma denied_logged:
  "\<not> is_logged_in (sv_session st) \<Longrightarrow> denied st (logged st f)"
  "\<not> is_logged_in (sv_session st) \<Longrightarrow> denied st (if arg \<noteq> [] then say m st else logged st f)"
  "\<not> is_logged_in (sv_session st) \<Longrightarrow> denied st (say m st)"
  by (simp_all add: denied_def logged_out only_loginI)

lemma denied_simple:
  assumes "\<not> is_logged_in (sv_session st)"
  shows "denied st (user_cmd arg st)" "denied st (quit_cmd arg st)" "denied st (noop_cmd arg st)" "denied st (help_cmd arg st)"
    "denied st (st, Inr NOT_IMPLEMENTED)"
  using assms
  by (auto simp: denied_def user_cmd_def quit_cmd_def noop_cmd_def help_cmd_def only_login_def upd_def say_def record_same
      split: option.split)

lemma denied_password:
  assumes "\<not> is_logged_in (sv_session st)"
  shows "only_login st (fst (password_cmd arg st))"
    "is_logged_in (sv_session (fst (password_cmd arg st))) \<Longrightarrow> arg \<noteq> [] \<and> username (sv_session st) \<noteq> None"
  using assms
  by (auto simp: password_cmd_def only_login_def upd_def say_def record_same split: if_splits)

lemma login_denied:
  assumes "\<not> is_logged_in (sv_session st)"
  shows "denied st (handle m env c st) \<or>
    (cmd_name c = ''PASS'' \<and> cmd_argument c \<noteq> [] \<and> username (sv_session st) \<noteq> None \<and> only_login st (fst (handle m env c st)))"
proof -
  define st1 where "st1 = (if rename_from (sv_session st) \<noteq> None \<and> cmd_name c \<noteq> ''RNTO'' then forget_rename st else st)"
  have out: "\<not> is_logged_in (sv_session st1)" "username (sv_session st1) = username (sv_session st)" using assms by (simp_all add: st1_def)
  have base: "only_login st1 st' \<Longrightarrow> only_login st st'" for st'
    by (cases st; cases st'; cases "sv_session st"; cases "sv_session st'")
      (auto simp: only_login_def st1_def forget_rename_def upd_def split: if_splits)
  define Q where "Q r \<longleftrightarrow> denied st1 r" for r
  have i: "Q a \<Longrightarrow> Q b \<Longrightarrow> Q (if b1 then a else b)" for a b b1 by simp
  show ?thesis
  proof (cases "cmd_name c = ''PASS''")
    case True
    then have h: "handle m env c st = password_cmd (cmd_argument c) st1"
      by (simp add: handle_def Let_def st1_def)
    note p = denied_password [OF out(1), of "cmd_argument c"]
    show ?thesis unfolding h using p out(2) True base by (auto simp: denied_def)
  next
    case False
    have "Q (handle m env c st)"
      unfolding handle_def Let_def st1_def [symmetric] logged_cmds
      by (simp only: False if_False)
        (intro i; simp only: Q_def logged_out [OF out(1)] denied_logged [OF out(1)] denied_simple [OF out(1)] cong: if_cong)
    then show ?thesis using base by (auto simp: Q_def denied_def)
  qed
qed

section \<open>Properties\<close>

text \<open>C34: Whatever a client sends and however its transfers, the network and other sessions interleave, the
  session stays in order: its working directory is a canonical path inside the FTP root, the tree is well
  formed and unchanged outside the root, a rename is pending only for a logged-in user, the only open data
  socket is the session's, a transfer is registered exactly while one runs, and a closed connection holds nothing.\<close>

theorem connection_invariant:
  assumes "good_root fs root" "loop_free fs" "links_outside root fs"
    and "conn_reach root (store_inv root fs) world_ok (new_connection fs n root sid peer server) c"
  shows "(let st = cn_state c; s = sv_session st in
      prefix root (current_dir s) \<and> realpath (sv_fs st) (current_dir s) = current_dir s
      \<and> fs_wf (sv_fs st) \<and> is_dir (sv_fs st) root \<and> (\<forall>q. \<not> prefix root q \<longrightarrow> node (sv_fs st) q = node fs q)
      \<and> (rename_from s \<noteq> None \<longrightarrow> is_logged_in s)
      \<and> map fst (sv_sockets st) = (case data_socket s of None \<Rightarrow> [] | Some i \<Rightarrow> [i])
      \<and> (current_transfer s \<noteq> None \<longleftrightarrow> transferring s)
      \<and> (cn_phase c = Closed \<longrightarrow> sv_sockets st = [] \<and> current_transfer s = None))"
proof -
  have "store_inv root fs fs" using assms(1,2) by (simp add: store_inv_def)
  from conn_reach_ok [OF assms(4) new_connection_ok [OF this assms(3)]]
  have c: "conn_ok root fs c" .
  let ?st = "cn_state c" and ?s = "sv_session (cn_state c)"
  from c have inv: "store_inv root fs (sv_fs ?st)" and cwd: "inside fs root (current_dir ?s)" by (simp_all add: conn_ok_def session_ok_def)
  then have l: "inside (sv_fs ?st) root (current_dir ?s)" using inside_cong [of "sv_fs ?st" fs] by (simp add: store_inv_def)
  from c have t: "current_transfer ?s \<noteq> None \<longleftrightarrow> transferring ?s" by (auto simp: conn_ok_def session_ok_def transfer_ok_def)
  have z: "cn_phase c = Closed \<longrightarrow> sv_sockets ?st = [] \<and> current_transfer ?s = None"
    using c t by (auto simp: conn_ok_def transferring_def simp del: not_None_eq)
  show ?thesis using c inv insideD(3) [OF l] realpath_plain [OF insideD(1) [OF l]] t z
    unfolding Let_def conn_ok_def session_ok_def sockets_ok_def store_inv_def good_root_def same_outside_def by blast
qed

lemma clean_links: "links_outside sample_root clean_tree"
  unfolding links_outside_def
proof (intro allI impI)
  fix q
  have "list_all (\<lambda>p. is_link clean_tree p = None) (map fst (nodes clean_tree))" by code_simp
  moreover have "q \<notin> set (map fst (nodes clean_tree)) \<Longrightarrow> is_link clean_tree q = None"
    by (simp add: is_link_def node_def map_of_eq_None_iff [THEN iffD2])
  ultimately show "is_link clean_tree q = None" by (cases "q \<in> set (map fst (nodes clean_tree))") (simp_all only: list_all_iff not_False_eq_True)
qed

theorem connection_invariant_witness:
  "case perform_all sample_root (sample_actions @ [DoHangUp, DoCleanup]) sample_connection of
     None \<Rightarrow> False
   | Some c \<Rightarrow> cn_phase c = Closed \<and> sv_sockets (cn_state c) = [] \<and> fs_wf (sv_fs (cn_state c))"
proof -
  have v: "case perform_all sample_root (sample_actions @ [DoHangUp, DoCleanup]) sample_connection of
     None \<Rightarrow> False | Some c \<Rightarrow> cn_phase c = Closed" by code_simp
  then obtain c where c: "perform_all sample_root (sample_actions @ [DoHangUp, DoCleanup]) sample_connection = Some c" "cn_phase c = Closed"
    by (auto split: option.splits)
  from connection_invariant [OF clean_good clean_loop_free clean_links perform_reach [OF c(1) conn_reach.start, unfolded sample_connection_def]] c
  show ?thesis by (simp add: Let_def)
qed

text \<open>C35: While the connection is open, every transfer that was announced with 150 is reported exactly once:
  the reports sent and the transfer still running are as many as the announcements, so at most one runs. Every
  reply to a command is a three-digit code and ends with CRLF.\<close>

theorem transfers_reported:
  assumes "good_root fs root" "loop_free fs" "links_outside root fs"
    and "conn_reach root (store_inv root fs) world_ok (new_connection fs n root sid peer server) c" "cn_open c"
  shows "reports c + pending c = announcements c \<and> pending c \<le> 1
    \<and> list_all (\<lambda>(who, r). who = Commands \<longrightarrow> reply_ok r) (cn_sent c)"
proof -
  have "store_inv root fs fs" using assms(1,2) by (simp add: store_inv_def)
  from conn_reach_ok [OF assms(4) new_connection_ok [OF this assms(3)]] assms(5)
  show ?thesis by (auto simp: conn_ok_def answers_ok_def pending_def list_all_iff)
qed

theorem transfers_reported_witness:
  "case perform_all sample_root (take 10 sample_actions) sample_connection of
     None \<Rightarrow> False
   | Some c \<Rightarrow> pending c = 1 \<and> reports c = 0 \<and> reports c + pending c = announcements c"
proof -
  have v: "case perform_all sample_root (take 10 sample_actions) sample_connection of
     None \<Rightarrow> False | Some c \<Rightarrow> cn_open c \<and> pending c = 1 \<and> reports c = 0" by code_simp
  then obtain c where c: "perform_all sample_root (take 10 sample_actions) sample_connection = Some c"
    "cn_open c" "pending c = 1" "reports c = 0"
    by (auto split: option.splits)
  from transfers_reported [OF clean_good clean_loop_free clean_links
      perform_reach [OF c(1) conn_reach.start, unfolded sample_connection_def] c(2)] c
  show ?thesis by simp
qed

text \<open>C36: A client that is not logged in changes nothing but its login: whatever the command, the tree, the
  sockets, the transfer counter, the working directory, the data channel and the worker stay as they are, and
  the login flag is set only by PASS with an argument after an accepted USER.\<close>

theorem login_required:
  assumes "\<not> is_logged_in (sv_session st)"
  shows "only_login st (fst (handle m env c st))
    \<and> (is_logged_in (sv_session (fst (handle m env c st))) \<longrightarrow>
        cmd_name c = ''PASS'' \<and> cmd_argument c \<noteq> [] \<and> username (sv_session st) \<noteq> None)"
  using login_denied [OF assms, of m env c] by (auto simp: denied_def)

theorem login_required_witness:
  "only_login (cn_state sample_connection)
     (fst (handle (Some sample_root) sample_cmd_env \<lparr>cmd_name = ''DELE'', cmd_argument = ''a''\<rparr> (cn_state sample_connection)))"
proof -
  have "\<not> is_logged_in (sv_session (cn_state sample_connection))" by code_simp
  from login_required [OF this] show ?thesis by blast
qed

end
