(* ===== verification/Handler_Frame.thy ===== *)
theory Handler_Frame
  imports Handler_Properties Replies
begin

text \<open>
  What commands leave alone: every command but MODE and TYPE keeps the session's mode and type, and no
  command takes the counter of transfer identifiers back.
\<close>

definition framed :: "server_state \<Rightarrow> server_state \<Rightarrow> bool" where
  "framed st st' \<longleftrightarrow> transfer_mode (sv_session st') = transfer_mode (sv_session st)
     \<and> transfer_type (sv_session st') = transfer_type (sv_session st)
     \<and> sv_counter st \<le> sv_counter st'"

lemma counter_simps [simp]: "sv_counter (forget_rename st) = sv_counter st" "sv_counter (set_cwd p st) = sv_counter st"
  "sv_counter (close_socket i st) = sv_counter st" "sv_counter (close_data_socket st) = sv_counter st"
  by (simp_all add: forget_rename_def set_cwd_def close_socket_def close_data_socket_def split: option.split)

lemma framed_refl [simp]: "framed st st"
  by (simp add: framed_def)

lemma framed_upd [simp]:
  "framed st (upd f st1) \<longleftrightarrow> transfer_mode (f (sv_session st1)) = transfer_mode (sv_session st)
     \<and> transfer_type (f (sv_session st1)) = transfer_type (sv_session st) \<and> sv_counter st \<le> sv_counter st1"
  by (simp add: framed_def)

lemma framed_close [simp]:
  "framed st (close_data_socket st1) \<longleftrightarrow> framed st st1"
  "framed st (cancel_transfer st1) \<longleftrightarrow> framed st st1"
  "framed st (open_data lp h p mode st1) \<longleftrightarrow> framed st st1"
  by (simp_all add: framed_def open_data_def cancel_transfer_def cancel_def Let_def)

lemma framed_logged: "framed st (fst (f st)) \<Longrightarrow> framed st (fst (logged st f))"
  by (simp add: logged_def)

lemma service_session: "service_call m st act = (st1, r) \<Longrightarrow> sv_session st1 = sv_session st \<and> sv_counter st1 = sv_counter st"
  by (auto simp: service_call_def split: prod.splits sum.splits)

lemma framed_answer:
  assumes "\<And>x st1. sv_session st1 = sv_session st \<Longrightarrow> sv_counter st1 = sv_counter st \<Longrightarrow> framed st (change x st1)"
  shows "framed st (fst (answer fallback change text (service_call m st act)))"
proof -
  obtain st1 r where c: "service_call m st act = (st1, r)" by (cases "service_call m st act")
  then show ?thesis using assms service_session [OF c] by (cases r) (simp_all add: answer_def framed_def)
qed

lemma framed_cmds:
  "framed st (fst (user_cmd arg st))" "framed st (fst (password_cmd arg st))" "framed st (fst (quit_cmd arg st))"
  "framed st (fst (noop_cmd arg st))" "framed st (fst (help_cmd arg st))"
  by (auto simp: user_cmd_def password_cmd_def quit_cmd_def noop_cmd_def help_cmd_def split: option.split)

lemma framed_service:
  "framed st (fst (pwd_cmd m arg st))" "framed st (fst (cwd_cmd m arg st))" "framed st (fst (cdup_cmd m arg st))"
  "framed st (fst (mkd_cmd m arg st))" "framed st (fst (rmd_cmd m arg st))" "framed st (fst (dele_cmd m arg st))"
  "framed st (fst (list_cmd m arg st))" "framed st (fst (nlst_cmd m arg st))" "framed st (fst (size_cmd m arg st))"
  "framed st (fst (mdtm_cmd m arg st))" "framed st (fst (stat_cmd m arg st))" "framed st (fst (hash_cmd m arg st))"
  unfolding pwd_cmd_def cwd_cmd_def cdup_cmd_def mkd_cmd_def rmd_cmd_def dele_cmd_def list_cmd_def nlst_cmd_def
      size_cmd_def mdtm_cmd_def stat_cmd_def hash_cmd_def
  by (auto intro!: framed_logged framed_answer simp: set_cwd_def split: option.split) (simp_all add: framed_def)

lemma framed_rename: "framed st (fst (rnfr_cmd m arg st))" "framed st (fst (rnto_cmd m arg st))"
  by (auto simp: rnfr_cmd_def rnto_cmd_def framed_def logged_def dest!: service_session
      split: prod.split sum.split option.split)

lemma framed_data:
  "framed st (fst (port_cmd env arg st))" "framed st (fst (pasv_cmd env arg st))" "framed st (fst (abor_cmd m arg st))"
  unfolding port_cmd_def pasv_cmd_def abor_cmd_def
  by (auto simp: Let_def intro!: framed_logged split: option.split sum.split exn.split)
    (simp_all add: framed_def cancel_transfer_def cancel_def Let_def)

lemma framed_start: "framed st (fst (start_transfer m op arg st))"
  by (auto simp: start_transfer_def start_transfer_thread_def new_transfer_id_def Let_def framed_def)

lemma framed_transfer:
  "framed st (fst (retr_cmd m arg st))" "framed st (fst (stor_cmd m arg st))" "framed st (fst (stou_cmd m arg st))"
  "framed st (fst (appe_cmd m arg st))"
  unfolding retr_cmd_def stor_cmd_def stou_cmd_def appe_cmd_def
  by (auto simp: framed_start intro!: framed_logged)

lemma handle_modes:
  assumes "cmd_name c \<noteq> ''MODE''" "cmd_name c \<noteq> ''TYPE''"
  shows "framed st (fst (handle m env c st))"
proof -
  define st1 where "st1 = (if rename_from (sv_session st) \<noteq> None \<and> cmd_name c \<noteq> ''RNTO'' then forget_rename st else st)"
  define Q where "Q r \<longleftrightarrow> framed st1 (fst r)" for r :: response
  have i: "Q a \<Longrightarrow> Q b \<Longrightarrow> Q (if b1 then a else b)" for a b b1 by simp
  note qs = framed_cmds framed_service framed_rename framed_data framed_transfer
  have u: "Q (st1, Inr NOT_IMPLEMENTED)" by (simp add: Q_def)
  have "Q (handle m env c st)"
    unfolding handle_def Let_def st1_def [symmetric]
    by (simp only: assms if_False) (intro i u qs [of st1, folded Q_def])
  moreover have "framed st st1" by (simp add: framed_def st1_def)
  ultimately show ?thesis by (simp add: Q_def framed_def)
qed

text \<open>The counter of transfer identifiers.\<close>

lemma counter_mode_type: "sv_counter (fst (mode_cmd arg st)) = sv_counter st" "sv_counter (fst (type_cmd arg st)) = sv_counter st"
  by (simp_all add: mode_cmd_def type_cmd_def logged_def Let_def)

lemma handle_counter: "sv_counter st \<le> sv_counter (fst (handle m env c st))"
proof (cases "cmd_name c = ''MODE'' \<or> cmd_name c = ''TYPE''")
  case True
  then show ?thesis by (auto simp: handle_def Let_def counter_mode_type)
next
  case False
  then show ?thesis using handle_modes [of c st m env] by (simp add: framed_def)
qed

end
