(* ===== verification/Client_Properties.thy ===== *)
theory Client_Properties
  imports FTP_Client Connection Handler_Frame
begin

text \<open>
  Client and server together: replies are cut out of the stream as they were sent, commands arrive as
  they were given, data addresses survive PORT and PASV, and both sides agree on MODE and TYPE.
\<close>

section \<open>Replies cut out of the stream\<close>

definition wire_lines :: "bytes list \<Rightarrow> bytes" where
  "wire_lines ls = concat (map (\<lambda>l. l @ [13, 10]) ls)"

lemma wire_lines_simps [simp]: "wire_lines [] = []" "wire_lines (l # ls) = l @ 13 # 10 # wire_lines ls"
  by (simp_all add: wire_lines_def)

lemma recv_line_stream:
  assumes "split_crlf l = None" "buffer @ concat pieces = l @ 13 # 10 # rest" "[] \<notin> set pieces"
  shows "\<exists>b ps. recv_line buffer pieces = Some (b, ps, Inr (l @ [13, 10])) \<and> b @ concat ps = rest \<and> [] \<notin> set ps"
  using assms(2,3)
proof (induction buffer pieces rule: recv_line.induct)
  case (1 buffer)
  then show ?case using split_crlf_line [OF assms(1), of rest] by auto
next
  case (2 buffer data pieces)
  show ?case
  proof (cases "split_crlf buffer")
    case None
    have "data \<noteq> []" using 2(3) by auto
    with 2(1) [OF None this] 2(2,3) None show ?thesis by simp
  next
    case (Some p)
    obtain m r where p: "p = (m, r)" by (cases p)
    have "split_crlf (buffer @ concat (data # pieces)) = Some (m, r @ concat (data # pieces))"
      by (rule split_crlf_append) (simp add: Some p)
    moreover have "split_crlf (buffer @ concat (data # pieces)) = Some (l, rest)"
      unfolding 2(2) by (rule split_crlf_line [OF assms(1)])
    ultimately have "m = l" "r @ concat (data # pieces) = rest" by simp_all
    with Some p 2(3) show ?thesis by auto
  qed
qed

lemma recv_until_stream:
  assumes "list_all (\<lambda>l. split_crlf l = None) ls" "ls \<noteq> []" "final (last ls @ [13, 10])"
    and "list_all (\<lambda>l. \<not> final (l @ [13, 10])) (butlast ls)"
    and "buffer @ concat pieces = wire_lines ls @ rest" "[] \<notin> set pieces"
  shows "\<exists>b ps. recv_until final acc buffer pieces = Some (b, ps, Inr (acc @ map (\<lambda>l. l @ [13, 10]) ls))
     \<and> b @ concat ps = rest \<and> [] \<notin> set ps"
  using assms
proof (induction ls arbitrary: acc buffer pieces)
  case (Cons l ls)
  have l: "split_crlf l = None" "buffer @ concat pieces = l @ 13 # 10 # wire_lines ls @ rest" using Cons.prems by simp_all
  from recv_line_stream [OF l Cons.prems(6)] obtain b ps
    where r: "recv_line buffer pieces = Some (b, ps, Inr (l @ [13, 10]))" "b @ concat ps = wire_lines ls @ rest" "[] \<notin> set ps"
    by blast
  show ?case
  proof (cases "ls = []")
    case True
    with r Cons.prems(3) show ?thesis by (simp add: recv_until.simps [of final acc buffer pieces])
  next
    case False
    then have n: "\<not> final (l @ [13, 10])" using Cons.prems(4) by simp
    have "\<exists>b' ps'. recv_until final (acc @ [l @ [13, 10]]) b ps = Some (b', ps', Inr ((acc @ [l @ [13, 10]]) @ map (\<lambda>l. l @ [13, 10]) ls))
        \<and> b' @ concat ps' = rest \<and> [] \<notin> set ps'"
      by (rule Cons.IH) (use Cons.prems False r in simp_all)
    with r n show ?thesis by (simp add: recv_until.simps [of final acc buffer pieces])
  qed
qed simp

text \<open>A reply of the protocol: one line, or lines from "ddd-" to the first that begins with "ddd ".\<close>

definition complete_reply :: "bytes list \<Rightarrow> bool" where
  "complete_reply ls \<longleftrightarrow> list_all (\<lambda>l. split_crlf l = None) ls \<and>
     (case ls of
        [] \<Rightarrow> False
      | first # tail \<Rightarrow>
          if multi_line (first @ [13, 10])
          then tail \<noteq> [] \<and> take 4 (last tail @ [13, 10]) = take 3 (first @ [13, 10]) @ [32]
            \<and> list_all (\<lambda>l. take 4 (l @ [13, 10]) \<noteq> take 3 (first @ [13, 10]) @ [32]) (butlast tail)
          else tail = [])"

lemma recv_reply_stream:
  assumes c: "complete_reply ls" and s: "buffer @ concat pieces = wire_lines ls @ rest" "[] \<notin> set pieces"
  shows "\<exists>b ps. recv_reply_bytes buffer pieces = Some (b, ps, Inr (map (\<lambda>l. l @ [13, 10]) ls))
     \<and> b @ concat ps = rest \<and> [] \<notin> set ps"
proof -
  from c obtain first tail where ls: "ls = first # tail" by (auto simp: complete_reply_def split: list.splits)
  have "split_crlf first = None" using c ls by (simp add: complete_reply_def)
  from recv_line_stream [OF this _ s(2)] s(1) ls obtain b ps
    where r: "recv_line buffer pieces = Some (b, ps, Inr (first @ [13, 10]))" "b @ concat ps = wire_lines tail @ rest" "[] \<notin> set ps"
    by (metis append_Cons append_assoc wire_lines_simps(2))
  show ?thesis
  proof (cases "multi_line (first @ [13, 10])")
    case False
    then have "tail = []" using c ls by (simp add: complete_reply_def)
    with r ls False show ?thesis by (simp add: recv_reply_bytes_def)
  next
    case True
    let ?final = "\<lambda>line. take 4 line = take 3 (first @ [13, 10]) @ [32]"
    have "\<exists>b' ps'. recv_until ?final [first @ [13, 10]] b ps = Some (b', ps', Inr ([first @ [13, 10]] @ map (\<lambda>l. l @ [13, 10]) tail))
        \<and> b' @ concat ps' = rest \<and> [] \<notin> set ps'"
      by (rule recv_until_stream) (use c ls True r in \<open>auto simp: complete_reply_def\<close>)
    with r ls True show ?thesis by (auto simp: recv_reply_bytes_def)
  qed
qed

definition complete_text :: "string \<Rightarrow> bool" where
  "complete_text r \<longleftrightarrow> ascii r \<and> (case take_lines (encode_text r) of (ls, rest) \<Rightarrow> rest = [] \<and> complete_reply ls)"

lemma take_lines_wire: "take_lines bs = (ls, rest) \<Longrightarrow> bs = wire_lines ls @ rest"
proof (induction bs arbitrary: ls rest rule: take_lines.induct)
  case (1 bs)
  show ?case
  proof (cases "split_crlf bs")
    case None
    with 1(2) show ?thesis by (simp add: take_lines.simps [of bs])
  next
    case (Some p)
    obtain l r where p: "p = (l, r)" by (cases p)
    obtain ms r' where t: "take_lines r = (ms, r')" by (cases "take_lines r")
    with 1(2) Some p have "ls = l # ms" "rest = r'" by (simp_all add: take_lines.simps [of bs])
    with split_crlf_parts [of bs l r] Some p 1(1) [OF Some p [symmetric] t] show ?thesis by simp
  qed
qed

text \<open>Reading several replies one after another.\<close>

fun recv_replies :: "nat \<Rightarrow> string list client_op" where
  "recv_replies 0 = return_op []"
| "recv_replies (Suc n) = bind_op recv_reply (\<lambda>r. bind_op (recv_replies n) (\<lambda>rs. return_op (r # rs)))"

lemma recv_reply_text:
  assumes "complete_text r" "cl_buffer c @ concat (cl_input c) = encode_text r @ rest" "[] \<notin> set (cl_input c)"
  shows "\<exists>b ps. recv_reply c = Some (c\<lparr>cl_buffer := b, cl_input := ps\<rparr>, Inr r) \<and> b @ concat ps = rest \<and> [] \<notin> set ps"
proof -
  obtain ls where t: "take_lines (encode_text r) = (ls, [])" "complete_reply ls" and a: "ascii r"
    using assms(1) by (auto simp: complete_text_def split: prod.splits)
  have w: "encode_text r = wire_lines ls" using take_lines_wire [OF t(1)] by simp
  from recv_reply_stream [OF t(2) assms(2) [unfolded w] assms(3)] obtain b ps
    where p: "recv_reply_bytes (cl_buffer c) (cl_input c) = Some (b, ps, Inr (map (\<lambda>l. l @ [13, 10]) ls))"
      "b @ concat ps = rest" "[] \<notin> set ps" by blast
  have "decode_reply (map (\<lambda>l. l @ [13, 10]) ls) = Some (Inr r)"
    using decode_line_ascii [OF a] w by (simp add: decode_reply_def wire_lines_def)
  with p show ?thesis by (intro exI [of _ b] exI [of _ ps]) (simp add: recv_reply_def receive_op_def)
qed

lemma recv_replies_stream:
  "list_all complete_text rs \<Longrightarrow> cl_buffer c @ concat (cl_input c) = concat (map encode_text rs) @ rest \<Longrightarrow> [] \<notin> set (cl_input c)
   \<Longrightarrow> \<exists>b ps. recv_replies (length rs) c = Some (c\<lparr>cl_buffer := b, cl_input := ps\<rparr>, Inr rs) \<and> b @ concat ps = rest"
proof (induction rs arbitrary: c)
  case Nil
  then show ?case by (intro exI [of _ "cl_buffer c"] exI [of _ "cl_input c"]) (cases c; simp add: return_op_def)
next
  case (Cons r rs)
  have "cl_buffer c @ concat (cl_input c) = encode_text r @ (concat (map encode_text rs) @ rest)" using Cons.prems by simp
  from recv_reply_text [OF _ this] Cons.prems obtain b ps
    where r: "recv_reply c = Some (c\<lparr>cl_buffer := b, cl_input := ps\<rparr>, Inr r)" "b @ concat ps = concat (map encode_text rs) @ rest" "[] \<notin> set ps"
    by auto
  from Cons.IH [of "c\<lparr>cl_buffer := b, cl_input := ps\<rparr>"] Cons.prems r obtain b' ps'
    where i: "recv_replies (length rs) (c\<lparr>cl_buffer := b, cl_input := ps\<rparr>) = Some (c\<lparr>cl_buffer := b', cl_input := ps'\<rparr>, Inr rs)"
      "b' @ concat ps' = rest" by auto
  have "recv_replies (length (r # rs)) c = Some (c\<lparr>cl_buffer := b', cl_input := ps'\<rparr>, Inr (r # rs))"
    using r i by (simp add: bind_op_def return_op_def)
  with i(2) show ?case by blast
qed

text \<open>A single line with a code and a blank is complete whatever its text.\<close>

lemma single_complete:
  assumes "ascii r" "split_crlf (encode_text m) = None" "r = m @ crlf" "4 \<le> length m" "m ! 3 = CHR '' ''"
  shows "complete_text r"
proof -
  have am: "ascii m" using assms(1,3) by (simp add: ascii_def)
  have e: "encode_text crlf = [13, 10]" by code_simp
  have t: "take_lines (encode_text r) = ([encode_text m], [])"
    using take_lines_commands [of "[encode_text m]"] assms(2,3) e by simp
  have "encode_text m ! 3 = 32" using assms(4,5) am by (simp add: encode_ascii ord_char_def)
  moreover have "length (encode_text m) = length m" using am by (simp add: encode_ascii)
  ultimately have "\<not> multi_line (encode_text m @ [13, 10])" using assms(4) by (simp add: multi_line_def nth_append)
  then show ?thesis using assms(1,2) t by (simp add: complete_text_def complete_reply_def)
qed

section \<open>Words\<close>

lemma words_skip: "words_of (dropWhile is_space s) = words_of s"
  by (induction s) auto

lemma words_first:
  "s \<noteq> [] \<Longrightarrow> \<not> is_space (hd s) \<Longrightarrow>
     words_of s = takeWhile (\<lambda>c. \<not> is_space c) s # words_of (dropWhile (\<lambda>c. \<not> is_space c) s)"
proof (induction s)
  case (Cons c s)
  then have nc: "\<not> is_space c" by simp
  show ?case
  proof (cases s)
    case Nil
    with nc show ?thesis by simp
  next
    case (Cons d t)
    with nc Cons.IH show ?thesis by (cases "is_space d") simp_all
  qed
qed simp

lemma words_empty: "words_of s = [] \<longleftrightarrow> list_all is_space s"
proof (induction s)
  case (Cons c s)
  show ?case
  proof (cases "is_space c")
    case True
    with Cons show ?thesis by simp
  next
    case False
    with words_first [of "c # s"] show ?thesis by simp
  qed
qed simp

lemma strip_ends: "strip s \<noteq> [] \<Longrightarrow> \<not> is_space (hd (strip s)) \<and> \<not> is_space (last (strip s))"
proof -
  assume n: "strip s \<noteq> []"
  let ?l = "dropWhile is_space s"
  have d: "dropWhile is_space (rev ?l) \<noteq> []" using n by (simp add: strip_def)
  then have "\<not> is_space (hd (dropWhile is_space (rev ?l)))" by (rule hd_dropWhile)
  then have l: "\<not> is_space (last (strip s))" using d by (simp add: strip_def last_rev)
  have "?l \<noteq> []" using d by (cases ?l) simp_all
  then have h: "\<not> is_space (hd ?l)" by (rule hd_dropWhile)
  obtain t where "?l = strip s @ t"
  proof -
    have "rev ?l = takeWhile is_space (rev ?l) @ dropWhile is_space (rev ?l)" by simp
    then have "?l = rev (dropWhile is_space (rev ?l)) @ rev (takeWhile is_space (rev ?l))"
      by (metis rev_append rev_rev_ident)
    then show ?thesis using that by (simp add: strip_def)
  qed
  with n have "hd ?l = hd (strip s)" by simp
  with h l show ?thesis by simp
qed

lemma strip_id: "s = [] \<or> (\<not> is_space (hd s) \<and> \<not> is_space (last s)) \<Longrightarrow> strip s = s"
proof (cases "s = []")
  case False
  assume "s = [] \<or> (\<not> is_space (hd s) \<and> \<not> is_space (last s))"
  with False have e: "\<not> is_space (hd s)" "\<not> is_space (last s)" by simp_all
  have "dropWhile is_space s = s" using e(1) False by (cases s) simp_all
  moreover have "dropWhile is_space (rev s) = rev s" using e(2) False by (cases "rev s") (simp_all add: last_rev hd_rev flip: hd_rev)
  ultimately show ?thesis by (simp add: strip_def)
qed (simp add: strip_def)

text \<open>The two-word lines of the client are the server's commands with a one-word argument.\<close>

lemma argument_ends:
  assumes "cmd_argument (parse v) \<noteq> []"
  shows "\<not> is_space (hd (cmd_argument (parse v)))" "\<not> is_space (last (cmd_argument (parse v)))"
proof -
  let ?s = "strip v" and ?a = "cmd_argument (parse v)"
  have s: "?s \<noteq> []" and a: "?a = dropWhile is_space (dropWhile (\<lambda>c. \<not> is_space c) ?s)"
    using assms by (auto simp: parse_def Let_def split: if_splits)
  show "\<not> is_space (hd ?a)" using assms unfolding a by (rule hd_dropWhile)
  obtain t where "?s = t @ ?a" unfolding a by (metis append_assoc takeWhile_dropWhile_id)
  with assms have "last ?a = last ?s" by simp
  then show "\<not> is_space (last ?a)" using strip_ends [OF s] by simp
qed

lemma words_parse:
  "words_of (strip v) = [n, a] \<longleftrightarrow>
     strip v \<noteq> [] \<and> takeWhile (\<lambda>c. \<not> is_space c) (strip v) = n \<and> cmd_argument (parse v) = a \<and> a \<noteq> []
     \<and> list_all (\<lambda>c. \<not> is_space c) a"
proof (cases "strip v = []")
  case False
  let ?a = "cmd_argument (parse v)"
  have a: "?a = dropWhile is_space (dropWhile (\<lambda>c. \<not> is_space c) (strip v))" using False by (simp add: parse_def Let_def)
  have w: "words_of (strip v) = takeWhile (\<lambda>c. \<not> is_space c) (strip v) # words_of ?a"
    using words_first [OF False] strip_ends [OF False] words_skip unfolding a by simp
  show ?thesis
  proof (cases "?a = []")
    case True
    with w show ?thesis by auto
  next
    case na: False
    note e = argument_ends [OF na]
    let ?w = "takeWhile (\<lambda>c. \<not> is_space c) ?a" and ?r = "dropWhile (\<lambda>c. \<not> is_space c) ?a"
    have split: "?a = ?w @ ?r" by simp
    have "list_all is_space ?r \<longleftrightarrow> ?r = []"
    proof
      assume l: "list_all is_space ?r"
      show "?r = []"
      proof (rule ccontr)
        assume "?r \<noteq> []"
        with split have "last ?a = last ?r" by (metis last_append)
        with l \<open>?r \<noteq> []\<close> e(2) show False by (metis last_in_set list_all_iff)
      qed
    next
      assume "?r = []"
      then show "list_all is_space ?r" unfolding \<open>?r = []\<close> by (simp only: list.pred_inject)
    qed
    then have re: "words_of ?r = [] \<longleftrightarrow> ?r = []" using words_empty by blast
    have rl: "?r = [] \<longleftrightarrow> list_all (\<lambda>c. \<not> is_space c) ?a" by (simp add: list_all_iff)
    have rw: "?r = [] \<Longrightarrow> ?w = ?a" by (metis append_Nil2 split)
    have wf: "words_of ?a = ?w # words_of ?r" by (rule words_first [OF na e(1)])
    have "words_of ?a = [x] \<longleftrightarrow> ?a = x \<and> list_all (\<lambda>c. \<not> is_space c) ?a" for x
    proof (cases "?r = []")
      case True
      then have "words_of ?a = [?a]" using wf re rw by metis
      then show ?thesis using True rl by simp
    next
      case False
      then have "words_of ?a \<noteq> [x]" using wf re by (metis list.inject)
      then show ?thesis using False rl by blast
    qed
    from this [of a] False na show ?thesis by (simp only: w list.inject) blast
  qed
qed simp

section \<open>Data addresses\<close>

definition numbers :: "int list \<Rightarrow> bool" where
  "numbers vs \<longleftrightarrow> list_all (\<lambda>v. 0 \<le> v) vs"

lemma show_int_digits: "0 \<le> v \<Longrightarrow> list_all is_digit (show_int v) \<and> show_int v \<noteq> []"
  using show_nat_digits by (simp add: show_int_def)

lemma show_int_chars: "0 \<le> v \<Longrightarrow> \<not> is_digit c \<Longrightarrow> c \<notin> set (show_int v)"
  using show_int_digits [of v] by (auto simp: list_all_iff)

lemma py_int_show: "0 \<le> v \<Longrightarrow> py_int (show_int v) = Some v"
  by (simp add: show_int_def py_int_show_nat)

lemma split_numbers:
  "numbers vs \<Longrightarrow> vs \<noteq> [] \<Longrightarrow> \<not> is_digit c \<Longrightarrow> split_on c (join_with [c] (map show_int vs)) = map show_int vs"
  by (rule split_join) (auto simp: numbers_def list_all_iff show_int_chars)

lemma ints_of_shown: "numbers vs \<Longrightarrow> ints_of (map show_int vs) = Inr vs"
  by (induction vs) (simp_all add: numbers_def py_int_show)

lemma port_numbers_shown: "numbers vs \<Longrightarrow> list_all (\<lambda>v. v \<le> 255) vs \<Longrightarrow> port_numbers (map show_int vs) = Some vs"
  by (induction vs) (simp_all add: numbers_def py_int_show)

lemma join_numbers_chars: "numbers vs \<Longrightarrow> x \<in> set (join_with [c] (map show_int vs)) \<Longrightarrow> is_digit x \<or> x = c"
  using join_set [of x "[c]" "map show_int vs"] by (auto simp: numbers_def list_all_iff dest: show_int_chars)

lemma find_char_append: "c \<notin> set p \<Longrightarrow> find_char c (p @ c # r) = Some (length p)"
  by (induction p) auto

lemma join_six:
  "join_with '','' [a, b, c, d] @ '','' @ e @ '','' @ f = join_with '','' [a, b, c, d, e, f]"
  by simp

lemma not_digits: "\<not> is_digit (CHR '','')" "\<not> is_digit (CHR ''.'')" "\<not> is_digit (CHR ''('')" "\<not> is_digit (CHR '')'')"
  by code_simp+

text \<open>The dotted form of four numbers, and the six numbers of a data address.\<close>

definition dotted :: "int list \<Rightarrow> string" where
  "dotted vs = join_with ''.'' (map show_int vs)"

lemma six_numbers:
  assumes "numbers [a, b, c, d]" "0 \<le> p"
  shows "numbers [a, b, c, d, p div 256, p mod 256]"
    "join_with '','' (split_on (CHR ''.'') (dotted [a, b, c, d])) @ '','' @ show_int (p div 256) @ '','' @ show_int (p mod 256)
       = join_with '','' (map show_int [a, b, c, d, p div 256, p mod 256])"
proof -
  show n: "numbers [a, b, c, d, p div 256, p mod 256]" using assms by (simp add: numbers_def pos_imp_zdiv_nonneg_iff)
  have "split_on (CHR ''.'') (dotted [a, b, c, d]) = map show_int [a, b, c, d]"
    unfolding dotted_def by (rule split_numbers) (use assms not_digits in simp_all)
  then show "join_with '','' (split_on (CHR ''.'') (dotted [a, b, c, d])) @ '','' @ show_int (p div 256) @ '','' @ show_int (p mod 256)
       = join_with '','' (map show_int [a, b, c, d, p div 256, p mod 256])" by simp
qed

lemma parenthesised:
  assumes "CHR ''('' \<notin> set pre" "CHR '')'' \<notin> set pre" "CHR '')'' \<notin> set body" "ints_of (split_on (CHR '','') body) = Inr parts"
    and "6 \<le> length parts"
  shows "parse_pasv_response (pre @ CHR ''('' # body @ CHR '')'' # rest) =
    Inr (join_with ''.'' (map show_int (take 4 parts)), parts ! 4 * 256 + parts ! 5)"
proof -
  have "find_char (CHR ''('') (pre @ CHR ''('' # body @ CHR '')'' # rest) = Some (length pre)"
    by (rule find_char_append [OF assms(1)])
  moreover have "find_char (CHR '')'') (pre @ CHR ''('' # body @ CHR '')'' # rest) = Some (length pre + 1 + length body)"
    using find_char_append [of "CHR '')''" "pre @ CHR ''('' # body" rest] assms(2,3) by simp
  ultimately show ?thesis using assms(4,5) by (simp add: parse_pasv_response_def)
qed

lemma pasv_parsed:
  assumes "numbers [a, b, c, d]" "0 \<le> p"
  shows "parse_pasv_response (pasv_reply (dotted [a, b, c, d]) p @ crlf) = Inr (dotted [a, b, c, d], p)"
proof -
  let ?vs = "[a, b, c, d, p div 256, p mod 256]"
  let ?body = "join_with '','' (map show_int ?vs)"
  note n = six_numbers [OF assms]
  have r: "pasv_reply (dotted [a, b, c, d]) p @ crlf = ''227 Entering Passive Mode '' @ CHR ''('' # ?body @ CHR '')'' # crlf"
    unfolding pasv_reply_def using n(2) by simp
  have "split_on (CHR '','') ?body = map show_int ?vs" by (rule split_numbers [OF n(1)]) (use not_digits in simp_all)
  then have i: "ints_of (split_on (CHR '','') ?body) = Inr ?vs" by (simp only: ints_of_shown [OF n(1)])
  have "CHR '')'' \<notin> set ?body" using join_numbers_chars [OF n(1), of "CHR '')''" "CHR '',''"] not_digits by auto
  from parenthesised [OF _ _ this i, of "''227 Entering Passive Mode ''" crlf] show ?thesis
    unfolding r by (simp add: dotted_def)
qed

lemma strip_spaces_end: "list_all is_space y \<Longrightarrow> strip (x @ y) = strip x"
proof (cases "list_all is_space x")
  case True
  assume "list_all is_space y"
  with True have "dropWhile is_space (x @ y) = []" "dropWhile is_space x = []"
    unfolding dropWhile_eq_Nil_conv by (auto simp: list_all_iff)
  then show ?thesis by (simp only: strip_def)
next
  case False
  assume y: "list_all is_space y"
  from False have "dropWhile is_space (x @ y) = dropWhile is_space x @ y"
    by (auto simp: list_all_iff dropWhile_append1)
  moreover have "dropWhile is_space (rev y @ z) = dropWhile is_space z" for z
    using y by (subst dropWhile_append2) (auto simp: list_all_iff)
  ultimately show ?thesis by (simp add: strip_def)
qed

lemma crlf_spaces: "is_space (CHR 0x0D)" "is_space (CHR 0x0A)"
  by code_simp+

lemma parse_port_line:
  assumes ne: "body \<noteq> []" and sp: "\<forall>x\<in>set body. \<not> is_space x"
  shows "parse (strip ((''PORT '' @ body) @ crlf)) = \<lparr>cmd_name = ''PORT'', cmd_argument = body\<rparr>"
proof -
  have chars: "\<not> is_space (CHR ''P'')" "\<not> is_space (CHR ''O'')" "\<not> is_space (CHR ''R'')" "\<not> is_space (CHR ''T'')" "is_space (CHR '' '')"
    by code_simp+
  have id: "strip (''PORT '' @ body) = ''PORT '' @ body"
    by (rule strip_id) (use ne sp chars in \<open>simp add: last_in_set\<close>)
  moreover have "strip ((''PORT '' @ body) @ crlf) = strip (''PORT '' @ body)"
    by (rule strip_spaces_end) (simp add: crlf_chars crlf_spaces)
  ultimately have v: "strip (strip ((''PORT '' @ body) @ crlf)) = ''PORT '' @ body" by simp
  have t: "takeWhile (\<lambda>c. \<not> is_space c) (''PORT '' @ body) = ''PORT''"
    "dropWhile (\<lambda>c. \<not> is_space c) (''PORT '' @ body) = CHR '' '' # body"
    using chars by simp_all
  have d: "dropWhile is_space (CHR '' '' # body) = body" using ne sp chars by (cases body) simp_all
  have u: "ascii_upper ''PORT'' = ''PORT''" by code_simp
  show ?thesis unfolding parse_def Let_def v t d u by simp
qed

lemma port_parsed:
  assumes n: "numbers [a, b, c, d]" "list_all (\<lambda>v. v \<le> 255) [a, b, c, d]" and p: "0 < p" "p < 65536"
  shows "parse (strip (format_port_command (dotted [a, b, c, d]) p)) =
      \<lparr>cmd_name = ''PORT'', cmd_argument = join_with '','' (map show_int [a, b, c, d, p div 256, p mod 256])\<rparr>"
    "parse_port (join_with '','' (map show_int [a, b, c, d, p div 256, p mod 256])) = Some (dotted [a, b, c, d], p)"
proof -
  let ?vs = "[a, b, c, d, p div 256, p mod 256]"
  let ?body = "join_with '','' (map show_int ?vs)"
  have p0: "0 \<le> p" using p by simp
  note six = six_numbers [OF n(1) p0]
  have "\<not> is_space (CHR '','')" by code_simp
  then have body: "\<forall>x\<in>set ?body. \<not> is_space x" using join_numbers_chars [OF six(1)] digit_not_space by blast
  have ne: "?body \<noteq> []" using show_int_digits [of a] n(1) by (simp add: numbers_def)
  have f: "format_port_command (dotted [a, b, c, d]) p = (''PORT '' @ ?body) @ crlf"
    unfolding format_port_command_def using six(2) by simp
  show "parse (strip (format_port_command (dotted [a, b, c, d]) p)) = \<lparr>cmd_name = ''PORT'', cmd_argument = ?body\<rparr>"
    unfolding f by (rule parse_port_line [OF ne body])
  have sp: "split_on (CHR '','') ?body = map show_int ?vs" by (rule split_numbers [OF six(1)]) (use not_digits in simp_all)
  have "list_all (\<lambda>v. v \<le> 255) ?vs"
    using n(2) pos_mod_bound [of 256 p] zdiv_mono1 [of p 65535 256] p by simp
  from port_numbers_shown [OF six(1) this]
  show "parse_port ?body = Some (dotted [a, b, c, d], p)"
    unfolding parse_port_def Let_def sp using p by (simp add: dotted_def)
qed

section \<open>MODE and TYPE on both sides\<close>

text \<open>What the client has negotiated is what the server's session has.\<close>

definition agree :: "client \<Rightarrow> session \<Rightarrow> bool" where
  "agree c s \<longleftrightarrow> cl_negotiated_mode c \<in> {None, Some (transfer_mode s)}
     \<and> cl_negotiated_type c \<in> {None, Some (transfer_type s)}"

text \<open>MODE and TYPE set exactly what they confirm.\<close>

lemma mode_answer:
  assumes "mode_cmd a st = (st', Inr r)"
  shows "if starts_with r ''200'' then a \<noteq> [] \<and> ascii_upper (strip a) \<in> set modes
       \<and> sv_session st' = (sv_session st)\<lparr>transfer_mode := ascii_upper (strip a)\<rparr> else st' = st"
  using assms unfolding mode_cmd_def logged_def Let_def
  by (auto simp: modes_def starts_with_def say_def upd_def split: if_splits)

lemma type_answer:
  assumes "type_cmd a st = (st', Inr r)"
  shows "if starts_with r ''200'' then a \<noteq> [] \<and> ascii_upper a \<in> set types
       \<and> sv_session st' = (sv_session st)\<lparr>transfer_type := ascii_upper a\<rparr> else st' = st"
  using assms unfolding type_cmd_def logged_def
  by (auto simp: types_def starts_with_def say_def upd_def split: if_splits)

lemma handle_mode_type:
  "cmd_name c = ''MODE'' \<Longrightarrow> \<exists>st1. handle m env c st = mode_cmd (cmd_argument c) st1 \<and> framed st st1"
  "cmd_name c = ''TYPE'' \<Longrightarrow> \<exists>st1. handle m env c st = type_cmd (cmd_argument c) st1 \<and> framed st st1"
  unfolding handle_def Let_def by (simp_all, auto simp: framed_def)

text \<open>An argument that is one letter is the second of two words.\<close>

lemma one_letter_words:
  assumes "length (cmd_argument (parse v)) = 1"
  shows "\<exists>n. words_of (strip v) = [n, cmd_argument (parse v)] \<and> ascii_upper n = cmd_name (parse v)"
    "strip (cmd_argument (parse v)) = cmd_argument (parse v)"
proof -
  from assms have ne: "cmd_argument (parse v) \<noteq> []" by auto
  then have s: "strip v \<noteq> []" by (auto simp: parse_def Let_def split: if_splits)
  obtain x where x: "cmd_argument (parse v) = [x]" using assms by (auto simp: length_Suc_conv)
  with argument_ends [OF ne] have "list_all (\<lambda>c. \<not> is_space c) (cmd_argument (parse v))" by simp
  with words_parse [of v "takeWhile (\<lambda>c. \<not> is_space c) (strip v)" "cmd_argument (parse v)"] ne s
  show "\<exists>n. words_of (strip v) = [n, cmd_argument (parse v)] \<and> ascii_upper n = cmd_name (parse v)"
    by (auto simp: parse_def Let_def)
  show "strip (cmd_argument (parse v)) = cmd_argument (parse v)" by (rule strip_id) (use argument_ends [OF ne] in simp)
qed

lemma letters: "ascii_upper a \<in> set modes \<Longrightarrow> length a = 1" "ascii_upper a \<in> set types \<Longrightarrow> length a = 1"
  by (auto simp: modes_def types_def ascii_upper_def length_Suc_conv dest: map_eq_Cons_D)

text \<open>What send_command leaves of the client's negotiation.\<close>

lemma receive_op_keeps:
  "receive_op rd c = Some (c1, x) \<Longrightarrow> cl_negotiated_mode c1 = cl_negotiated_mode c \<and> cl_negotiated_type c1 = cl_negotiated_type c"
  by (auto simp: receive_op_def split: option.splits sum.splits prod.splits)

lemma send_command_negotiated:
  assumes "send_command v c = Some (c', Inr r)"
  obtains c1 where "c' = record_negotiation v r c1" "cl_negotiated_mode c1 = cl_negotiated_mode c"
    "cl_negotiated_type c1 = cl_negotiated_type c"
  using assms unfolding send_command_def bind_op_def recv_reply_def recv_listing_reply_def
  by (auto split: option.splits sum.splits if_splits dest!: receive_op_keeps)

lemma record_two:
  "words_of (strip v) = [n, a] \<Longrightarrow> record_negotiation v r c =
     (if starts_with r ''200'' \<and> ascii_upper n = ''MODE'' \<and> ascii_upper a \<in> set modes
      then c\<lparr>cl_mode := ascii_upper a, cl_negotiated_mode := Some (ascii_upper a)\<rparr>
      else if starts_with r ''200'' \<and> ascii_upper n = ''TYPE'' \<and> ascii_upper a \<in> set types
      then c\<lparr>cl_type := ascii_upper a, cl_negotiated_type := Some (ascii_upper a)\<rparr> else c)"
  by (simp add: record_negotiation_def Let_def)

lemma record_other:
  assumes "cmd_name (parse v) \<noteq> ''MODE''" "cmd_name (parse v) \<noteq> ''TYPE''"
  shows "record_negotiation v r c = c"
proof (cases "\<exists>n a. words_of (strip v) = [n, a]")
  case True
  then obtain n a where w: "words_of (strip v) = [n, a]" by blast
  with words_parse [of v n a] have "ascii_upper n = cmd_name (parse v)" by (simp add: parse_def Let_def)
  with assms record_two [OF w] show ?thesis by simp
next
  case False
  then show ?thesis by (auto simp: record_negotiation_def split: list.split)
qed

lemma record_refused: "\<not> starts_with r ''200'' \<Longrightarrow> record_negotiation v r c = c"
  by (simp add: record_negotiation_def)

section \<open>The two ends together\<close>


definition sample_client :: "bytes list \<Rightarrow> client" where
  "sample_client pieces = \<lparr>cl_server_ip = ''127.0.0.1'', cl_download_dir = [], cl_mode = ''S'', cl_type = ''I'',
     cl_negotiated_mode = None, cl_negotiated_type = None, cl_buffer = [], cl_input = pieces, cl_lines = [],
     cl_datagrams = [], cl_fs = clean_tree\<rparr>"

definition sample_state :: server_state where
  "sample_state = upd (is_logged_in_update (\<lambda>b. True)) (cn_state sample_connection)"

lemma got_reply:
  "case x of Some (c', Inr r) \<Rightarrow> r = t \<and> P c' | _ \<Rightarrow> False \<Longrightarrow> \<exists>c'. x = Some (c', Inr t) \<and> P c'"
proof (cases x)
  case (Some p)
  assume "case x of Some (c', Inr r) \<Rightarrow> r = t \<and> P c' | _ \<Rightarrow> False"
  with Some show ?thesis by (cases p; cases "snd p") auto
qed simp


text \<open>C38: However TCP cuts the stream of the server's replies into pieces, the client reads the replies one
  by one, single-line and multi-line ones alike, each as the server sent it.\<close>

theorem replies_received:
  assumes "list_all complete_text rs" "concat pieces = concat (map encode_text rs)" "[] \<notin> set pieces"
    and "cl_buffer c = []" "cl_input c = pieces"
  shows "map_option snd (recv_replies (length rs) c) = Some (Inr rs)"
proof -
  from recv_replies_stream [OF assms(1), of c "[]"] assms(2-5) show ?thesis by auto
qed

theorem replies_received_witness:
  "map_option snd (recv_replies 2 (sample_client [encode_text ''220-Hello'', [13], [10, 50, 50, 48, 32, 13], [10, 50, 50], [49, 32, 13, 10]]))
     = Some (Inr [''220-Hello'' @ crlf @ ''220 '' @ crlf, ''221 '' @ crlf])"
proof -
  let ?ps = "[encode_text ''220-Hello'', [13], [10, 50, 50, 48, 32, 13], [10, 50, 50], [49, 32, 13, 10]]"
  let ?rs = "[''220-Hello'' @ crlf @ ''220 '' @ crlf, ''221 '' @ crlf]"
  have "list_all complete_text ?rs" by code_simp
  moreover have "concat ?ps = concat (map encode_text ?rs)" by code_simp
  moreover have "[] \<notin> set ?ps" by code_simp
  moreover have "cl_buffer (sample_client ?ps) = []" "cl_input (sample_client ?ps) = ?ps" by (simp_all add: sample_client_def)
  ultimately have "map_option snd (recv_replies (length ?rs) (sample_client ?ps)) = Some (Inr ?rs)" by (rule replies_received)
  moreover have "length ?rs = 2" by simp
  ultimately show ?thesis by (simp only:)
qed

text \<open>C39: However TCP cuts the client's command lines into pieces, the server reads exactly those lines,
  in order, and decodes each to the text of the command; nothing is left over.\<close>

theorem commands_received:
  assumes "list_all ascii vs" "list_all (\<lambda>v. split_crlf (encode_text v) = None) vs"
    and "concat pieces = concat (map (\<lambda>v. encode_text (v @ crlf)) vs)"
  shows "read_lines [] pieces = (map encode_text vs, []) \<and> map decode_line (fst (read_lines [] pieces)) = map Plain vs"
proof -
  have e: "encode_text crlf = [13, 10]" by code_simp
  have "read_lines [] pieces = take_lines (concat (map (\<lambda>l. l @ [13, 10]) (map encode_text vs)))"
    using read_lines_concat [of "[]" pieces] assms(3) by (simp add: e take_lines.simps [of "[]"] comp_def)
  then have "read_lines [] pieces = (map encode_text vs, [])"
    using take_lines_commands [of "map encode_text vs"] assms(2) by (simp add: list_all_iff)
  with assms(1) show ?thesis by (simp add: decode_line_ascii list_all_iff)
qed

theorem commands_received_witness:
  "read_lines [] [encode_text ''USER a'', [13], [10, 80], encode_text (''WD'' @ crlf)] = ([encode_text ''USER a'', encode_text ''PWD''], [])"
proof -
  have "list_all ascii [''USER a'', ''PWD'']" "list_all (\<lambda>v. split_crlf (encode_text v) = None) [''USER a'', ''PWD'']"
    "concat [encode_text ''USER a'', [13], [10, 80], encode_text (''WD'' @ crlf)] = concat (map (\<lambda>v. encode_text (v @ crlf)) [''USER a'', ''PWD''])"
    by code_simp+
  from commands_received [OF this] show ?thesis by simp
qed

text \<open>C40: The address of a data connection survives the protocol: the client reads from the 227 reply the
  address and port the server put in, and the server reads from the client's PORT command, as sent and parsed,
  the address and port the client gave.\<close>

theorem data_address_roundtrip:
  assumes "list_all (\<lambda>v. 0 \<le> v \<and> v \<le> 255) [a, b, c, d]" "0 < p" "p < 65536"
    and "command = parse (strip (format_port_command (dotted [a, b, c, d]) p))"
  shows "parse_pasv_response (pasv_reply (dotted [a, b, c, d]) p @ crlf) = Inr (dotted [a, b, c, d], p)
    \<and> cmd_name command = ''PORT'' \<and> parse_port (cmd_argument command) = Some (dotted [a, b, c, d], p)"
proof -
  have n: "numbers [a, b, c, d]" "list_all (\<lambda>v. v \<le> 255) [a, b, c, d]" using assms(1) by (simp_all add: numbers_def)
  have pasv: "parse_pasv_response (pasv_reply (dotted [a, b, c, d]) p @ crlf) = Inr (dotted [a, b, c, d], p)"
    by (rule pasv_parsed) (use n assms in simp_all)
  note port = port_parsed [OF n assms(2,3)]
  have fields: "cmd_name command = ''PORT''"
    "cmd_argument command = join_with '','' (map show_int [a, b, c, d, p div 256, p mod 256])"
    unfolding assms(4) port(1) by simp_all
  show ?thesis unfolding fields by (intro conjI pasv port(2) refl)
qed

theorem data_address_roundtrip_witness:
  "parse_port (cmd_argument (parse (strip (format_port_command (dotted [192, 168, 0, 7]) 51234)))) = Some (dotted [192, 168, 0, 7], 51234)"
proof -
  have "list_all (\<lambda>v. 0 \<le> v \<and> v \<le> (255::int)) [192, 168, 0, 7]" by simp
  from data_address_roundtrip [OF this _ _ refl, of 51234] show ?thesis by simp
qed

section \<open>Listings\<close>

text \<open>An entry whose name starts with a closing code ends the client's reading of NLST too early: the rest of
  the listing is left in the buffer and is taken for the next reply.\<close>

lemma listing_cut_short:
  "map_option snd (bind_op recv_listing_reply (\<lambda>r. bind_op recv_listing_reply (\<lambda>r'. return_op (r, r')))
     (sample_client [encode_text (listing_reply [''a'', ''226 notes'', ''b''] @ crlf)]))
   = Some (Inr (''150 Here comes the directory listing.'' @ crlf @ ''a'' @ crlf @ ''226 notes'' @ crlf, ''b'' @ crlf))"
  by code_simp

end
