(* ===== verification/FTP_Server.thy ===== *)
theory FTP_Server
  imports Connection Handler_Frame
begin

text \<open>
  FTPServer of server/threaded_server.py: the accept loop, the session identifiers, the list of active clients
  and the shutdown, with one handler of server/client_handler.py per client. The clients share the file system
  and the counter of transfer identifiers; a step of the server is a step of one of its threads. A client sees
  the others only through what they share, so every connection of the server is a connection of the theory
  Connection, and what is shown there of one connection holds of all of them at once.
\<close>

section \<open>State\<close>

record handler_entry =
  he_session :: string
  he_addr :: address
  he_conn :: connection

record server =
  sr_host :: string
  sr_port :: int
  sr_root :: path
  sr_advertised :: "string option"
  sr_fs :: file_system
  sr_counter :: nat
  sr_running :: bool
  sr_socket :: bool
  sr_next_session :: nat
  sr_clients :: "handler_entry list"
  sr_active :: "nat list"
  sr_stopping :: "nat list"

text \<open>\<open>FTPServer.__init__\<close>: the root is created and the shared service made.\<close>

definition new_server :: "string \<Rightarrow> int \<Rightarrow> path \<Rightarrow> string option \<Rightarrow> nat \<Rightarrow> file_system \<Rightarrow> file_system \<times> (exn + server)" where
  "new_server host port root advertised counter fs =
     (case makedirs True fs root of
        (fs', Some e) \<Rightarrow> (fs', Inl e)
      | (fs', None) \<Rightarrow>
          (case service_root fs' root of
             Inl e \<Rightarrow> (fs', Inl e)
           | Inr service \<Rightarrow>
               (fs', Inr \<lparr>sr_host = host, sr_port = port, sr_root = root, sr_advertised = advertised, sr_fs = fs',
                  sr_counter = counter, sr_running = False, sr_socket = False, sr_next_session = 1, sr_clients = [],
                  sr_active = [], sr_stopping = []\<rparr>)))"

text \<open>start, up to the loop: the socket is bound to a port the system may have chosen.\<close>

definition start_server :: "int \<Rightarrow> server \<Rightarrow> server" where
  "start_server bound_port srv = srv\<lparr>sr_port := bound_port, sr_socket := True, sr_running := True\<rparr>"

definition next_session_id :: "server \<Rightarrow> string \<times> server" where
  "next_session_id srv = (CHR ''S'' # pad6 (sr_next_session srv), srv\<lparr>sr_next_session := sr_next_session srv + 1\<rparr>)"

text \<open>A handler is known by its number, in the order of the connections.\<close>

definition register_client :: "nat \<Rightarrow> server \<Rightarrow> server" where
  "register_client i srv = srv\<lparr>sr_active := sr_active srv @ [i]\<rparr>"

definition unregister_client :: "nat \<Rightarrow> server \<Rightarrow> server" where
  "unregister_client i srv = (if i \<in> set (sr_active srv) then srv\<lparr>sr_active := remove1 i (sr_active srv)\<rparr> else srv)"

definition active_client_count :: "server \<Rightarrow> nat" where
  "active_client_count srv = length (sr_active srv)"

definition active_sessions :: "server \<Rightarrow> (string \<times> string \<times> int \<times> bool) list" where
  "active_sessions srv = map (\<lambda>i. let e = sr_clients srv ! i in
     (he_session e, fst (he_addr e), snd (he_addr e), cn_phase (he_conn e) \<noteq> Closed)) (sr_active srv)"

text \<open>\<open>ClientHandler.__init__\<close>: the address for PASV replies; own is what getsockname gives, None where it raises.\<close>

definition server_ip_for :: "string option \<Rightarrow> string option \<Rightarrow> string" where
  "server_ip_for advertised own =
     (case own of
        None \<Rightarrow> ''127.0.0.1''
      | Some ip \<Rightarrow> (case advertised of Some a \<Rightarrow> if a \<noteq> [] then a else ip | None \<Rightarrow> ip))"

text \<open>stop, up to the cleaning of the clients that are active then.\<close>

definition begin_stop :: "server \<Rightarrow> server" where
  "begin_stop srv = srv\<lparr>sr_running := False, sr_socket := False, sr_stopping := sr_active srv\<rparr>"

text \<open>One turn of the accept loop with a client: its handler is made, registered and started; an OSError stops the server.\<close>

definition accept_client :: "address \<Rightarrow> string option \<Rightarrow> server \<Rightarrow> server" where
  "accept_client addr own srv =
     (case next_session_id srv of
        (sid, srv1) \<Rightarrow>
          (case makedirs True (sr_fs srv1) (sr_root srv1) of
             (fs', Some e) \<Rightarrow> begin_stop (srv1\<lparr>sr_fs := fs'\<rparr>)
           | (fs', None) \<Rightarrow>
               let conn = new_connection fs' (sr_counter srv1) (sr_root srv1) sid (Some (fst addr))
                            (Some (server_ip_for (sr_advertised srv1) own));
                   entry = \<lparr>he_session = sid, he_addr = addr, he_conn = conn\<rparr>
               in register_client (length (sr_clients srv1))
                    (srv1\<lparr>sr_fs := fs', sr_clients := sr_clients srv1 @ [entry]\<rparr>)))"

section \<open>Sharing\<close>

text \<open>A connection with what is shared, and the server after a step of it.\<close>

definition share :: "server \<Rightarrow> connection \<Rightarrow> connection" where
  "share srv c = c\<lparr>cn_state := (cn_state c)\<lparr>sv_fs := sr_fs srv, sv_counter := sr_counter srv\<rparr>\<rparr>"

definition client_conn :: "server \<Rightarrow> nat \<Rightarrow> connection" where
  "client_conn srv i = share srv (he_conn (sr_clients srv ! i))"

definition put_conn :: "nat \<Rightarrow> connection \<Rightarrow> server \<Rightarrow> server" where
  "put_conn i c srv = srv\<lparr>sr_fs := sv_fs (cn_state c), sr_counter := sv_counter (cn_state c),
     sr_clients := (sr_clients srv)[i := (sr_clients srv ! i)\<lparr>he_conn := c\<rparr>]\<rparr>"

section \<open>Steps\<close>

text \<open>
  Lost is the end of the accept loop by an OSError or an interrupt; Outside is what other programs do to the
  tree, and transfers that outlived the cleanup of their handler.
\<close>

inductive server_step :: "(file_system \<Rightarrow> bool) \<Rightarrow> (world \<Rightarrow> bool) \<Rightarrow> server \<Rightarrow> server \<Rightarrow> bool" for tree_ok wok where
  Listen: "\<not> sr_socket srv \<Longrightarrow> sr_stopping srv = [] \<Longrightarrow> server_step tree_ok wok srv (start_server port srv)"
| Accept: "sr_running srv \<Longrightarrow> server_step tree_ok wok srv (accept_client addr own srv)"
| Lost: "sr_running srv \<Longrightarrow> server_step tree_ok wok srv (begin_stop srv)"
| Client: "i < length (sr_clients srv) \<Longrightarrow> handler_step (sr_root srv) wok (client_conn srv i) c' \<Longrightarrow>
    server_step tree_ok wok srv (if cn_phase c' = Closed then unregister_client i (put_conn i c' srv) else put_conn i c' srv)"
| Stop_Client: "sr_stopping srv = i # rest \<Longrightarrow>
    server_step tree_ok wok srv (unregister_client i (put_conn i (cleanup (client_conn srv i)) (srv\<lparr>sr_stopping := rest\<rparr>)))"
| Outside: "tree_ok fs \<Longrightarrow> server_step tree_ok wok srv (srv\<lparr>sr_fs := fs\<rparr>)"

inductive_cases server_stepE: "server_step tree_ok wok srv srv'"

inductive server_reach :: "(file_system \<Rightarrow> bool) \<Rightarrow> (world \<Rightarrow> bool) \<Rightarrow> server \<Rightarrow> server \<Rightarrow> bool" for tree_ok wok srv0 where
  begin_run: "server_reach tree_ok wok srv0 srv0"
| run_step: "server_reach tree_ok wok srv0 srv \<Longrightarrow> server_step tree_ok wok srv srv' \<Longrightarrow> server_reach tree_ok wok srv0 srv'"

section \<open>Facts about the parts\<close>

lemma makedirs_root: "good_root fs root \<Longrightarrow> makedirs True fs root = (fs, None)"
proof -
  assume g: "good_root fs root"
  then have wf: "fs_wf fs" and p: "plain fs root" and ne: "root \<noteq> []" and d: "is_dir fs root" by (simp_all add: good_root_def)
  have b: "is_dir fs (butlast root)" using wf_ancestors [OF wf, of "butlast root" "[last root]"] d ne by simp
  then have "path_exists fs (butlast root)" using exists_plain [OF wf plain_butlast [OF p]] by (auto simp: is_dir_def split: option.splits)
  moreover have "sys_mkdir fs root = Inl EEXIST"
    using locate_plain [OF wf p, of root] b d by (auto simp: sys_mkdir_def is_dir_def split: option.splits)
  moreover have "path_isdir fs root" using isdir_plain [OF wf p] d by simp
  ultimately show ?thesis by (simp add: makedirs.simps [of True fs root])
qed

lemma pad6_inject: "pad6 m = pad6 n \<Longrightarrow> m = n"
proof -
  let ?num = "foldl (\<lambda>m c. 10 * m + digit_value c) 0"
  have zero: "digit_value (CHR ''0'') = 0" by code_simp
  have z: "?num (replicate k (CHR ''0'')) = 0" for k
    by (induction k) (simp_all add: zero)
  have v: "?num (pad6 n) = n" for n
    unfolding pad6_def Let_def foldl_append z by (rule foldl_show_nat)
  assume "pad6 m = pad6 n"
  then have "?num (pad6 m) = ?num (pad6 n)" by simp
  then show "m = n" unfolding v .
qed

text \<open>No step of a handler takes the counter of transfer identifiers back.\<close>

lemma counter_line:
  assumes "handle_line root env line c = Some c'"
  shows "sv_counter (cn_state c) \<le> sv_counter (cn_state c')"
proof (cases "decode_line line")
  case (Plain raw)
  obtain st r where h: "handle (Some root) env (parse raw) (cn_state c) = (st, r)" by (metis surj_pair)
  have "sv_counter (cn_state c) \<le> sv_counter st"
    using handle_counter [of "cn_state c" "Some root" env "parse raw"] by (simp add: h)
  then show ?thesis using assms by (cases r) (auto simp: handle_line_def Plain h Let_def)
qed (use assms in \<open>auto simp: handle_line_def\<close>)

lemma counter_worker:
  "begin_worker st = Some st' \<Longrightarrow> sv_counter st' = sv_counter st"
  "finish_worker wd root st = Some st' \<Longrightarrow> sv_counter st' = sv_counter st"
  "report_worker c = Some c' \<Longrightarrow> sv_counter (cn_state c') = sv_counter (cn_state c)"
  by (auto simp: begin_worker_def finish_worker_def report_worker_def send_text_def
      split: option.splits worker_phase.splits prod.splits if_splits)

lemma counter_cleanup: "sv_counter (cleanup_state st) = sv_counter st"
  by (simp add: cleanup_state_def cancel_transfer_def cancel_def Let_def)

lemma counter_step:
  assumes "handler_step root wok c c'"
  shows "sv_counter (cn_state c) \<le> sv_counter (cn_state c')"
  using assms
proof (cases rule: handler_step.cases)
  case (Line line rest env)
  then show ?thesis using counter_line [OF Line(3)] by simp
qed (auto simp: send_text_def answer_line_def cleanup_def counter_cleanup counter_worker)

lemma share_simps [simp]:
  "cn_phase (share srv c) = cn_phase c" "cn_open (share srv c) = cn_open c"
  "sv_fs (cn_state (share srv c)) = sr_fs srv" "sv_counter (cn_state (share srv c)) = sr_counter srv"
  by (simp_all add: share_def)

lemma share_again: "share srv' c = (share srv c)\<lparr>cn_state := (cn_state (share srv c))\<lparr>sv_fs := sr_fs srv', sv_counter := sr_counter srv'\<rparr>\<rparr>"
  by (simp add: share_def)

lemma share_same: "sr_fs srv = sv_fs (cn_state c) \<Longrightarrow> sr_counter srv = sv_counter (cn_state c) \<Longrightarrow> share srv c = c"
  by (simp add: share_def)

lemma put_conn_simps [simp]:
  "sr_root (put_conn i c srv) = sr_root srv" "sr_running (put_conn i c srv) = sr_running srv" "sr_active (put_conn i c srv) = sr_active srv"
  "sr_stopping (put_conn i c srv) = sr_stopping srv" "sr_next_session (put_conn i c srv) = sr_next_session srv"
  "sr_fs (put_conn i c srv) = sv_fs (cn_state c)" "sr_counter (put_conn i c srv) = sv_counter (cn_state c)"
  "length (sr_clients (put_conn i c srv)) = length (sr_clients srv)"
  by (simp_all add: put_conn_def)

lemma unregister_simps [simp]:
  "sr_root (unregister_client i srv) = sr_root srv" "sr_running (unregister_client i srv) = sr_running srv" "sr_clients (unregister_client i srv) = sr_clients srv"
  "sr_stopping (unregister_client i srv) = sr_stopping srv" "sr_next_session (unregister_client i srv) = sr_next_session srv"
  "sr_fs (unregister_client i srv) = sr_fs srv" "sr_counter (unregister_client i srv) = sr_counter srv"
  "sr_active (unregister_client i srv) = remove1 i (sr_active srv)"
  by (simp_all add: unregister_client_def remove1_idem)

lemma client_conn_cong:
  "sr_fs srv' = sr_fs srv \<Longrightarrow> sr_counter srv' = sr_counter srv \<Longrightarrow> sr_clients srv' = sr_clients srv \<Longrightarrow> client_conn srv' i = client_conn srv i"
  by (simp add: client_conn_def share_def)

lemma client_conn_put:
  assumes "i < length (sr_clients srv)"
  shows "client_conn (put_conn i c srv) j = (if j = i then c else share (put_conn i c srv) (he_conn (sr_clients srv ! j)))"
  using assms by (simp add: client_conn_def put_conn_def share_def)

lemma put_conn_entry:
  "i < length (sr_clients srv) \<Longrightarrow> j < length (sr_clients srv) \<Longrightarrow>
     sr_clients (put_conn i c srv) ! j = (if j = i then (sr_clients srv ! i)\<lparr>he_conn := c\<rparr> else sr_clients srv ! j)"
  by (simp add: put_conn_def)

section \<open>The invariant\<close>

text \<open>The connection of a client is one of the single-connection model.\<close>

definition simulated :: "path \<Rightarrow> file_system \<Rightarrow> handler_entry \<Rightarrow> connection \<Rightarrow> bool" where
  "simulated root fs0 e c \<longleftrightarrow> (\<exists>fs n own. store_inv root fs0 fs
     \<and> conn_reach root (store_inv root fs0) world_ok
         (new_connection fs n root (he_session e) (Some (fst (he_addr e))) (Some own)) c)"

definition roster_ok :: "server \<Rightarrow> bool" where
  "roster_ok srv \<longleftrightarrow> sr_next_session srv = length (sr_clients srv) + 1
     \<and> (\<forall>i<length (sr_clients srv). he_session (sr_clients srv ! i) = CHR ''S'' # pad6 (i + 1))
     \<and> (\<forall>i<length (sr_clients srv). cn_phase (he_conn (sr_clients srv ! i)) = Closed \<longrightarrow> \<not> cn_open (he_conn (sr_clients srv ! i)))
     \<and> distinct (sr_active srv)
     \<and> set (sr_active srv) = {i. i < length (sr_clients srv) \<and> cn_open (he_conn (sr_clients srv ! i))}
     \<and> set (sr_stopping srv) \<subseteq> {..<length (sr_clients srv)}"

definition server_ok :: "path \<Rightarrow> file_system \<Rightarrow> server \<Rightarrow> bool" where
  "server_ok root fs0 srv \<longleftrightarrow> sr_root srv = root \<and> store_inv root fs0 (sr_fs srv) \<and> links_outside root fs0 \<and> roster_ok srv
     \<and> (\<forall>i<length (sr_clients srv). simulated root fs0 (sr_clients srv ! i) (client_conn srv i))"

lemma simulated_ok: "simulated root fs0 e c \<Longrightarrow> links_outside root fs0 \<Longrightarrow> conn_ok root fs0 c"
  unfolding simulated_def using conn_reach_ok new_connection_ok by blast

lemma simulated_step: "simulated root fs0 e c \<Longrightarrow> conn_step root (store_inv root fs0) world_ok c c' \<Longrightarrow> simulated root fs0 e c'"
  unfolding simulated_def by (meson conn_reach.step)

lemma simulated_entry: "he_session e' = he_session e \<Longrightarrow> he_addr e' = he_addr e \<Longrightarrow> simulated root fs0 e' c = simulated root fs0 e c"
  by (simp add: simulated_def)

lemma conn_ok_tree: "conn_ok root fs0 c \<Longrightarrow> store_inv root fs0 (sv_fs (cn_state c))"
  by (simp add: conn_ok_def session_ok_def)

text \<open>What the step of one connection leaves of the others.\<close>

lemma simulated_share:
  assumes "simulated root fs0 e (share srv c)" "store_inv root fs0 (sr_fs srv')" "sr_counter srv \<le> sr_counter srv'"
  shows "simulated root fs0 e (share srv' c)"
  by (subst share_again [of srv' c srv]) (rule simulated_step [OF assms(1) conn_step.Others], use assms in simp_all)

lemma step_clients:
  assumes ok: "server_ok root fs0 srv" and i: "i < length (sr_clients srv)"
    and step: "conn_step root (store_inv root fs0) world_ok (client_conn srv i) c'" and count: "sr_counter srv \<le> sv_counter (cn_state c')"
  shows "store_inv root fs0 (sv_fs (cn_state c'))"
    "\<forall>j<length (sr_clients srv). simulated root fs0 (sr_clients (put_conn i c' srv) ! j) (client_conn (put_conn i c' srv) j)"
proof -
  have sim: "simulated root fs0 (sr_clients srv ! j) (client_conn srv j)" if "j < length (sr_clients srv)" for j
    using ok that by (simp add: server_ok_def)
  have new: "simulated root fs0 (sr_clients srv ! i) c'" by (rule simulated_step [OF sim [OF i] step])
  have "links_outside root fs0" using ok by (simp add: server_ok_def)
  from conn_ok_tree [OF simulated_ok [OF new this]] show tree: "store_inv root fs0 (sv_fs (cn_state c'))" .
  show "\<forall>j<length (sr_clients srv). simulated root fs0 (sr_clients (put_conn i c' srv) ! j) (client_conn (put_conn i c' srv) j)"
  proof (intro allI impI)
    fix j assume j: "j < length (sr_clients srv)"
    show "simulated root fs0 (sr_clients (put_conn i c' srv) ! j) (client_conn (put_conn i c' srv) j)"
    proof (cases "j = i")
      case True
      have "simulated root fs0 ((sr_clients srv ! i)\<lparr>he_conn := c'\<rparr>) c'"
        using new simulated_entry [of "(sr_clients srv ! i)\<lparr>he_conn := c'\<rparr>" "sr_clients srv ! i"] by simp
      then show ?thesis unfolding True client_conn_put [OF i] put_conn_entry [OF i i] by simp
    next
      case False
      have "simulated root fs0 (sr_clients srv ! j) (share (put_conn i c' srv) (he_conn (sr_clients srv ! j)))"
        by (rule simulated_share [OF sim [OF j, unfolded client_conn_def]]) (use tree count in simp_all)
      then show ?thesis by (simp only: client_conn_put [OF i] put_conn_entry [OF i j] False if_False)
    qed
  qed
qed

text \<open>How a step of a handler changes what the roster sees.\<close>

lemma handler_open:
  assumes "handler_step root wok c c'" "cn_phase c = Closed \<longrightarrow> \<not> cn_open c"
  shows "cn_open c' \<longleftrightarrow> cn_open c \<and> cn_phase c' \<noteq> Closed"
  using assms
proof (cases rule: handler_step.cases)
  case (Line line rest env)
  then show ?thesis by (auto simp: handle_line_def Let_def split: line_text.splits prod.splits sum.splits)
qed (auto simp: send_text_def answer_line_def cleanup_def report_worker_def split: option.splits worker_phase.splits if_splits)

lemma roster_put:
  assumes r: "roster_ok srv" and i: "i < length (sr_clients srv)"
    and o1: "cn_open c' \<longleftrightarrow> cn_open (he_conn (sr_clients srv ! i)) \<and> \<not> closed" and o2: "cn_phase c' = Closed \<longrightarrow> \<not> cn_open c'"
  shows "roster_ok (if closed then unregister_client i (put_conn i c' srv) else put_conn i c' srv)"
proof -
  let ?srv = "if closed then unregister_client i (put_conn i c' srv) else put_conn i c' srv"
  have n: "length (sr_clients ?srv) = length (sr_clients srv)" by simp
  have e: "sr_clients ?srv ! j = (if j = i then (sr_clients srv ! i)\<lparr>he_conn := c'\<rparr> else sr_clients srv ! j)"
    if "j < length (sr_clients srv)" for j using put_conn_entry [OF i that, of c'] by (cases "j = i") simp_all
  define cs where "cs = sr_clients ?srv"
  note n = n [folded cs_def] and e = e [folded cs_def]
  have d: "distinct (sr_active srv)" using r by (simp add: roster_ok_def)
  have a: "set (sr_active ?srv) = {j. j < length (sr_clients srv) \<and> cn_open (he_conn (sr_clients srv ! j))} - (if closed then {i} else {})"
    using r by (simp add: roster_ok_def set_remove1_eq [OF d])
  have "set (sr_active ?srv) = {j. j < length cs \<and> cn_open (he_conn (cs ! j))}"
    unfolding a n
  proof (rule set_eqI)
    fix j
    show "j \<in> {j. j < length (sr_clients srv) \<and> cn_open (he_conn (sr_clients srv ! j))} - (if closed then {i} else {}) \<longleftrightarrow>
      j \<in> {j. j < length (sr_clients srv) \<and> cn_open (he_conn (cs ! j))}"
      using i o1 e [of j] by (cases "j = i") auto
  qed
  moreover have "distinct (sr_active ?srv)" using d by simp
  moreover have "\<forall>j<length cs. he_session (cs ! j) = CHR ''S'' # pad6 (j + 1)"
    using r e n by (auto simp: roster_ok_def)
  moreover have "\<forall>j<length cs. cn_phase (he_conn (cs ! j)) = Closed \<longrightarrow> \<not> cn_open (he_conn (cs ! j))"
    using r o2 e n by (auto simp: roster_ok_def)
  moreover have "sr_next_session ?srv = length cs + 1" "set (sr_stopping ?srv) \<subseteq> {..<length cs}"
    using r n by (simp_all add: roster_ok_def)
  ultimately show ?thesis unfolding roster_ok_def cs_def [symmetric] by blast
qed

lemma register_simps [simp]:
  "sr_root (register_client i srv) = sr_root srv" "sr_clients (register_client i srv) = sr_clients srv"
  "sr_stopping (register_client i srv) = sr_stopping srv" "sr_next_session (register_client i srv) = sr_next_session srv"
  "sr_fs (register_client i srv) = sr_fs srv" "sr_counter (register_client i srv) = sr_counter srv"
  "sr_active (register_client i srv) = sr_active srv @ [i]"
  by (simp_all add: register_client_def)

text \<open>With the root in place a client is always accepted.\<close>

lemma accept_client_root:
  assumes "good_root (sr_fs srv) (sr_root srv)"
  shows "accept_client addr own srv =
    register_client (length (sr_clients srv)) (srv\<lparr>sr_next_session := sr_next_session srv + 1,
      sr_clients := sr_clients srv @ [\<lparr>he_session = CHR ''S'' # pad6 (sr_next_session srv), he_addr = addr,
        he_conn = new_connection (sr_fs srv) (sr_counter srv) (sr_root srv) (CHR ''S'' # pad6 (sr_next_session srv))
          (Some (fst addr)) (Some (server_ip_for (sr_advertised srv) own))\<rparr>]\<rparr>)"
  using makedirs_root [OF assms] by (simp add: accept_client_def next_session_id_def Let_def)

lemma accept_ok:
  assumes ok: "server_ok root fs0 srv"
  shows "server_ok root fs0 (accept_client addr own srv)"
proof -
  let ?n = "length (sr_clients srv)" and ?sid = "CHR ''S'' # pad6 (sr_next_session srv)"
  let ?conn = "new_connection (sr_fs srv) (sr_counter srv) (sr_root srv) ?sid (Some (fst addr)) (Some (server_ip_for (sr_advertised srv) own))"
  let ?e = "\<lparr>he_session = ?sid, he_addr = addr, he_conn = ?conn\<rparr>"
  define srv' where "srv' = accept_client addr own srv"
  have root: "sr_root srv = root" and tree: "store_inv root fs0 (sr_fs srv)" and r: "roster_ok srv"
    and links: "links_outside root fs0" using ok by (simp_all add: server_ok_def)
  have "good_root (sr_fs srv) (sr_root srv)" using tree root by (simp add: store_inv_def)
  from accept_client_root [OF this] have srv': "srv' = register_client ?n (srv\<lparr>sr_next_session := sr_next_session srv + 1,
      sr_clients := sr_clients srv @ [?e]\<rparr>)" by (simp add: srv'_def)
  have parts: "sr_root srv' = root" "sr_fs srv' = sr_fs srv" "sr_counter srv' = sr_counter srv" "sr_clients srv' = sr_clients srv @ [?e]"
    "sr_active srv' = sr_active srv @ [?n]" "sr_stopping srv' = sr_stopping srv" "sr_next_session srv' = sr_next_session srv + 1"
    using root by (simp_all add: srv')
  have sid: "sr_next_session srv = ?n + 1" using r by (simp add: roster_ok_def)
  have conn: "share srv' ?conn = ?conn" by (rule share_same) (simp_all add: parts new_connection_def)
  have "simulated root fs0 ?e ?conn" unfolding simulated_def
    by (intro exI [of _ "sr_fs srv"] exI [of _ "sr_counter srv"] exI [of _ "server_ip_for (sr_advertised srv) own"] conjI tree)
      (simp add: root conn_reach.start)
  then have new: "simulated root fs0 (sr_clients srv' ! ?n) (client_conn srv' ?n)" by (simp add: client_conn_def parts(4) conn)
  have old: "simulated root fs0 (sr_clients srv' ! i) (client_conn srv' i)" if "i < ?n" for i
    using ok that by (simp add: server_ok_def client_conn_def share_def parts nth_append)
  have sim: "\<forall>i<length (sr_clients srv'). simulated root fs0 (sr_clients srv' ! i) (client_conn srv' i)"
    using old new by (simp add: parts(4) less_Suc_eq)
  have o: "cn_open ?conn" "cn_phase ?conn \<noteq> Closed" by (simp_all add: new_connection_def)
  have "roster_ok srv'"
    unfolding roster_ok_def parts length_append
  proof (intro conjI)
    show "set (sr_active srv @ [?n]) = {i. i < ?n + length [?e] \<and> cn_open (he_conn ((sr_clients srv @ [?e]) ! i))}"
      using r o(1) by (auto simp: roster_ok_def nth_append less_Suc_eq)
    show "distinct (sr_active srv @ [?n])" using r by (auto simp: roster_ok_def)
    show "set (sr_stopping srv) \<subseteq> {..<?n + length [?e]}" using r by (auto simp: roster_ok_def)
  qed (use r o sid in \<open>auto simp: roster_ok_def nth_append less_Suc_eq\<close>)
  with sim tree links show ?thesis unfolding srv'_def [symmetric] by (simp add: server_ok_def parts)
qed

text \<open>A step of a client, and of the cleanup that stops it.\<close>

lemma client_step_ok:
  assumes ok: "server_ok root fs0 srv" and i: "i < length (sr_clients srv)"
    and step: "conn_step root (store_inv root fs0) world_ok (client_conn srv i) c'" and count: "sr_counter srv \<le> sv_counter (cn_state c')"
    and o: "cn_open c' \<longleftrightarrow> cn_open (he_conn (sr_clients srv ! i)) \<and> \<not> closed" "cn_phase c' = Closed \<longrightarrow> \<not> cn_open c'"
  shows "server_ok root fs0 (if closed then unregister_client i (put_conn i c' srv) else put_conn i c' srv)"
proof -
  note s = step_clients [OF ok i step count]
  have "roster_ok srv" using ok by (simp add: server_ok_def)
  note r = roster_put [OF this i o]
  have "client_conn (unregister_client i (put_conn i c' srv)) j = client_conn (put_conn i c' srv) j" for j
    by (rule client_conn_cong) simp_all
  with s r ok show ?thesis by (cases closed) (simp_all add: server_ok_def)
qed

lemma server_step_ok:
  assumes step: "server_step (store_inv root fs0) world_ok srv srv'" and ok: "server_ok root fs0 srv"
  shows "server_ok root fs0 srv'"
  using step
proof (cases rule: server_step.cases)
  case (Listen port)
  then show ?thesis using ok by (simp add: start_server_def server_ok_def roster_ok_def client_conn_def share_def)
next
  case (Accept addr own)
  then show ?thesis using accept_ok [OF ok] by simp
next
  case Lost
  have "set (sr_active srv) \<subseteq> {..<length (sr_clients srv)}" using ok by (auto simp: server_ok_def roster_ok_def)
  with Lost ok show ?thesis by (simp add: begin_stop_def server_ok_def roster_ok_def client_conn_def share_def)
next
  case (Client i c')
  have root: "sr_root srv = root" and r: "roster_ok srv" using ok by (simp_all add: server_ok_def)
  have h: "handler_step root world_ok (client_conn srv i) c'" using Client(3) by (simp add: root)
  have p: "cn_phase (client_conn srv i) = Closed \<longrightarrow> \<not> cn_open (client_conn srv i)"
    using r Client(2) by (simp add: roster_ok_def client_conn_def)
  have "sr_counter srv \<le> sv_counter (cn_state c')" using counter_step [OF h] by (simp add: client_conn_def)
  from client_step_ok [OF ok Client(2) conn_step.Own [OF h] this, of "cn_phase c' = Closed"] handler_open [OF h p]
  show ?thesis by (simp add: Client(1) client_conn_def)
next
  case (Stop_Client i rest)
  let ?srv = "srv\<lparr>sr_stopping := rest\<rparr>"
  have i: "i < length (sr_clients ?srv)" using Stop_Client(2) ok by (simp add: server_ok_def roster_ok_def)
  have ok': "server_ok root fs0 ?srv" using ok Stop_Client(2) by (simp add: server_ok_def roster_ok_def client_conn_def share_def)
  have c: "client_conn ?srv i = client_conn srv i" by (rule client_conn_cong) simp_all
  have "conn_step root (store_inv root fs0) world_ok (client_conn ?srv i) (cleanup (client_conn srv i))"
    unfolding c by (rule conn_step.Stop)
  from client_step_ok [OF ok' i this, of True] show ?thesis
    by (simp add: Stop_Client(1) cleanup_def counter_cleanup client_conn_def)
next
  case (Outside fs)
  have "simulated root fs0 (sr_clients srv ! i) (client_conn srv' i)" if "i < length (sr_clients srv)" for i
    using simulated_share [of root fs0 "sr_clients srv ! i" srv "he_conn (sr_clients srv ! i)" srv'] ok that Outside
    by (simp add: server_ok_def client_conn_def)
  then show ?thesis using ok Outside by (simp add: server_ok_def roster_ok_def)
qed

lemma server_reach_ok:
  "server_reach (store_inv root fs0) world_ok srv0 srv \<Longrightarrow> server_ok root fs0 srv0 \<Longrightarrow> server_ok root fs0 srv"
  by (induction rule: server_reach.induct) (auto intro: server_step_ok)

lemma new_server_ok:
  assumes "good_root fs root" "loop_free fs" "links_outside root fs" "new_server host port root adv n fs = (fs', Inr srv)"
  shows "server_ok root fs srv" "fs' = fs"
proof -
  have p: "path_isdir fs root" using assms(1) isdir_plain by (auto simp: good_root_def)
  have "new_server host port root adv n fs = (fs, Inr \<lparr>sr_host = host, sr_port = port, sr_root = root, sr_advertised = adv,
      sr_fs = fs, sr_counter = n, sr_running = False, sr_socket = False, sr_next_session = 1, sr_clients = [], sr_active = [], sr_stopping = []\<rparr>)"
    using makedirs_root [OF assms(1)] p by (simp add: new_server_def service_root_def good_root_real [OF assms(1)])
  with assms show "server_ok root fs srv" "fs' = fs" by (auto simp: server_ok_def roster_ok_def store_inv_def)
qed

text \<open>A server that does not run has only clients left that its stop is going to clean up.\<close>

definition stop_ok :: "server \<Rightarrow> bool" where
  "stop_ok srv \<longleftrightarrow> (\<not> sr_running srv \<longrightarrow> set (sr_active srv) \<subseteq> set (sr_stopping srv))"

lemma server_step_stop:
  assumes step: "server_step (store_inv root fs0) world_ok srv srv'" and ok: "server_ok root fs0 srv" and stop: "stop_ok srv"
  shows "stop_ok srv'"
  using step
proof (cases rule: server_step.cases)
  case (Accept addr own)
  have "good_root (sr_fs srv) (sr_root srv)" using ok by (simp add: server_ok_def store_inv_def)
  from accept_client_root [OF this] Accept show ?thesis by (simp add: stop_ok_def register_client_def)
next
  case (Client i c')
  then show ?thesis using stop notin_set_remove1 by (fastforce simp: stop_ok_def)
next
  case (Stop_Client i rest)
  have d: "distinct (sr_active srv)" using ok by (simp add: server_ok_def roster_ok_def)
  show ?thesis using stop Stop_Client by (auto simp: stop_ok_def set_remove1_eq [OF d])
qed (use stop in \<open>simp_all add: stop_ok_def start_server_def begin_stop_def\<close>)

lemma server_reach_stop:
  "server_reach (store_inv root fs0) world_ok srv0 srv \<Longrightarrow> server_ok root fs0 srv0 \<Longrightarrow> stop_ok srv0 \<Longrightarrow> stop_ok srv"
  by (induction rule: server_reach.induct) (auto intro: server_step_stop server_reach_ok)

lemma roster_ids:
  assumes "roster_ok srv"
  shows "distinct (map he_session (sr_clients srv))"
proof (rule distinct_conv_nth [THEN iffD2], intro allI impI)
  fix i j assume "i < length (map he_session (sr_clients srv))" "j < length (map he_session (sr_clients srv))" "i \<noteq> j"
  then show "map he_session (sr_clients srv) ! i \<noteq> map he_session (sr_clients srv) ! j"
    using assms pad6_inject [of "i + 1" "j + 1"] by (auto simp: roster_ok_def)
qed

section \<open>Executed runs\<close>

datatype server_action = DoListen int | DoAccept address "string option" | DoClient nat action | DoLost | DoStop

fun serve :: "server_action \<Rightarrow> server \<Rightarrow> server option" where
  "serve (DoListen port) srv = (if \<not> sr_socket srv \<and> sr_stopping srv = [] then Some (start_server port srv) else None)"
| "serve (DoAccept addr own) srv = (if sr_running srv then Some (accept_client addr own srv) else None)"
| "serve (DoClient i a) srv =
     (if i < length (sr_clients srv) then
        map_option (\<lambda>c. if cn_phase c = Closed then unregister_client i (put_conn i c srv) else put_conn i c srv)
          (perform (sr_root srv) a (client_conn srv i))
      else None)"
| "serve DoLost srv = (if sr_running srv then Some (begin_stop srv) else None)"
| "serve DoStop srv =
     (case sr_stopping srv of
        [] \<Rightarrow> None
      | i # rest \<Rightarrow> Some (unregister_client i (put_conn i (cleanup (client_conn srv i)) (srv\<lparr>sr_stopping := rest\<rparr>))))"

fun serve_all :: "server_action list \<Rightarrow> server \<Rightarrow> server option" where
  "serve_all [] srv = Some srv"
| "serve_all (a # as) srv = (case serve a srv of None \<Rightarrow> None | Some srv' \<Rightarrow> serve_all as srv')"

lemma serve_step: "serve a srv = Some srv' \<Longrightarrow> server_step tree_ok world_ok srv srv'"
proof (cases a)
  case (DoClient i b)
  assume "serve a srv = Some srv'"
  with DoClient obtain c where c: "i < length (sr_clients srv)" "perform (sr_root srv) b (client_conn srv i) = Some c"
    "srv' = (if cn_phase c = Closed then unregister_client i (put_conn i c srv) else put_conn i c srv)"
    by (auto split: if_splits)
  show ?thesis unfolding c(3) by (rule server_step.Client [OF c(1) perform_handler [OF c(2)]])
qed (auto split: if_splits list.splits intro: server_step.intros)

lemma serve_reach:
  "serve_all as srv = Some srv' \<Longrightarrow> server_reach tree_ok world_ok srv0 srv \<Longrightarrow> server_reach tree_ok world_ok srv0 srv'"
proof (induction as arbitrary: srv)
  case (Cons a as)
  then obtain srv1 where s: "serve a srv = Some srv1" "serve_all as srv1 = Some srv'" by (auto split: option.splits)
  show ?case by (rule Cons.IH [OF s(2) server_reach.run_step [OF Cons.prems(2) serve_step [OF s(1)]]])
qed simp

definition sample_server :: "exn + server" where
  "sample_server = snd (new_server ''0.0.0.0'' 0 sample_root None 1 clean_tree)"

text \<open>Two clients; the first logs in and asks for a transfer, the second leaves; then the server is stopped.\<close>

definition sample_service :: "server_action list" where
  "sample_service =
     [DoListen 2121, DoAccept (''10.0.0.1'', 5000) (Some ''10.0.0.9''), DoAccept (''10.0.0.2'', 5001) None]
     @ map (DoClient 0) (take 10 sample_actions) @ map (DoClient 1) [DoGreet, DoHangUp, DoCleanup]"

definition served :: "server_action list \<Rightarrow> (server \<Rightarrow> bool) \<Rightarrow> bool" where
  "served as P \<longleftrightarrow> (case sample_server of Inl e \<Rightarrow> False | Inr srv \<Rightarrow> (case serve_all as srv of None \<Rightarrow> False | Some srv' \<Rightarrow> P srv'))"

lemma servedE:
  assumes "served as P"
  obtains fs' srv0 srv where "new_server ''0.0.0.0'' 0 sample_root None 1 clean_tree = (fs', Inr srv0)"
    "server_reach (store_inv sample_root clean_tree) world_ok srv0 srv" "P srv"
proof -
  obtain fs' r where n: "new_server ''0.0.0.0'' 0 sample_root None 1 clean_tree = (fs', r)" by (metis surj_pair)
  then have s: "sample_server = r" by (simp add: sample_server_def)
  have v: "case r of Inl e \<Rightarrow> False | Inr srv \<Rightarrow> (case serve_all as srv of None \<Rightarrow> False | Some srv' \<Rightarrow> P srv')"
    using assms unfolding served_def s .
  then have "\<exists>srv0. r = Inr srv0" by (cases r) simp_all
  then obtain srv0 where r: "r = Inr srv0" by blast
  with v obtain srv where v: "serve_all as srv0 = Some srv" "P srv" by (auto split: option.splits)
  show thesis by (rule that [OF n [unfolded r] serve_reach [OF v(1) server_reach.begin_run] v(2)])
qed

section \<open>Properties\<close>

text \<open>C30: However the steps of all clients, their transfers, the accept loop and the shutdown interleave, every
  client's connection behaves as a single connection whose surroundings change the tree within the invariant:
  so in every state of the server each open connection has reported every transfer it announced but at most the
  one that runs, and its working directory is a canonical path inside the root of a well-formed tree.\<close>

theorem server_refines_connection:
  assumes "good_root fs root" "loop_free fs" "links_outside root fs"
    and "new_server host port root adv n fs = (fs', Inr srv0)" "server_reach (store_inv root fs) world_ok srv0 srv"
    and "i < length (sr_clients srv)" "e = sr_clients srv ! i" "c = client_conn srv i"
  shows "(\<exists>fs1 m own. conn_reach root (store_inv root fs) world_ok
       (new_connection fs1 m root (he_session e) (Some (fst (he_addr e))) (Some own)) c)
    \<and> (cn_open c \<longrightarrow> reports c + pending c = announcements c \<and> pending c \<le> 1)
    \<and> fs_wf (sr_fs srv) \<and> inside (sr_fs srv) root (current_dir (sv_session (cn_state c)))"
proof -
  have ok: "server_ok root fs srv" by (rule server_reach_ok [OF assms(5) new_server_ok(1) [OF assms(1-4)]])
  then have sim: "simulated root fs e c" using assms(6-8) by (simp add: server_ok_def)
  have c: "conn_ok root fs c" by (rule simulated_ok [OF sim assms(3)])
  have tree: "store_inv root fs (sr_fs srv)" using ok by (simp add: server_ok_def)
  then have "inside (sr_fs srv) root (current_dir (sv_session (cn_state c)))"
    using c inside_cong [of "sr_fs srv" fs] by (simp add: conn_ok_def session_ok_def store_inv_def)
  moreover have "fs_wf (sr_fs srv)" using tree by (simp add: store_inv_def good_root_def)
  ultimately show ?thesis using sim c by (auto simp: simulated_def conn_ok_def pending_def)
qed

theorem server_refines_connection_witness:
  "\<exists>srv :: server. length (sr_clients srv) = 2 \<and> pending (client_conn srv 0) = 1 \<and> reports (client_conn srv 0) = 0
     \<and> reports (client_conn srv 0) + pending (client_conn srv 0) = announcements (client_conn srv 0)"
proof -
  have v: "served sample_service (\<lambda>srv. length (sr_clients srv) = 2 \<and> cn_open (client_conn srv 0)
      \<and> pending (client_conn srv 0) = 1 \<and> reports (client_conn srv 0) = 0)" by code_simp
  obtain fs' srv0 srv where n: "new_server ''0.0.0.0'' 0 sample_root None 1 clean_tree = (fs', Inr srv0)"
    and r: "server_reach (store_inv sample_root clean_tree) world_ok srv0 srv"
    and p: "length (sr_clients srv) = 2 \<and> cn_open (client_conn srv 0) \<and> pending (client_conn srv 0) = 1 \<and> reports (client_conn srv 0) = 0"
    by (rule servedE [OF v])
  from p have "0 < length (sr_clients srv)" by simp
  from server_refines_connection [OF clean_good clean_loop_free clean_links n r this refl refl] p show ?thesis by blast
qed

text \<open>C31: The server's books are right in every reachable state: the session identifiers of all clients it ever
  had differ, the list of active clients has exactly the clients whose connection has not been cleaned up, each
  once and alive, and once a stop is complete no connection is open.\<close>

theorem server_roster:
  assumes "good_root fs root" "loop_free fs" "links_outside root fs"
    and "new_server host port root adv n fs = (fs', Inr srv0)" "server_reach (store_inv root fs) world_ok srv0 srv"
  shows "distinct (map he_session (sr_clients srv)) \<and> distinct (sr_active srv)
    \<and> set (sr_active srv) = {i. i < length (sr_clients srv) \<and> cn_open (he_conn (sr_clients srv ! i))}
    \<and> list_all (\<lambda>(sid, ip, port, alive). alive) (active_sessions srv)
    \<and> (\<not> sr_running srv \<and> sr_stopping srv = [] \<longrightarrow> (\<forall>e\<in>set (sr_clients srv). \<not> cn_open (he_conn e)))"
proof -
  have ok0: "server_ok root fs srv0" and s0: "stop_ok srv0" using new_server_ok(1) [OF assms(1-4)] assms(4)
    by (auto simp: new_server_def stop_ok_def split: prod.splits option.splits sum.splits)
  have r: "roster_ok srv" using server_reach_ok [OF assms(5) ok0] by (simp add: server_ok_def)
  have stop: "stop_ok srv" by (rule server_reach_stop [OF assms(5) ok0 s0])
  have "list_all (\<lambda>(sid, ip, port, alive). alive) (active_sessions srv)"
    using r by (auto simp: active_sessions_def list_all_iff roster_ok_def Let_def)
  moreover have "\<forall>e\<in>set (sr_clients srv). \<not> cn_open (he_conn e)" if "\<not> sr_running srv" "sr_stopping srv = []"
    using r stop that by (auto simp: roster_ok_def stop_ok_def in_set_conv_nth)
  ultimately show ?thesis using r roster_ids [OF r] by (simp add: roster_ok_def)
qed

theorem server_roster_witness:
  "\<exists>srv :: server. length (sr_clients srv) = 2 \<and> sr_active srv = [] \<and> map he_session (sr_clients srv) = [''S000001'', ''S000002'']
     \<and> (\<forall>e\<in>set (sr_clients srv). \<not> cn_open (he_conn e))"
proof -
  have v: "served (sample_service @ [DoLost, DoStop]) (\<lambda>srv. length (sr_clients srv) = 2 \<and> sr_active srv = []
      \<and> map he_session (sr_clients srv) = [''S000001'', ''S000002''] \<and> \<not> sr_running srv \<and> sr_stopping srv = [])" by code_simp
  obtain fs' srv0 srv where n: "new_server ''0.0.0.0'' 0 sample_root None 1 clean_tree = (fs', Inr srv0)"
    and r: "server_reach (store_inv sample_root clean_tree) world_ok srv0 srv"
    and p: "length (sr_clients srv) = 2 \<and> sr_active srv = []
      \<and> map he_session (sr_clients srv) = [''S000001'', ''S000002''] \<and> \<not> sr_running srv \<and> sr_stopping srv = []"
    by (rule servedE [OF v])
  have o: "\<not> sr_running srv \<and> sr_stopping srv = [] \<longrightarrow> (\<forall>e\<in>set (sr_clients srv). \<not> cn_open (he_conn e))"
    using server_roster [OF clean_good clean_loop_free clean_links n r] by (elim conjE) assumption
  from p have q: "length (sr_clients srv) = 2" "sr_active srv = []" "map he_session (sr_clients srv) = [''S000001'', ''S000002'']"
    "\<not> sr_running srv" "sr_stopping srv = []" by - (elim conjE, assumption)+
  have "\<forall>e\<in>set (sr_clients srv). \<not> cn_open (he_conn e)" by (rule mp [OF o conjI [OF q(4,5)]])
  with q(1-3) show ?thesis by (intro exI [of _ srv]) simp
qed

end
