(* ===== verification/Path_Locks.thy ===== *)
theory Path_Locks
  imports Dir_Manager
begin

text \<open>
  PathLockRegistry of common/filesystem_service.py: reference-counted locks, one per path, shared by all
  clients. A state has the registry (the dictionary from keys to a lock object and its number of users), the
  lock objects (the owner and the depth of each RLock) and, for every thread, the stack of its acquire blocks.
  An action is one atomic step of one thread: the two sections under the guard mutex are one step each, and
  every lock.acquire and lock.release is one. All interleavings are the sequences of actions; a thread that has
  to wait has no step. Shown: the dictionary counts exactly the users, nothing raises, two threads are never
  inside blocks that share a path, the registry is empty when no block is open, and, when nested blocks
  lock in increasing order (as store_unique does), some thread can always go on.
\<close>

section \<open>State\<close>

text \<open>_key: the canonical path; normcase is the identity on POSIX.\<close>

definition lock_key :: "file_system \<Rightarrow> path \<Rightarrow> string" where
  "lock_key fs p = path_str (realpath fs p)"

definition acquire_keys :: "string list \<Rightarrow> string list" where
  "acquire_keys names = sort (remdups names)"

record frame =
  fr_keys :: "string list"
  fr_locks :: "nat list"
  fr_held :: nat
  fr_leaving :: bool

type_synonym registry = "string \<Rightarrow> (nat \<times> nat) option"

record lock_state =
  ls_registry :: registry
  ls_owner :: "nat \<Rightarrow> (nat \<times> nat) option"
  ls_fresh :: nat
  ls_threads :: "frame list list"

datatype lock_error = Missing_Key string | Not_Owner

definition new_registry :: "nat \<Rightarrow> lock_state" where
  "new_registry n = \<lparr>ls_registry = (\<lambda>k. None), ls_owner = (\<lambda>l. None), ls_fresh = 0, ls_threads = replicate n []\<rparr>"

definition stack :: "lock_state \<Rightarrow> nat \<Rightarrow> frame list" where
  "stack st t = (if t < length (ls_threads st) then ls_threads st ! t else [])"

definition set_stack :: "nat \<Rightarrow> frame list \<Rightarrow> lock_state \<Rightarrow> lock_state" where
  "set_stack t fs st = st\<lparr>ls_threads := (ls_threads st)[t := fs]\<rparr>"

text \<open>The body of the with statement runs.\<close>

definition in_body :: "frame \<Rightarrow> bool" where
  "in_body f \<longleftrightarrow> \<not> fr_leaving f \<and> fr_held f = length (fr_locks f)"

section \<open>The guarded sections\<close>

fun enter_guard :: "string list \<Rightarrow> registry \<Rightarrow> nat \<Rightarrow> registry \<times> nat \<times> nat list" where
  "enter_guard [] reg fresh = (reg, fresh, [])"
| "enter_guard (key # keys) reg fresh =
     (case reg key of
        Some (lock, users) \<Rightarrow>
          (case enter_guard keys (reg(key \<mapsto> (lock, users + 1))) fresh of (reg', fresh', locks) \<Rightarrow> (reg', fresh', lock # locks))
      | None \<Rightarrow>
          (case enter_guard keys (reg(key \<mapsto> (fresh, 1))) (fresh + 1) of (reg', fresh', locks) \<Rightarrow> (reg', fresh', fresh # locks)))"

fun leave_guard :: "string list \<Rightarrow> registry \<Rightarrow> lock_error + registry" where
  "leave_guard [] reg = Inr reg"
| "leave_guard (key # keys) reg =
     (case reg key of
        None \<Rightarrow> Inl (Missing_Key key)
      | Some (lock, users) \<Rightarrow>
          leave_guard keys (if users = 1 then reg(key := None) else reg(key \<mapsto> (lock, users - 1))))"

section \<open>Steps\<close>

datatype lock_action = Enter nat "string list" | Lock nat | Exit nat | Unlock nat | Leave nat

text \<open>RLock.acquire and RLock.release.\<close>

definition acquire_lock :: "nat \<Rightarrow> nat \<Rightarrow> lock_state \<Rightarrow> lock_state option" where
  "acquire_lock t l st =
     (case ls_owner st l of
        None \<Rightarrow> Some (st\<lparr>ls_owner := (ls_owner st)(l \<mapsto> (t, 1))\<rparr>)
      | Some (u, n) \<Rightarrow> if u = t then Some (st\<lparr>ls_owner := (ls_owner st)(l \<mapsto> (t, n + 1))\<rparr>) else None)"

definition release_lock :: "nat \<Rightarrow> nat \<Rightarrow> lock_state \<Rightarrow> lock_error + lock_state" where
  "release_lock t l st =
     (case ls_owner st l of
        None \<Rightarrow> Inl Not_Owner
      | Some (u, n) \<Rightarrow>
          if u \<noteq> t then Inl Not_Owner
          else Inr (st\<lparr>ls_owner := (ls_owner st)(l := (if n = 1 then None else Some (t, n - 1)))\<rparr>))"

text \<open>None: the thread cannot take this step now. Inl: the step raises.\<close>

fun lock_step :: "lock_action \<Rightarrow> lock_state \<Rightarrow> (lock_error + lock_state) option" where
  "lock_step (Enter t names) st =
     (if t < length (ls_threads st) \<and> (stack st t = [] \<or> in_body (hd (stack st t))) then
        (case enter_guard (acquire_keys names) (ls_registry st) (ls_fresh st) of
           (reg, fresh, locks) \<Rightarrow>
             Some (Inr (set_stack t
               (\<lparr>fr_keys = acquire_keys names, fr_locks = locks, fr_held = 0, fr_leaving = False\<rparr> # stack st t)
               (st\<lparr>ls_registry := reg, ls_fresh := fresh\<rparr>))))
      else None)"
| "lock_step (Lock t) st =
     (case stack st t of
        [] \<Rightarrow> None
      | f # fs \<Rightarrow>
          if fr_leaving f \<or> fr_held f = length (fr_locks f) then None
          else map_option (\<lambda>st'. Inr (set_stack t (f\<lparr>fr_held := fr_held f + 1\<rparr> # fs) st'))
                 (acquire_lock t (fr_locks f ! fr_held f) st))"
| "lock_step (Exit t) st =
     (case stack st t of
        [] \<Rightarrow> None
      | f # fs \<Rightarrow> if in_body f then Some (Inr (set_stack t (f\<lparr>fr_leaving := True\<rparr> # fs) st)) else None)"
| "lock_step (Unlock t) st =
     (case stack st t of
        [] \<Rightarrow> None
      | f # fs \<Rightarrow>
          if \<not> fr_leaving f \<or> fr_held f = 0 then None
          else Some (case release_lock t (fr_locks f ! (fr_held f - 1)) st of
              Inl e \<Rightarrow> Inl e
            | Inr st' \<Rightarrow> Inr (set_stack t (f\<lparr>fr_held := fr_held f - 1\<rparr> # fs) st')))"
| "lock_step (Leave t) st =
     (case stack st t of
        [] \<Rightarrow> None
      | f # fs \<Rightarrow>
          if \<not> fr_leaving f \<or> fr_held f \<noteq> 0 then None
          else Some (case leave_guard (fr_keys f) (ls_registry st) of
              Inl e \<Rightarrow> Inl e
            | Inr reg \<Rightarrow> Inr (set_stack t fs (st\<lparr>ls_registry := reg\<rparr>))))"

text \<open>A run: the actions that are not possible when their turn comes are passed over.\<close>

fun lock_run :: "lock_action list \<Rightarrow> lock_state \<Rightarrow> lock_error + lock_state" where
  "lock_run [] st = Inr st"
| "lock_run (a # as) st =
     (case lock_step a st of
        None \<Rightarrow> lock_run as st
      | Some (Inl e) \<Rightarrow> Inl e
      | Some (Inr st') \<Rightarrow> lock_run as st')"

section \<open>The invariant\<close>

definition uses_key :: "string \<Rightarrow> frame list \<Rightarrow> nat" where
  "uses_key k fs = length (filter (\<lambda>f. k \<in> set (fr_keys f)) fs)"

definition holds_lock :: "nat \<Rightarrow> frame list \<Rightarrow> nat" where
  "holds_lock l fs = length (filter (\<lambda>f. l \<in> set (take (fr_held f) (fr_locks f))) fs)"

lemma uses_key_simps [simp]: "uses_key k [] = 0"
    "uses_key k (f # fs) = (if k \<in> set (fr_keys f) then 1 else 0) + uses_key k fs"
    "uses_key k (fs @ gs) = uses_key k fs + uses_key k gs"
  by (simp_all add: uses_key_def)

lemma holds_lock_simps [simp]: "holds_lock l [] = 0"
    "holds_lock l (f # fs) = (if l \<in> set (take (fr_held f) (fr_locks f)) then 1 else 0) + holds_lock l fs"
  by (simp_all add: holds_lock_def)

lemma uses_key_pos: "0 < uses_key k fs \<longleftrightarrow> (\<exists>f\<in>set fs. k \<in> set (fr_keys f))"
  by (auto simp: uses_key_def filter_empty_conv)

lemma holds_lock_pos: "0 < holds_lock l fs \<longleftrightarrow> (\<exists>f\<in>set fs. l \<in> set (take (fr_held f) (fr_locks f)))"
  by (auto simp: holds_lock_def filter_empty_conv)

text \<open>All frames of all threads, and what replacing a thread's stack changes of the counts.\<close>

definition all_frames :: "lock_state \<Rightarrow> frame list" where
  "all_frames st = concat (ls_threads st)"

lemma sum_frames_update:
  "t < length ts \<Longrightarrow> sum_list (map w (concat (ts[t := fs]))) + sum_list (map w (ts ! t))
     = sum_list (map w (concat ts)) + sum_list (map w fs)" for w :: "frame \<Rightarrow> nat"
proof (induction ts arbitrary: t)
  case (Cons a ts)
  then show ?case by (cases t) simp_all
qed simp

lemma uses_key_sum: "uses_key k fs = sum_list (map (\<lambda>f. if k \<in> set (fr_keys f) then 1 else 0) fs)"
  by (induction fs) simp_all

lemma in_frames: "f \<in> set (all_frames st) \<longleftrightarrow> (\<exists>t. f \<in> set (stack st t))"
  by (simp add: all_frames_def stack_def set_conv_nth [of "ls_threads st"]) blast

lemma stack_set_stack: "t < length (ls_threads st) \<Longrightarrow> stack (set_stack t fs st) u = (if u = t then fs else stack st u)"
  by (simp add: stack_def set_stack_def)

lemma stack_nonempty: "stack st t \<noteq> [] \<Longrightarrow> t < length (ls_threads st)"
  by (auto simp: stack_def split: if_splits)

lemma set_stack_simps [simp]:
  "ls_registry (set_stack t fs st) = ls_registry st" "ls_owner (set_stack t fs st) = ls_owner st"
  "ls_fresh (set_stack t fs st) = ls_fresh st" "length (ls_threads (set_stack t fs st)) = length (ls_threads st)"
  by (simp_all add: set_stack_def)

lemma uses_key_set_stack:
  "t < length (ls_threads st) \<Longrightarrow>
     uses_key k (all_frames (set_stack t fs st)) + uses_key k (stack st t) = uses_key k (all_frames st) + uses_key k fs"
  by (simp add: all_frames_def set_stack_def stack_def uses_key_sum sum_frames_update)

text \<open>A frame has the lock objects of its keys.\<close>

definition frame_ok :: "registry \<Rightarrow> frame \<Rightarrow> bool" where
  "frame_ok reg f \<longleftrightarrow> sorted_wrt (<) (fr_keys f) \<and> fr_held f \<le> length (fr_locks f)
     \<and> map (\<lambda>k. map_option fst (reg k)) (fr_keys f) = map Some (fr_locks f)"

definition registry_ok :: "registry \<Rightarrow> nat \<Rightarrow> (string \<Rightarrow> nat) \<Rightarrow> bool" where
  "registry_ok reg fresh count \<longleftrightarrow>
     (\<forall>k. reg k = None \<longrightarrow> count k = 0)
     \<and> (\<forall>k l n. reg k = Some (l, n) \<longrightarrow> n = count k \<and> 0 < n \<and> l < fresh)
     \<and> (\<forall>k k' l n n'. reg k = Some (l, n) \<longrightarrow> reg k' = Some (l, n') \<longrightarrow> k = k')"

definition owner_ok :: "(nat \<Rightarrow> (nat \<times> nat) option) \<Rightarrow> (nat \<Rightarrow> nat \<Rightarrow> nat) \<Rightarrow> bool" where
  "owner_ok owner held \<longleftrightarrow>
     (\<forall>l t. owner l = None \<longrightarrow> held t l = 0)
     \<and> (\<forall>l t n. owner l = Some (t, n) \<longrightarrow> n = held t l \<and> 0 < n)
     \<and> (\<forall>l t n u. owner l = Some (t, n) \<longrightarrow> u \<noteq> t \<longrightarrow> held u l = 0)"

definition locks_ok :: "lock_state \<Rightarrow> bool" where
  "locks_ok st \<longleftrightarrow> (\<forall>f\<in>set (all_frames st). frame_ok (ls_registry st) f)
     \<and> registry_ok (ls_registry st) (ls_fresh st) (\<lambda>k. uses_key k (all_frames st))
     \<and> owner_ok (ls_owner st) (\<lambda>t l. holds_lock l (stack st t))"

lemma locks_ok_new: "locks_ok (new_registry n)"
proof -
  have "stack (new_registry n) t = []" for t by (simp add: stack_def new_registry_def)
  moreover have "all_frames (new_registry n) = []" by (simp add: all_frames_def new_registry_def)
  ultimately show ?thesis by (simp add: locks_ok_def registry_ok_def owner_ok_def) (simp add: new_registry_def)
qed

lemma frame_key:
  assumes "frame_ok reg f" "i < length (fr_keys f)"
  shows "\<exists>n. reg (fr_keys f ! i) = Some (fr_locks f ! i, n)"
proof -
  have m: "map (\<lambda>k. map_option fst (reg k)) (fr_keys f) = map Some (fr_locks f)" using assms(1) by (simp add: frame_ok_def)
  then have "length (fr_locks f) = length (fr_keys f)" by (metis length_map)
  with m assms(2) have "map_option fst (reg (fr_keys f ! i)) = Some (fr_locks f ! i)" by (metis nth_map)
  then show ?thesis by auto
qed

lemma frame_length: "frame_ok reg f \<Longrightarrow> length (fr_locks f) = length (fr_keys f)"
  unfolding frame_ok_def by (metis length_map)

text \<open>The lock objects a frame holds belong to its keys.\<close>

lemma frame_holds:
  assumes "frame_ok reg f" "l \<in> set (take (fr_held f) (fr_locks f))"
  obtains i n where "i < fr_held f" "i < length (fr_keys f)" "reg (fr_keys f ! i) = Some (l, n)"
proof -
  from assms(2) obtain i where i: "i < fr_held f" "i < length (fr_locks f)" "fr_locks f ! i = l"
    by (auto simp: in_set_conv_nth)
  from frame_key [OF assms(1), of i] i frame_length [OF assms(1)] that show ?thesis by auto
qed

section \<open>The guarded sections keep it\<close>

lemma registry_ok_cong: "registry_ok reg n count \<Longrightarrow> (\<And>k. count' k = count k) \<Longrightarrow> registry_ok reg n count'"
  by (simp add: registry_ok_def)

lemma registry_okD:
  assumes "registry_ok reg n count"
  shows "reg k = None \<Longrightarrow> count k = 0" "reg k = Some (l, m) \<Longrightarrow> m = count k \<and> 0 < m \<and> l < n"
    "reg k = Some (l, m) \<Longrightarrow> reg k' = Some (l, m') \<Longrightarrow> k = k'"
  using assms unfolding registry_ok_def by (metis, metis, metis)

lemma registry_okI:
  assumes "\<And>k. reg k = None \<Longrightarrow> count k = 0" "\<And>k l m. reg k = Some (l, m) \<Longrightarrow> m = count k \<and> 0 < m \<and> l < n"
    and "\<And>k k' l m m'. reg k = Some (l, m) \<Longrightarrow> reg k' = Some (l, m') \<Longrightarrow> k = k'"
  shows "registry_ok reg n count"
  using assms unfolding registry_ok_def by blast

lemma registry_ok_share:
  assumes "registry_ok reg n count" "reg k = Some (l, m)"
  shows "registry_ok (reg(k \<mapsto> (l, m + 1))) n (count(k := count k + 1))" (is "registry_ok ?r n ?c")
proof (rule registry_okI)
  note m = registry_okD(2) [OF assms]
  show "?c a = 0" if "?r a = None" for a
    using that registry_okD(1) [OF assms(1), of a] by (cases "a = k") simp_all
  show "x = ?c a \<and> 0 < x \<and> l' < n" if "?r a = Some (l', x)" for a l' x
    using that m registry_okD(2) [OF assms(1), of a l' x] by (cases "a = k") simp_all
  have old: "\<exists>x. reg a = Some (l', x)" if "?r a = Some (l', x)" for a l' x
    using that assms(2) by (cases "a = k") simp_all
  show "a = b" if "?r a = Some (l', x)" "?r b = Some (l', y)" for a b l' x y
    using old [OF that(1)] old [OF that(2)] registry_okD(3) [OF assms(1)] by blast
qed

lemma registry_ok_fresh:
  assumes "registry_ok reg n count" "reg k = None"
  shows "registry_ok (reg(k \<mapsto> (n, 1))) (n + 1) (count(k := count k + 1))" (is "registry_ok ?r _ ?c")
proof (rule registry_okI)
  note z = registry_okD(1) [OF assms]
  show "?c a = 0" if "?r a = None" for a
    using that registry_okD(1) [OF assms(1), of a] by (cases "a = k") simp_all
  show "x = ?c a \<and> 0 < x \<and> l' < n + 1" if "?r a = Some (l', x)" for a l' x
    using that z registry_okD(2) [OF assms(1), of a l' x] by (cases "a = k") auto
  have old: "if a = k then l' = n else reg a = Some (l', x) \<and> l' < n" if "?r a = Some (l', x)" for a l' x
    using that registry_okD(2) [OF assms(1), of a l' x] by (cases "a = k") auto
  show "a = b" if "?r a = Some (l', x)" "?r b = Some (l', y)" for a b l' x y
    using old [OF that(1)] old [OF that(2)] registry_okD(3) [OF assms(1), of a l' x b y] by (cases "a = k"; cases "b = k") simp_all
qed

lemma registry_ok_drop:
  assumes "registry_ok reg n count" "reg k = Some (l, m)"
  shows "registry_ok (if m = 1 then reg(k := None) else reg(k \<mapsto> (l, m - 1))) n (count(k := count k - 1))"
    (is "registry_ok ?r n ?c")
proof (rule registry_okI)
  note m = registry_okD(2) [OF assms]
  show "?c a = 0" if "?r a = None" for a
    using that m registry_okD(1) [OF assms(1), of a] by (cases "a = k"; cases "m = 1") simp_all
  have old: "reg a = Some (l', if a = k then m else x) \<and> (a = k \<longrightarrow> m \<noteq> 1 \<and> x = m - 1)" if "?r a = Some (l', x)" for a l' x
    using that assms(2) by (cases "a = k"; cases "m = 1") simp_all
  show "x = ?c a \<and> 0 < x \<and> l' < n" if "?r a = Some (l', x)" for a l' x
    using old [OF that] m registry_okD(2) [OF assms(1), of a l'] by (cases "a = k") auto
  show "a = b" if "?r a = Some (l', x)" "?r b = Some (l', y)" for a b l' x y
    using old [OF that(1)] old [OF that(2)] registry_okD(3) [OF assms(1)] by blast
qed

lemma enter_guard_effect:
  assumes "enter_guard ks reg n = (reg', n', ls)" "distinct ks" "registry_ok reg n count"
  shows "registry_ok reg' n' (\<lambda>k. count k + (if k \<in> set ks then 1 else 0))
    \<and> map (\<lambda>k. map_option fst (reg' k)) ks = map Some ls
    \<and> (\<forall>k. reg k \<noteq> None \<longrightarrow> map_option fst (reg' k) = map_option fst (reg k))"
  using assms
proof (induction ks arbitrary: reg n count ls)
  case (Cons key ks)
  define r where "r = (case reg key of Some (l, m) \<Rightarrow> reg(key \<mapsto> (l, m + 1)) | None \<Rightarrow> reg(key \<mapsto> (n, 1)))"
  define f where "f = (case reg key of Some p \<Rightarrow> n | None \<Rightarrow> n + 1)"
  define l where "l = (case reg key of Some p \<Rightarrow> fst p | None \<Rightarrow> n)"
  obtain ls' where g: "enter_guard ks r f = (reg', n', ls')" "ls = l # ls'"
    using Cons.prems(1) by (auto simp: r_def f_def l_def split: option.splits prod.splits)
  have ok: "registry_ok r f (count(key := count key + 1))"
    using registry_ok_share [OF Cons.prems(3)] registry_ok_fresh [OF Cons.prems(3)]
    by (auto simp: r_def f_def split: option.splits)
  have k: "map_option fst (r key) = Some l" by (simp add: r_def l_def split: option.split)
  have keep: "reg x \<noteq> None \<Longrightarrow> map_option fst (r x) = map_option fst (reg x) \<and> r x \<noteq> None" for x
    by (auto simp: r_def split: option.splits)
  from Cons.IH [OF g(1) _ ok] Cons.prems(2)
  have i: "registry_ok reg' n' (\<lambda>k. (count(key := count key + 1)) k + (if k \<in> set ks then 1 else 0))"
    "map (\<lambda>k. map_option fst (reg' k)) ks = map Some ls'"
    "\<forall>k. r k \<noteq> None \<longrightarrow> map_option fst (reg' k) = map_option fst (r k)" by simp_all
  have "map_option fst (reg' key) = Some l" using i(3) k by (metis option.map_disc_iff option.distinct(1))
  then have m: "map (\<lambda>k. map_option fst (reg' k)) (key # ks) = map Some ls" using i(2) g(2) by simp
  have "registry_ok reg' n' (\<lambda>k. count k + (if k \<in> set (key # ks) then 1 else 0))"
    by (rule registry_ok_cong [OF i(1)]) (use Cons.prems(2) in auto)
  with m i(3) keep show ?case by metis
qed simp

lemma leave_guard_effect:
  assumes "distinct ks" "registry_ok reg n count" "\<forall>k\<in>set ks. reg k \<noteq> None"
  shows "\<exists>reg'. leave_guard ks reg = Inr reg' \<and> registry_ok reg' n (\<lambda>k. count k - (if k \<in> set ks then 1 else 0))
    \<and> (\<forall>k. reg' k \<noteq> None \<longrightarrow> map_option fst (reg' k) = map_option fst (reg k))"
  using assms
proof (induction ks arbitrary: reg count)
  case (Cons key ks)
  from Cons.prems(3) obtain l m where key: "reg key = Some (l, m)" by auto
  define r where "r = (if m = 1 then reg(key := None) else reg(key \<mapsto> (l, m - 1)))"
  have ok: "registry_ok r n (count(key := count key - 1))" unfolding r_def by (rule registry_ok_drop [OF Cons.prems(2) key])
  have "\<forall>k\<in>set ks. r k \<noteq> None" using Cons.prems(1,3) by (auto simp: r_def)
  from Cons.IH [OF _ ok this] Cons.prems(1) obtain reg' where g: "leave_guard ks r = Inr reg'"
    "registry_ok reg' n (\<lambda>k. (count(key := count key - 1)) k - (if k \<in> set ks then 1 else 0))"
    "\<forall>k. reg' k \<noteq> None \<longrightarrow> map_option fst (reg' k) = map_option fst (r k)" by auto
  have keep: "r x \<noteq> None \<Longrightarrow> map_option fst (r x) = map_option fst (reg x)" for x
    using key by (auto simp: r_def split: if_splits)
  have "registry_ok reg' n (\<lambda>k. count k - (if k \<in> set (key # ks) then 1 else 0))"
    by (rule registry_ok_cong [OF g(2)]) (use Cons.prems(1) in auto)
  moreover have "leave_guard (key # ks) reg = Inr reg'" using g(1) key by (simp add: r_def)
  moreover have "\<forall>k. reg' k \<noteq> None \<longrightarrow> map_option fst (reg' k) = map_option fst (reg k)"
    using g(3) keep by (metis option.map_disc_iff)
  ultimately show ?case by blast
qed simp

lemma frame_ok_cong:
  "frame_ok reg f \<Longrightarrow> (\<And>k. k \<in> set (fr_keys f) \<Longrightarrow> map_option fst (reg' k) = map_option fst (reg k)) \<Longrightarrow> frame_ok reg' f"
  by (simp add: frame_ok_def cong: map_cong)

lemma registry_count: "registry_ok reg n count \<Longrightarrow> reg k \<noteq> None \<longleftrightarrow> 0 < count k"
  using registry_okD(1,2) [of reg n count k] by (cases "reg k") auto

section \<open>Every step keeps the invariant and none raises\<close>

lemma owner_okD:
  assumes "owner_ok owner held"
  shows "owner l = None \<Longrightarrow> held t l = 0" "owner l = Some (t, n) \<Longrightarrow> n = held t l \<and> 0 < n"
    "owner l = Some (t, n) \<Longrightarrow> u \<noteq> t \<Longrightarrow> held u l = 0"
  using assms unfolding owner_ok_def by (metis, metis, metis)

lemma owner_of_holder: "owner_ok owner held \<Longrightarrow> 0 < held t l \<Longrightarrow> \<exists>n. owner l = Some (t, n)"
  using owner_okD [of owner held] by (cases "owner l") (metis less_irrefl, metis less_irrefl surj_pair)

lemma owner_okI:
  assumes "\<And>l t. owner l = None \<Longrightarrow> held t l = 0" "\<And>l t n. owner l = Some (t, n) \<Longrightarrow> n = held t l \<and> 0 < n"
    and "\<And>l t n u. owner l = Some (t, n) \<Longrightarrow> u \<noteq> t \<Longrightarrow> held u l = 0"
  shows "owner_ok owner held"
  using assms unfolding owner_ok_def by blast

lemma owner_ok_acquire:
  assumes ok: "owner_ok owner held" and free: "owner l = None \<or> owner l = Some (t, held t l)"
    and held: "\<And>u k. held' u k = held u k + (if u = t \<and> k = l then 1 else 0)"
  shows "owner_ok (owner(l \<mapsto> (t, held t l + 1))) held'"
proof (rule owner_okI)
  have others: "held u l = 0" if "u \<noteq> t" for u using free owner_okD(1,3) [OF ok] that by metis
  fix k u
  show "held' u k = 0" if "(owner(l \<mapsto> (t, held t l + 1))) k = None"
    using that owner_okD(1) [OF ok] by (simp add: held split: if_splits)
  fix n assume o: "(owner(l \<mapsto> (t, held t l + 1))) k = Some (u, n)"
  then show "n = held' u k \<and> 0 < n" using owner_okD(2) [OF ok, of k u n] by (auto simp: held split: if_splits)
  show "held' v k = 0" if "v \<noteq> u" for v
    using o that others owner_okD(3) [OF ok, of k u n v] by (auto simp: held split: if_splits)
qed

lemma owner_ok_release:
  assumes ok: "owner_ok owner held" and owned: "owner l = Some (t, n)"
    and held: "\<And>u k. held u k = held' u k + (if u = t \<and> k = l then 1 else 0)"
  shows "owner_ok (owner(l := (if n = 1 then None else Some (t, n - 1)))) held'"
proof (rule owner_okI)
  let ?o = "owner(l := (if n = 1 then None else Some (t, n - 1)))"
  have n: "n = held' t l + 1" using owner_okD(2) [OF ok owned] held [of t l] by simp
  have others: "held' u l = 0" if "u \<noteq> t" for u using owner_okD(3) [OF ok owned that] held [of u l] that by simp
  fix k u
  show "held' u k = 0" if "?o k = None"
  proof (cases "k = l")
    case True
    then have "held' t l = 0" using that n by (simp split: if_splits)
    with others True show ?thesis by (cases "u = t") auto
  next
    case False
    then show ?thesis using that owner_okD(1) [OF ok, of k u] held [of u k] by simp
  qed
  fix m assume o: "?o k = Some (u, m)"
  show "m = held' u k \<and> 0 < m"
  proof (cases "k = l")
    case True
    then show ?thesis using o n by (auto split: if_splits)
  next
    case False
    then show ?thesis using o owner_okD(2) [OF ok, of k u m] held [of u k] by simp
  qed
  show "held' v k = 0" if "v \<noteq> u" for v
  proof (cases "k = l")
    case True
    then show ?thesis using o that others by (simp split: if_splits)
  next
    case False
    then show ?thesis using o owner_okD(3) [OF ok, of k u m v] that held [of v k] by simp
  qed
qed

lemma frame_locks_distinct:
  assumes "frame_ok reg f" "registry_ok reg n count"
  shows "distinct (fr_locks f)"
proof (rule distinct_conv_nth [THEN iffD2], intro allI impI)
  fix i j assume ij: "i < length (fr_locks f)" "j < length (fr_locks f)" "i \<noteq> j"
  have l: "length (fr_locks f) = length (fr_keys f)" by (rule frame_length [OF assms(1)])
  have "distinct (fr_keys f)" using assms(1) by (simp add: frame_ok_def strict_sorted_iff)
  then have "fr_keys f ! i \<noteq> fr_keys f ! j" using ij l by (simp add: nth_eq_iff_index_eq)
  with frame_key [OF assms(1), of i] frame_key [OF assms(1), of j] ij l registry_okD(3) [OF assms(2)]
  show "fr_locks f ! i \<noteq> fr_locks f ! j" by metis
qed

text \<open>Replacing the top frame of a thread by one with the same keys and locks.\<close>

lemma locks_ok_top:
  assumes ok: "locks_ok st" and top: "stack st t = f # fs"
    and same: "fr_keys g = fr_keys f" "fr_locks g = fr_locks f" "fr_held g \<le> length (fr_locks f)"
    and owner: "owner_ok owner (\<lambda>u l. holds_lock l (if u = t then g # fs else stack st u))"
  shows "locks_ok (set_stack t (g # fs) (st\<lparr>ls_owner := owner\<rparr>))"
proof -
  let ?st = "st\<lparr>ls_owner := owner\<rparr>"
  have t: "t < length (ls_threads ?st)" using stack_nonempty [of st t] top by simp
  have st: "stack ?st u = stack st u" "all_frames ?st = all_frames st" for u by (simp_all add: stack_def all_frames_def)
  have frames: "\<forall>h\<in>set (all_frames st). frame_ok (ls_registry st) h"
    and reg: "registry_ok (ls_registry st) (ls_fresh st) (\<lambda>k. uses_key k (all_frames st))"
    using ok by (simp_all add: locks_ok_def)
  have "f \<in> set (all_frames st)" using top by (metis in_frames list.set_intros(1))
  then have "frame_ok (ls_registry st) g" using frames same by (auto simp: frame_ok_def)
  moreover have old: "frame_ok (ls_registry st) h" if "h \<in> set (stack st u)" for h u
    using that frames in_frames by blast
  have rest: "frame_ok (ls_registry st) h" if "h \<in> set fs" for h by (rule old [of _ t]) (simp add: top that)
  ultimately have "frame_ok (ls_registry st) h" if "h \<in> set (all_frames (set_stack t (g # fs) ?st))" for h
    using that old rest by (auto simp: in_frames stack_set_stack [OF t] st split: if_splits)
  moreover have "uses_key k (all_frames (set_stack t (g # fs) ?st)) = uses_key k (all_frames st)" for k
    using uses_key_set_stack [OF t, of k "g # fs"] top same(1) by (simp add: st)
  ultimately show ?thesis using reg owner by (simp add: locks_ok_def stack_set_stack [OF t, unfolded st])
qed

lemma holds_lock_more:
  assumes "fr_held f < length (fr_locks f)" "distinct (fr_locks f)"
  shows "holds_lock l (f\<lparr>fr_held := fr_held f + 1\<rparr> # fs) = holds_lock l (f # fs) + (if l = fr_locks f ! fr_held f then 1 else 0)"
proof -
  have "take (Suc (fr_held f)) (fr_locks f) = take (fr_held f) (fr_locks f) @ [fr_locks f ! fr_held f]"
    using assms(1) by (rule take_Suc_conv_app_nth)
  moreover have "fr_locks f ! fr_held f \<notin> set (take (fr_held f) (fr_locks f))"
    using assms by (auto simp: in_set_conv_nth nth_eq_iff_index_eq)
  ultimately show ?thesis by simp
qed

lemma holds_lock_less:
  assumes "0 < fr_held f" "fr_held f \<le> length (fr_locks f)" "distinct (fr_locks f)"
  shows "holds_lock l (f # fs) = holds_lock l (f\<lparr>fr_held := fr_held f - 1\<rparr> # fs) + (if l = fr_locks f ! (fr_held f - 1) then 1 else 0)"
proof -
  have "holds_lock l ((f\<lparr>fr_held := fr_held f - 1\<rparr>)\<lparr>fr_held := fr_held (f\<lparr>fr_held := fr_held f - 1\<rparr>) + 1\<rparr> # fs)
      = holds_lock l (f\<lparr>fr_held := fr_held f - 1\<rparr> # fs)
        + (if l = fr_locks (f\<lparr>fr_held := fr_held f - 1\<rparr>) ! fr_held (f\<lparr>fr_held := fr_held f - 1\<rparr>) then 1 else 0)"
    by (rule holds_lock_more) (use assms in simp_all)
  then show ?thesis using assms(1) by simp
qed

lemma locks_ok_enter:
  assumes ok: "locks_ok st" and step: "lock_step (Enter t names) st = Some r"
  shows "\<exists>st'. r = Inr st' \<and> locks_ok st'"
proof -
  let ?ks = "acquire_keys names"
  have t: "t < length (ls_threads st)" using step by (simp split: if_splits)
  obtain reg n ls where g: "enter_guard ?ks (ls_registry st) (ls_fresh st) = (reg, n, ls)"
    by (cases "enter_guard ?ks (ls_registry st) (ls_fresh st)")
  define f where "f = \<lparr>fr_keys = ?ks, fr_locks = ls, fr_held = 0, fr_leaving = False\<rparr>"
  let ?st = "st\<lparr>ls_registry := reg, ls_fresh := n\<rparr>"
  have r: "r = Inr (set_stack t (f # stack st t) ?st)" using step g by (simp add: f_def split: if_splits)
  have st: "stack ?st u = stack st u" "all_frames ?st = all_frames st" "length (ls_threads ?st) = length (ls_threads st)" for u
    by (simp_all add: stack_def all_frames_def)
  have t': "t < length (ls_threads ?st)" using t by simp
  have frames: "\<forall>h\<in>set (all_frames st). frame_ok (ls_registry st) h"
    and reg0: "registry_ok (ls_registry st) (ls_fresh st) (\<lambda>k. uses_key k (all_frames st))"
    and owner: "owner_ok (ls_owner st) (\<lambda>t l. holds_lock l (stack st t))"
    using ok by (simp_all add: locks_ok_def)
  have sorted: "sorted_wrt (<) ?ks" unfolding acquire_keys_def by (simp add: strict_sorted_iff)
  then have "distinct ?ks" by (simp add: strict_sorted_iff)
  from enter_guard_effect [OF g this reg0]
  have reg: "registry_ok reg n (\<lambda>k. uses_key k (all_frames st) + (if k \<in> set ?ks then 1 else 0))"
    and new: "map (\<lambda>k. map_option fst (reg k)) ?ks = map Some ls"
    and keep: "\<forall>k. ls_registry st k \<noteq> None \<longrightarrow> map_option fst (reg k) = map_option fst (ls_registry st k)"
    by blast+
  have uses: "uses_key k (all_frames (set_stack t (f # stack st t) ?st))
      = uses_key k (all_frames st) + (if k \<in> set ?ks then 1 else 0)" for k
    using uses_key_set_stack [OF t', of k "f # stack st t"] by (simp add: st f_def)
  have fo: "frame_ok reg f" using sorted new by (simp add: frame_ok_def f_def)
  have old: "frame_ok reg h" if "h \<in> set (stack st u)" for h u
  proof -
    have h: "frame_ok (ls_registry st) h" using that frames in_frames by blast
    then show ?thesis by (rule frame_ok_cong) (metis frame_key [OF h] keep in_set_conv_nth option.distinct(1))
  qed
  have "frame_ok reg h" if "h \<in> set (all_frames (set_stack t (f # stack st t) ?st))" for h
    using that fo old by (auto simp: in_frames stack_set_stack [OF t'] st split: if_splits)
  moreover have "owner_ok (ls_owner st) (\<lambda>u l. holds_lock l (stack (set_stack t (f # stack st t) ?st) u))"
  proof -
    have "holds_lock l (stack (set_stack t (f # stack st t) ?st) u) = holds_lock l (stack st u)" for u l
      by (simp add: stack_set_stack [OF t'] st f_def)
    with owner show ?thesis by simp
  qed
  ultimately show ?thesis using reg by (auto simp: r locks_ok_def uses)
qed

lemma locks_ok_lock:
  assumes ok: "locks_ok st" and step: "lock_step (Lock t) st = Some r"
  shows "\<exists>st'. r = Inr st' \<and> locks_ok st'"
proof -
  obtain f fs where top: "stack st t = f # fs" and held: "\<not> fr_leaving f" "fr_held f \<noteq> length (fr_locks f)"
    using step by (auto split: list.splits if_splits)
  let ?l = "fr_locks f ! fr_held f" and ?g = "f\<lparr>fr_held := fr_held f + 1\<rparr>"
  have frame: "frame_ok (ls_registry st) f"
    and reg: "registry_ok (ls_registry st) (ls_fresh st) (\<lambda>k. uses_key k (all_frames st))"
    and owner: "owner_ok (ls_owner st) (\<lambda>t l. holds_lock l (stack st t))"
    using ok top by (simp_all add: locks_ok_def) (metis in_frames list.set_intros(1))
  have lt: "fr_held f < length (fr_locks f)" using frame held by (simp add: frame_ok_def)
  note more = holds_lock_more [OF lt frame_locks_distinct [OF frame reg], where fs = fs]
  define owner' where "owner' = (ls_owner st)(?l \<mapsto> (t, holds_lock ?l (stack st t) + 1))"
  have "acquire_lock t ?l st \<noteq> None" using step top held by (auto split: if_splits)
  then have free: "ls_owner st ?l = None \<or> ls_owner st ?l = Some (t, holds_lock ?l (stack st t))"
    using owner_okD(2) [OF owner, of ?l t] by (auto simp: acquire_lock_def split: option.splits if_splits)
  then have acq: "acquire_lock t ?l st = Some (st\<lparr>ls_owner := owner'\<rparr>)"
    using owner_okD(1) [OF owner, of ?l t] by (auto simp: acquire_lock_def owner'_def)
  have "owner_ok owner' (\<lambda>u l. holds_lock l (if u = t then ?g # fs else stack st u))"
    unfolding owner'_def by (rule owner_ok_acquire [OF owner free]) (use more top in simp)
  from locks_ok_top [OF ok top _ _ _ this] lt show ?thesis using step top held acq by (auto split: if_splits)
qed

lemma locks_ok_exit:
  assumes ok: "locks_ok st" and step: "lock_step (Exit t) st = Some r"
  shows "\<exists>st'. r = Inr st' \<and> locks_ok st'"
proof -
  obtain f fs where top: "stack st t = f # fs" and f: "in_body f" using step by (auto split: list.splits if_splits)
  let ?g = "f\<lparr>fr_leaving := True\<rparr>"
  have "holds_lock l (if u = t then ?g # fs else stack st u) = holds_lock l (stack st u)" for l u using top by simp
  then have "owner_ok (ls_owner st) (\<lambda>u l. holds_lock l (if u = t then ?g # fs else stack st u))"
    using ok by (simp add: locks_ok_def)
  from locks_ok_top [OF ok top _ _ _ this] f have "locks_ok (set_stack t (?g # fs) st)" by (simp add: in_body_def)
  then show ?thesis using step top f by auto
qed

lemma locks_ok_unlock:
  assumes ok: "locks_ok st" and step: "lock_step (Unlock t) st = Some r"
  shows "\<exists>st'. r = Inr st' \<and> locks_ok st'"
proof -
  obtain f fs where top: "stack st t = f # fs" and held: "fr_leaving f" "0 < fr_held f"
    using step by (auto split: list.splits if_splits)
  let ?l = "fr_locks f ! (fr_held f - 1)" and ?g = "f\<lparr>fr_held := fr_held f - 1\<rparr>"
  have frame: "frame_ok (ls_registry st) f"
    and reg: "registry_ok (ls_registry st) (ls_fresh st) (\<lambda>k. uses_key k (all_frames st))"
    and owner: "owner_ok (ls_owner st) (\<lambda>t l. holds_lock l (stack st t))"
    using ok top by (simp_all add: locks_ok_def) (metis in_frames list.set_intros(1))
  have le: "fr_held f \<le> length (fr_locks f)" using frame by (simp add: frame_ok_def)
  note less = holds_lock_less [OF held(2) le frame_locks_distinct [OF frame reg], where fs = fs]
  have "0 < holds_lock ?l (stack st t)" using less [of ?l] top by simp
  from owner_of_holder [OF owner this] obtain n where n: "ls_owner st ?l = Some (t, n)" by blast
  let ?owner = "(ls_owner st)(?l := (if n = 1 then None else Some (t, n - 1)))"
  have "owner_ok ?owner (\<lambda>u l. holds_lock l (if u = t then ?g # fs else stack st u))"
    by (rule owner_ok_release [OF owner n]) (use less top in simp)
  from locks_ok_top [OF ok top _ _ _ this] le have "locks_ok (set_stack t (?g # fs) (st\<lparr>ls_owner := ?owner\<rparr>))" by simp
  then show ?thesis using step top held n by (auto simp: release_lock_def)
qed

lemma locks_ok_leave:
  assumes ok: "locks_ok st" and step: "lock_step (Leave t) st = Some r"
  shows "\<exists>st'. r = Inr st' \<and> locks_ok st'"
proof -
  obtain f fs where top: "stack st t = f # fs" and held: "fr_leaving f" "fr_held f = 0"
    using step by (auto split: list.splits if_splits)
  have frames: "\<forall>h\<in>set (all_frames st). frame_ok (ls_registry st) h"
    and reg0: "registry_ok (ls_registry st) (ls_fresh st) (\<lambda>k. uses_key k (all_frames st))"
    and owner: "owner_ok (ls_owner st) (\<lambda>t l. holds_lock l (stack st t))"
    using ok by (simp_all add: locks_ok_def)
  have fin: "f \<in> set (all_frames st)" using top by (metis in_frames list.set_intros(1))
  then have frame: "frame_ok (ls_registry st) f" using frames by blast
  have "distinct (fr_keys f)" using frame by (simp add: frame_ok_def strict_sorted_iff)
  moreover have "\<forall>k\<in>set (fr_keys f). ls_registry st k \<noteq> None"
    using registry_count [OF reg0] uses_key_pos fin by blast
  ultimately obtain reg where g: "leave_guard (fr_keys f) (ls_registry st) = Inr reg"
    "registry_ok reg (ls_fresh st) (\<lambda>k. uses_key k (all_frames st) - (if k \<in> set (fr_keys f) then 1 else 0))"
    "\<forall>k. reg k \<noteq> None \<longrightarrow> map_option fst (reg k) = map_option fst (ls_registry st k)"
    using leave_guard_effect [OF _ reg0] by blast
  let ?st = "st\<lparr>ls_registry := reg\<rparr>"
  have st: "stack ?st u = stack st u" "all_frames ?st = all_frames st" for u by (simp_all add: stack_def all_frames_def)
  have t: "t < length (ls_threads ?st)" using stack_nonempty [of st t] top by simp
  note stacks = stack_set_stack [OF t, unfolded st]
  have uses: "uses_key k (all_frames (set_stack t fs ?st))
      = uses_key k (all_frames st) - (if k \<in> set (fr_keys f) then 1 else 0)" for k
    using uses_key_set_stack [OF t, of k fs] top by (simp add: st)
  have reg: "registry_ok reg (ls_fresh st) (\<lambda>k. uses_key k (all_frames (set_stack t fs ?st)))"
    by (rule registry_ok_cong [OF g(2) uses])
  have "frame_ok reg h" if h: "h \<in> set (all_frames (set_stack t fs ?st))" for h
  proof -
    have "h \<in> set (all_frames st)" using h top by (auto simp: in_frames stacks split: if_splits) (metis list.set_intros(2))
    then have "frame_ok (ls_registry st) h" using frames by blast
    then show ?thesis
    proof (rule frame_ok_cong)
      fix k assume "k \<in> set (fr_keys h)"
      then have "reg k \<noteq> None" using registry_count [OF reg] uses_key_pos h by blast
      then show "map_option fst (reg k) = map_option fst (ls_registry st k)" using g(3) by blast
    qed
  qed
  moreover have "owner_ok (ls_owner st) (\<lambda>u l. holds_lock l (stack (set_stack t fs ?st) u))"
  proof -
    have "holds_lock l (stack (set_stack t fs ?st) u) = holds_lock l (stack st u)" for u l
      using top held by (simp add: stacks)
    with owner show ?thesis by simp
  qed
  ultimately have "locks_ok (set_stack t fs ?st)" using reg by (simp add: locks_ok_def)
  then show ?thesis using step top held g(1) by auto
qed

lemma lock_step_ok: "locks_ok st \<Longrightarrow> lock_step a st = Some r \<Longrightarrow> \<exists>st'. r = Inr st' \<and> locks_ok st'"
  by (cases a) (blast dest: locks_ok_enter locks_ok_lock locks_ok_exit locks_ok_unlock locks_ok_leave)+

lemma lock_run_ok: "locks_ok st \<Longrightarrow> \<exists>st'. lock_run as st = Inr st' \<and> locks_ok st'"
proof (induction as arbitrary: st)
  case (Cons a as)
  show ?case
  proof (cases "lock_step a st")
    case None
    with Cons show ?thesis by simp
  next
    case (Some r)
    with lock_step_ok [OF Cons.prems Some] Cons.IH show ?thesis by auto
  qed
qed simp

section \<open>Exclusion and progress\<close>

text \<open>Which blocks of a thread hold a path: the frames that are in their body.\<close>

definition in_block :: "lock_state \<Rightarrow> nat \<Rightarrow> string \<Rightarrow> bool" where
  "in_block st t k \<longleftrightarrow> (\<exists>f\<in>set (stack st t). in_body f \<and> k \<in> set (fr_keys f))"

lemma in_block_holds:
  assumes "locks_ok st" "in_block st t k"
  shows "\<exists>l n. ls_registry st k = Some (l, n) \<and> 0 < holds_lock l (stack st t)"
proof -
  from assms(2) obtain f where f: "f \<in> set (stack st t)" "in_body f" "k \<in> set (fr_keys f)" by (auto simp: in_block_def)
  then have ok: "frame_ok (ls_registry st) f" using assms(1) in_frames by (auto simp: locks_ok_def)
  from f(3) obtain i where i: "i < length (fr_keys f)" "fr_keys f ! i = k" by (auto simp: in_set_conv_nth)
  from frame_key [OF ok i(1)] i(2) obtain n where r: "ls_registry st k = Some (fr_locks f ! i, n)" by auto
  have "fr_locks f ! i \<in> set (take (fr_held f) (fr_locks f))" using f(2) i(1) frame_length [OF ok] by (simp add: in_body_def)
  with f(1) r holds_lock_pos show ?thesis by blast
qed

lemma exclusive:
  assumes "locks_ok st" "in_block st t k" "in_block st u k"
  shows "t = u"
proof (rule ccontr)
  assume "t \<noteq> u"
  from in_block_holds [OF assms(1,2)] in_block_holds [OF assms(1,3)] obtain l
    where l: "0 < holds_lock l (stack st t)" "0 < holds_lock l (stack st u)" by auto
  have owner: "owner_ok (ls_owner st) (\<lambda>t l. holds_lock l (stack st t))" using assms(1) by (simp add: locks_ok_def)
  from owner_of_holder [OF owner, where t = t] l(1) obtain n where "ls_owner st l = Some (t, n)" by blast
  from owner_okD(3) [OF owner this, of u] \<open>t \<noteq> u\<close> l(2) show False by simp
qed

lemma registry_exact:
  assumes "locks_ok st"
  shows "(case ls_registry st k of None \<Rightarrow> 0 | Some (l, n) \<Rightarrow> n) = uses_key k (all_frames st)"
  using assms registry_okD(1,2) [of "ls_registry st" "ls_fresh st" "\<lambda>k. uses_key k (all_frames st)" k]
  by (auto simp: locks_ok_def split: option.split)

text \<open>Nested blocks lock in increasing order: the stack has the innermost block first.\<close>

definition increasing :: "frame list \<Rightarrow> bool" where
  "increasing fs \<longleftrightarrow> sorted_wrt (\<lambda>f g. \<forall>k\<in>set (fr_keys f). \<forall>k'\<in>set (fr_keys g). k' < k) fs"

definition wants :: "frame \<Rightarrow> string" where
  "wants f = fr_keys f ! fr_held f"

lemma held_below:
  assumes ok: "locks_ok st" and top: "stack st t = f # fs" and inc: "increasing (stack st t)"
    and want: "fr_held f < length (fr_keys f)" and hold: "0 < holds_lock l (stack st t)" and key: "ls_registry st k = Some (l, n)"
  shows "k < wants f"
proof -
  from hold obtain g where g: "g \<in> set (stack st t)" "l \<in> set (take (fr_held g) (fr_locks g))" using holds_lock_pos by blast
  have frames: "frame_ok (ls_registry st) h" if "h \<in> set (stack st t)" for h
    using ok that in_frames by (auto simp: locks_ok_def)
  from frame_holds [OF frames [OF g(1)] g(2)] obtain i m where i: "i < fr_held g" "i < length (fr_keys g)"
    "ls_registry st (fr_keys g ! i) = Some (l, m)" .
  have "registry_ok (ls_registry st) (ls_fresh st) (\<lambda>k. uses_key k (all_frames st))" using ok by (simp add: locks_ok_def)
  from registry_okD(3) [OF this key i(3)] have k: "k = fr_keys g ! i" .
  show ?thesis
  proof (cases "g \<in> set fs")
    case True
    then show ?thesis using inc top i(2) want by (auto simp: increasing_def k wants_def)
  next
    case False
    then have "g = f" using g(1) top by simp
    moreover have "sorted_wrt (<) (fr_keys f)" using frames [of f] top by (simp add: frame_ok_def)
    ultimately show ?thesis using i(1) want by (simp add: k wants_def sorted_wrt_nth_less)
  qed
qed

definition moves :: "nat \<Rightarrow> lock_state \<Rightarrow> bool" where
  "moves t st \<longleftrightarrow> (\<exists>a\<in>{Lock t, Exit t, Unlock t, Leave t}. lock_step a st \<noteq> None)"

lemma waits:
  assumes ok: "locks_ok st" and stuck: "\<not> moves t st" and top: "stack st t = f # fs"
  shows "fr_held f < length (fr_keys f) \<and> (\<exists>l n u m. ls_registry st (wants f) = Some (l, n)
    \<and> ls_owner st l = Some (u, m) \<and> u \<noteq> t)"
proof -
  have none: "lock_step (Lock t) st = None" "lock_step (Exit t) st = None" "lock_step (Unlock t) st = None"
    "lock_step (Leave t) st = None" using stuck by (auto simp: moves_def)
  have frame: "frame_ok (ls_registry st) f" using ok top
    by (metis in_frames list.set_intros(1) locks_ok_def)
  have f: "\<not> fr_leaving f" "fr_held f \<noteq> length (fr_locks f)"
    using none(2,3,4) top by (auto simp: in_body_def split: if_splits)
  then have lt: "fr_held f < length (fr_keys f)" using frame frame_length [OF frame] by (simp add: frame_ok_def)
  from frame_key [OF frame lt] obtain n where r: "ls_registry st (wants f) = Some (fr_locks f ! fr_held f, n)"
    by (auto simp: wants_def)
  have "acquire_lock t (fr_locks f ! fr_held f) st = None" using none(1) top f by simp
  then obtain u m where "ls_owner st (fr_locks f ! fr_held f) = Some (u, m)" "u \<noteq> t"
    by (auto simp: acquire_lock_def split: option.splits if_splits)
  with lt r show ?thesis by blast
qed

lemma progress:
  assumes ok: "locks_ok st" and inc: "\<And>t. increasing (stack st t)" and busy: "stack st t0 \<noteq> []"
  shows "\<exists>t. moves t st"
proof (rule ccontr)
  assume "\<nexists>t. moves t st"
  then have stuck: "\<not> moves t st" for t by blast
  let ?T = "{t. stack st t \<noteq> []}" and ?w = "\<lambda>t. wants (hd (stack st t))"
  have "?T \<subseteq> {..<length (ls_threads st)}" using stack_nonempty by auto
  then have fin: "finite (?w ` ?T)" by (meson finite_imageI finite_lessThan finite_subset)
  have ne: "?w ` ?T \<noteq> {}" using busy by auto
  from Max_in [OF fin ne] obtain t where t: "stack st t \<noteq> []" "Max (?w ` ?T) = ?w t" by auto
  obtain f fs where top: "stack st t = f # fs" using t(1) by (cases "stack st t") auto
  from waits [OF ok stuck top] obtain l n u m where w: "ls_registry st (wants f) = Some (l, n)"
    "ls_owner st l = Some (u, m)" by blast
  have owner: "owner_ok (ls_owner st) (\<lambda>t l. holds_lock l (stack st t))" using ok by (simp add: locks_ok_def)
  have hold: "0 < holds_lock l (stack st u)" using owner_okD(2) [OF owner w(2)] by simp
  then obtain g gs where u: "stack st u = g # gs" by (cases "stack st u") auto
  from waits [OF ok stuck u] have "fr_held g < length (fr_keys g)" by blast
  from held_below [OF ok u inc this hold w(1)] have "wants f < wants g" .
  moreover have "wants g \<le> Max (?w ` ?T)" by (intro Max_ge fin image_eqI [of _ _ u]) (simp_all add: u)
  ultimately show False using t(2) top by simp
qed

text \<open>Every step but Enter brings the open blocks closer to their end.\<close>

definition work :: "frame \<Rightarrow> nat" where
  "work f = (if fr_leaving f then fr_held f + 1 else 2 * length (fr_locks f) + 2 - fr_held f)"

definition total_work :: "lock_state \<Rightarrow> nat" where
  "total_work st = sum_list (map work (all_frames st))"

lemma total_work_set_stack:
  "t < length (ls_threads st) \<Longrightarrow>
     total_work (set_stack t fs st) + sum_list (map work (stack st t)) = total_work st + sum_list (map work fs)"
  by (simp add: total_work_def all_frames_def set_stack_def stack_def sum_frames_update)

definition pops :: "lock_action \<Rightarrow> bool" where
  "pops a \<longleftrightarrow> (case a of Enter t ks \<Rightarrow> False | _ \<Rightarrow> True)"

lemma increasing_pop: "increasing (f # fs) \<Longrightarrow> increasing fs"
  by (simp add: increasing_def)

lemma increasing_top: "fr_keys g = fr_keys f \<Longrightarrow> increasing (g # fs) = increasing (f # fs)"
  by (simp add: increasing_def)

lemma acquire_threads: "acquire_lock t l st = Some st' \<Longrightarrow> ls_threads st' = ls_threads st"
  by (auto simp: acquire_lock_def split: option.splits if_splits)

lemma release_threads: "release_lock t l st = Inr st' \<Longrightarrow> ls_threads st' = ls_threads st"
  by (auto simp: release_lock_def split: option.splits if_splits)

lemma step_shape:
  assumes ok: "locks_ok st" and a: "pops a" and step: "lock_step a st = Some (Inr st')"
  obtains t f fs gs st1 where "stack st t = f # fs" "st' = set_stack t gs st1" "ls_threads st1 = ls_threads st"
    "gs = fs \<or> (\<exists>g. gs = g # fs \<and> fr_keys g = fr_keys f)" "sum_list (map work gs) < sum_list (map work (f # fs))"
proof -
  have held: "fr_held f \<le> length (fr_locks f)" if "stack st t = f # fs" for t f fs
    using ok that by (metis frame_ok_def in_frames list.set_intros(1) locks_ok_def)
  from a consider t where "a = Lock t" | t where "a = Exit t" | t where "a = Unlock t" | t where "a = Leave t"
    by (cases a) (auto simp: pops_def)
  then show thesis
  proof cases
    case 1
    with step obtain f fs s where "stack st t = f # fs" "\<not> fr_leaving f" "fr_held f \<noteq> length (fr_locks f)"
      "acquire_lock t (fr_locks f ! fr_held f) st = Some s" "st' = set_stack t (f\<lparr>fr_held := fr_held f + 1\<rparr> # fs) s"
      by (auto split: list.splits if_splits)
    with held [of t f fs] acquire_threads show thesis
      by (intro that [of t f fs "f\<lparr>fr_held := fr_held f + 1\<rparr> # fs" s]) (auto simp: work_def)
  next
    case 2
    with step obtain f fs where "stack st t = f # fs" "in_body f" "st' = set_stack t (f\<lparr>fr_leaving := True\<rparr> # fs) st"
      by (auto split: list.splits if_splits)
    then show thesis
      by (intro that [of t f fs "f\<lparr>fr_leaving := True\<rparr> # fs" st]) (auto simp: work_def in_body_def)
  next
    case 3
    with step obtain f fs s where "stack st t = f # fs" "fr_leaving f" "fr_held f \<noteq> 0"
      "release_lock t (fr_locks f ! (fr_held f - 1)) st = Inr s" "st' = set_stack t (f\<lparr>fr_held := fr_held f - 1\<rparr> # fs) s"
      by (auto split: list.splits if_splits sum.splits)
    with release_threads show thesis
      by (intro that [of t f fs "f\<lparr>fr_held := fr_held f - 1\<rparr> # fs" s]) (auto simp: work_def)
  next
    case 4
    with step obtain f fs reg where "stack st t = f # fs" "fr_leaving f" "st' = set_stack t fs (st\<lparr>ls_registry := reg\<rparr>)"
      by (auto split: list.splits if_splits sum.splits)
    then show thesis
      by (intro that [of t f fs fs "st\<lparr>ls_registry := reg\<rparr>"]) (auto simp: work_def)
  qed
qed

lemma step_shrinks:
  assumes "locks_ok st" "pops a" "lock_step a st = Some (Inr st')" "\<And>t. increasing (stack st t)"
  shows "total_work st' < total_work st" "increasing (stack st' u)"
proof -
  from step_shape [OF assms(1-3)] obtain t f fs gs st1 where s: "stack st t = f # fs" "st' = set_stack t gs st1"
    "ls_threads st1 = ls_threads st" "gs = fs \<or> (\<exists>g. gs = g # fs \<and> fr_keys g = fr_keys f)"
    "sum_list (map work gs) < sum_list (map work (f # fs))" .
  have t: "t < length (ls_threads st1)" using stack_nonempty [of st t] s(1,3) by simp
  have same: "stack st1 v = stack st v" "total_work st1 = total_work st" for v
    using s(3) by (simp_all add: stack_def total_work_def all_frames_def)
  show "total_work st' < total_work st" using total_work_set_stack [OF t, of gs] s(1,2,5) same by simp
  have stacks: "stack st' u = (if u = t then gs else stack st u)" unfolding s(2) stack_set_stack [OF t] same by (rule refl)
  have "increasing gs" using s(4) assms(4) [of t] increasing_pop increasing_top unfolding s(1) by metis
  then show "increasing (stack st' u)" using assms(4) [of u] by (simp add: stacks)
qed

lemma drain:
  "locks_ok st \<Longrightarrow> (\<And>t. increasing (stack st t)) \<Longrightarrow>
     \<exists>as st'. list_all pops as \<and> lock_run as st = Inr st' \<and> (\<forall>t. stack st' t = []) \<and> (\<forall>k. ls_registry st' k = None)"
proof (induction "total_work st" arbitrary: st rule: less_induct)
  case less
  show ?case
  proof (cases "\<exists>t. stack st t \<noteq> []")
    case True
    then obtain t where "moves t st" using progress [OF less.prems] by blast
    then obtain a where a: "a \<in> {Lock t, Exit t, Unlock t, Leave t}" "lock_step a st \<noteq> None"
      unfolding moves_def by blast
    then have pop: "pops a" by (auto simp: pops_def)
    from a(2) obtain r where "lock_step a st = Some r" by blast
    with lock_step_ok [OF less.prems(1) this] obtain st1 where s: "lock_step a st = Some (Inr st1)" "locks_ok st1" by blast
    note sh = step_shrinks [OF less.prems(1) pop s(1) less.prems(2)]
    from less.hyps [OF sh(1) s(2) sh(2)] obtain as st' where i: "list_all pops as" "lock_run as st1 = Inr st'"
      "\<forall>t. stack st' t = []" "\<forall>k. ls_registry st' k = None" by blast
    then have "lock_run (a # as) st = Inr st'" "list_all pops (a # as)" using s(1) pop by simp_all
    with i(3,4) show ?thesis by blast
  next
    case False
    then have "f \<notin> set (all_frames st)" for f by (simp add: in_frames)
    then have none: "all_frames st = []" by (metis last_in_set)
    have reg: "registry_ok (ls_registry st) (ls_fresh st) (\<lambda>k. uses_key k (all_frames st))"
      using less.prems(1) by (simp add: locks_ok_def)
    have "ls_registry st k = None" for k using registry_count [OF reg, of k] unfolding none uses_key_simps(1) by (metis less_irrefl)
    with False show ?thesis by (intro exI [of _ "[]"] exI [of _ st]) simp
  qed
qed

text \<open>store_unique locks the directory and then, inside, a new name in it: the keys increase.\<close>

lemma path_str_child:
  assumes "x \<noteq> []"
  shows "path_str d < path_str (d @ [x])"
proof -
  have "path_str (d @ [x]) = (if d = [] then [slash] @ x else path_str d @ (slash # x))" by (simp add: path_str_def)
  then obtain y where "path_str (d @ [x]) = path_str d @ y" "y \<noteq> []" using assms by (cases "d = []") (auto simp: path_str_def)
  then show ?thesis by (auto simp: list_less_def neq_Nil_conv intro: lexord_append_rightI)
qed

lemma store_unique_increasing:
  assumes "x \<noteq> []" "fr_keys f = acquire_keys [path_str d]" "fr_keys g = acquire_keys [path_str (d @ [x])]"
  shows "increasing [g, f]"
  using path_str_child [OF assms(1), of d] assms(2,3) by (simp add: increasing_def acquire_keys_def)

text \<open>C32: The path locks exclude each other: whatever the threads do and however their steps interleave, no
  acquire or release raises, two threads are never both inside a block that locks the same path, and the
  registry counts for every path exactly the blocks that are open on it.\<close>

theorem locks_exclusive:
  "\<exists>st. lock_run as (new_registry n) = Inr st
     \<and> (\<forall>t u k. in_block st t k \<and> in_block st u k \<longrightarrow> t = u)
     \<and> (\<forall>k. (case ls_registry st k of None \<Rightarrow> 0 | Some (l, m) \<Rightarrow> m) = uses_key k (all_frames st))"
proof -
  from lock_run_ok [OF locks_ok_new] obtain st where st: "lock_run as (new_registry n) = Inr st" "locks_ok st" by blast
  then show ?thesis using exclusive registry_exact by blast
qed

definition sample_locking :: "lock_action list" where
  "sample_locking = [Enter 0 [''/d''], Enter 1 [''/d/x'', ''/a''], Lock 1, Lock 0, Enter 0 [''/d/x''], Lock 0, Lock 1]"

theorem locks_exclusive_witness:
  "case lock_run sample_locking (new_registry 2) of
     Inl e \<Rightarrow> False
   | Inr st \<Rightarrow> in_block st 0 ''/d/x'' \<and> \<not> in_block st 1 ''/d/x'' \<and> map_option snd (ls_registry st ''/d/x'') = Some 2"
proof -
  have v: "case lock_run sample_locking (new_registry 2) of
     Inl e \<Rightarrow> False | Inr st \<Rightarrow> in_block st 0 ''/d/x'' \<and> map_option snd (ls_registry st ''/d/x'') = Some 2" by code_simp
  from locks_exclusive obtain st where st: "lock_run sample_locking (new_registry 2) = Inr st"
    "\<forall>t u k. in_block st t k \<and> in_block st u k \<longrightarrow> t = u" by blast
  from v have "in_block st 0 ''/d/x''" "map_option snd (ls_registry st ''/d/x'') = Some 2" unfolding st(1) by simp_all
  moreover from this st(2) have "\<not> in_block st 1 ''/d/x''" by (metis zero_neq_one)
  ultimately show ?thesis unfolding st(1) by simp
qed

text \<open>C33: The path locks do not deadlock: as long as every thread locks nested blocks in increasing order (as
  store_unique does), in every reachable state with an open block some thread can take a step other than opening
  one, and there is a schedule of such steps that closes all blocks and leaves the registry empty.\<close>

theorem locks_no_deadlock:
  assumes "lock_run as (new_registry n) = Inr st" "list_all increasing (ls_threads st)"
  shows "((\<exists>t. stack st t \<noteq> []) \<longrightarrow> (\<exists>t. moves t st))
    \<and> (\<exists>as' st'. list_all pops as' \<and> lock_run as' st = Inr st' \<and> (\<forall>t. stack st' t = []) \<and> (\<forall>k. ls_registry st' k = None))"
proof -
  have ok: "locks_ok st" using lock_run_ok [OF locks_ok_new, of as n] assms(1) by simp
  have inc: "increasing (stack st t)" for t using assms(2) by (simp add: stack_def list_all_iff increasing_def)
  from progress [OF ok inc] drain [OF ok inc] show ?thesis by blast
qed

theorem locks_no_deadlock_witness:
  "case lock_run sample_locking (new_registry 2) of
     Inl e \<Rightarrow> False
   | Inr st \<Rightarrow> length (all_frames st) = 3 \<and> (\<exists>as' st'. list_all pops as' \<and> lock_run as' st = Inr st' \<and> (\<forall>t. stack st' t = []))"
proof -
  have v: "case lock_run sample_locking (new_registry 2) of
     Inl e \<Rightarrow> False | Inr st \<Rightarrow> length (all_frames st) = 3 \<and> list_all increasing (ls_threads st)" by code_simp
  obtain st where st: "lock_run sample_locking (new_registry 2) = Inr st" using lock_run_ok [OF locks_ok_new] by blast
  from v have s: "length (all_frames st) = 3" "list_all increasing (ls_threads st)" unfolding st by simp_all
  from locks_no_deadlock [OF st s(2)] s(1) show ?thesis unfolding st by simp blast
qed

end
