(* ===== verification/File_Transfer.thy ===== *)
theory File_Transfer
  imports Data_Channel Connection FTP_Client
begin

text \<open>
  Whole file transfers: what the decoder gives for a stream the receiver has finished, the file the server
  stores for it, and the file the client's download writes.
\<close>

section \<open>The bytes of a finished stream\<close>

lemma file_chunks:
  assumes "fs_wf fs" "plain fs p" "files fs p = Some d"
  shows "read_file_chunks fs p DEFAULT_CHUNK_SIZE = (chunks_of 1024 d, None)"
proof -
  have "path_exists fs p" using exists_plain [OF assms(1,2)] assms(3) by (auto simp: files_def split: option.splits)
  with read_plain [OF assms] show ?thesis by (simp add: read_file_chunks_def DEFAULT_CHUNK_SIZE_def)
qed

text \<open>The receiver has returned, and every datagram it saw was the sender's, damaged or foreign.\<close>

lemma finished_stream:
  assumes acc: "accepted mode typ" and small: "\<forall>c\<in>set cs. length c \<le> WIRE_CHUNK_SIZE"
    and la: "lookahead (encode_chunks (cs, None) mode typ) = (ps, err)"
    and chan: "\<forall>c e x. (c, Datagram e x) \<in> set ins \<longrightarrow> channel_ok scfg ps e"
    and hint: "rc_transfer_id_hint rcfg = Some (sc_transfer_id scfg)"
    and fin: "receiver_source (snd (receive_chunks_rdt rcfg ins)) = Some (ws, None)"
  shows "snd (decode_chunks (ws, None) mode typ) = None \<and> concat (fst (decode_chunks (ws, None) mode typ)) = concat cs"
proof -
  obtain es where es: "encode_chunks (cs, None) mode typ = (es, None)"
    using dispatch_total [OF acc, of cs] by (cases "encode_chunks (cs, None) mode typ") auto
  have le: "\<forall>y\<in>set es. length y \<le> 1024"
    using dispatch_bounds [OF acc, of "(cs, None)"] small es by (simp add: WIRE_CHUNK_SIZE_def)
  from lookahead_chunks [OF la [unfolded es]] have ps: "map fst ps = (if es = [] then [[]] else es)" by simp
  have "\<forall>ch\<in>set ps. length (fst ch) \<le> 1024"
    by (rule lookahead_small [OF la [unfolded es]]) (use le in simp)
  moreover have "last_only ps" using last_only_lookahead [OF la] by blast
  ultimately have "prefix_inv scfg ps (snd (receive_chunks_rdt rcfg ins))" by (rule receive_prefix [OF chan _ _ hint])
  moreover have "r_pc (snd (receive_chunks_rdt rcfg ins)) = RecvReturned" "r_yielded (snd (receive_chunks_rdt rcfg ins)) = ws"
    using fin by (auto split: receiver_pc.splits)
  ultimately have "ws = map fst ps" by (auto simp: prefix_inv_def)
  with dispatch_delivered [OF acc es] ps show ?thesis by simp
qed

text \<open>Only a result of the service settles to a success.\<close>

lemma settled_success:
  assumes "upload_reply (fs, r) = Inr res" "tr_success res"
  shows "\<exists>u. r = Inr u \<and> res = result_ok (up_bytes u) (up_path u)"
proof (cases r)
  case (Inl e)
  with assms show ?thesis by (cases e) (auto simp: upload_reply_def result_failed_def)
next
  case (Inr u)
  with assms show ?thesis by (auto simp: upload_reply_def)
qed

text \<open>A stream of one chunk that arrives undamaged: the START, the last packet, and the silence of the grace period.\<close>

lemma short_stream:
  assumes ready: "link_ready K [c]" and p: "start_packet (k_send K) = Inr p"
    and d: "data_packet (k_send K) 0 (c, True) = Inr d"
  shows "receiver_source (snd (receive_chunks_rdt (k_recv K)
      ([(False, Datagram p (k_addr K)), (False, Datagram d (k_addr K))] @ replicate 3 (False, Timeout)))) = Some ([c], None)"
proof -
  have "listening K (receiver_init (k_recv K))"
    using ready by (auto simp: listening_def receiver_init_def link_ready_def Let_def)
  from receiver_hears_start [OF ready p this] obtain a st where
    st: "receiver_step (k_recv K) (False, Datagram p (k_addr K)) (receiver_init (k_recv K)) = ([(k_addr K, a)], st)"
    "listening K st" "r_yielded st = []" "r_expected_seq st = 0" by (auto simp: receiver_init_def)
  have "length c \<le> 1024" using ready by (simp add: link_ready_def Let_def)
  with receiver_hears_data [OF ready, of 0 "(c, True)" d st] d st obtain a' st' where
    st': "receiver_step (k_recv K) (False, Datagram d (k_addr K)) st = ([(k_addr K, a')], st')"
    "r_yielded st' = [c]" "r_pc st' = Grace grace_attempts 0" by auto
  show ?thesis
    using st(1) st' by (simp add: receive_chunks_rdt_def numeral_3_eq_3 receiver_step_def [of _ _ st']
        receiver_step_def [of _ "(False, Timeout)"] grace_attempts_def after_grace_def)
qed

section \<open>The client's atomic write\<close>

lemma make_parents_there:
  assumes "file_place fs p"
  shows "make_parents fs p = (fs, None)"
proof -
  let ?d = "butlast p"
  from assms have w: "fs_wf fs" and pl: "plain fs ?d" and d: "is_dir fs ?d" by (simp_all add: file_place_def plain_butlast)
  have up: "path_exists fs (butlast ?d)" if "?d \<noteq> []"
  proof -
    have "is_dir fs (butlast ?d)" using wf_ancestors [OF w, of "butlast ?d" "[last ?d]"] d that by simp
    then show ?thesis using exists_plain [OF w plain_butlast [OF pl]] by (auto simp: is_dir_def split: option.splits)
  qed
  have "sys_mkdir fs ?d = Inl EEXIST"
  proof -
    have "?d = [] \<or> is_dir fs (butlast ?d)" using wf_ancestors [OF w, of "butlast ?d" "[last ?d]"] d by (cases "?d = []") simp_all
    then show ?thesis using locate_plain [OF w pl, of ?d] d by (auto simp: sys_mkdir_def is_dir_def split: option.splits)
  qed
  moreover have "path_isdir fs ?d" using isdir_plain [OF w pl] d by simp
  ultimately show ?thesis using up by (cases "?d = []") (simp_all add: make_parents_def makedirs.simps [of True fs ?d] makedirs.simps [of True fs "[]"])
qed

lemma atomic_write_effect:
  assumes place: "file_place fs p" and names: "list_all (\<lambda>r. slash \<notin> set r) temps"
    and wr: "write_file_from_chunks_atomic temps fs p chunks = (fs', r)"
  shows "(case r of
      Inl e \<Rightarrow> node fs' = node fs
    | Inr n \<Rightarrow> files fs' p = Some (concat (fst chunks)) \<and> snd chunks = None \<and> n = int (length (concat (fst chunks)))
        \<and> (\<forall>q. q \<noteq> p \<longrightarrow> node fs' q = node fs q))"
proof (cases "mkstemp fs (butlast p) (temp_prefix p) ''.part'' temps")
  case (Inl e)
  then show ?thesis using wr by (auto simp: write_file_from_chunks_atomic_def make_parents_there [OF place])
next
  case (Inr tf)
  obtain t fs1 where tf: "tf = (t, fs1)" by (cases tf)
  note t = temp_made [OF place names Inr [unfolded tf]]
  obtain fs2 r2 where w: "write_chunks fs1 t 0 chunks = (fs2, r2)" by (cases "write_chunks fs1 t 0 chunks")
  note eff = write_chunks_effect [OF w t(9)]
  have g: "fs_wf fs2" "is_link fs2 = is_link fs" "\<And>q. q \<noteq> t \<Longrightarrow> node fs2 q = node fs q" "\<And>q. is_dir fs2 q = is_dir fs q"
    and d: "files fs2 t = Some (concat (fst chunks))" using eff t(7,8,10,11) by simp_all
  then have "files fs2 t \<noteq> None" by simp
  note gone = temp_removed [OF place t(1,6,5,4) g this]
  from temp_commit [OF place t(2,3,5,4) g d] obtain fs3 where fs3: "sys_rename fs2 t p = Inr fs3"
    "files fs3 p = Some (concat (fst chunks))" "\<forall>q. q \<noteq> p \<longrightarrow> node fs3 q = node fs q" by blast
  have "write_file_from_chunks_atomic temps fs p chunks = (case r2 of Inl e \<Rightarrow> (cut fs2 t, Inl e) | Inr n \<Rightarrow> (fs3, Inr n))"
    using Inr tf w gone(1) fs3(1)
    by (simp add: write_file_from_chunks_atomic_def make_parents_there [OF place] discard_temp_def split: sum.split)
  then show ?thesis using wr eff gone(2) fs3(2,3) by (cases "snd chunks") (auto split: sum.splits)
qed

section \<open>Receiving a file into an atomic writer\<close>

text \<open>
  What both receiving ends rely on: a writer that consumes the decoded chunks and either commits all of
  them at the path or changes nothing. place is where it may write, size_of the size it reports.
\<close>

locale atomic_writer =
  fixes store :: "file_system \<Rightarrow> path \<Rightarrow> source \<Rightarrow> 'r outcome"
    and place :: "file_system \<Rightarrow> path \<Rightarrow> bool"
    and size_of :: "'r \<Rightarrow> int"
  assumes commits: "place fs p \<Longrightarrow> store fs p chunks = (fs', Inr r) \<Longrightarrow> snd chunks = None
      \<and> files fs' p = Some (concat (fst chunks)) \<and> size_of r = int (length (concat (fst chunks)))
      \<and> (\<forall>q. q \<noteq> p \<longrightarrow> node fs' q = node fs q)"
    and keeps: "place fs p \<Longrightarrow> store fs p chunks = (fs', Inl e) \<Longrightarrow> node fs' = node fs"
begin

text \<open>A stream the writer commits is the whole file of the sender, whatever the network did to it.\<close>

lemma delivers:
  assumes original: "fs_wf cfs" "plain cfs local" "files cfs local = Some d"
      "lookahead (encode_chunks (read_file_chunks cfs local DEFAULT_CHUNK_SIZE) mode typ) = (ps, err)"
    and network: "accepted mode typ" "rc_transfer_id_hint rcfg = Some (sc_transfer_id scfg)"
      "\<forall>c e x. (c, Datagram e x) \<in> set ins \<longrightarrow> channel_ok scfg ps e"
    and src: "snd src = None \<Longrightarrow> receiver_source (snd (receive_chunks_rdt rcfg ins)) = Some src"
    and wr: "place fs p" "store fs p (decode_chunks src mode typ) = (fs', Inr r)"
  shows "files fs' p = Some d \<and> size_of r = int (length d) \<and> (\<forall>q. q \<noteq> p \<longrightarrow> node fs' q = node fs q)"
proof -
  note c = commits [OF wr]
  have "snd src = None" using dispatch_error [OF network(1)] c by (metis prod.collapse not_None_eq option.distinct(1))
  then obtain ws where ws: "src = (ws, None)" by (cases src) auto
  with src have "receiver_source (snd (receive_chunks_rdt rcfg ins)) = Some (ws, None)" by simp
  from finished_stream [OF network(1) _ original(4) [unfolded file_chunks [OF original(1-3)]] network(3,2) this]
  have "concat (fst (decode_chunks src mode typ)) = d"
    using chunks_of_sizes [of _ 1024 d] chunks_of_concat [of 1024 d] by (auto simp: ws WIRE_CHUNK_SIZE_def)
  with c show ?thesis by simp
qed

end

interpretation service_writer: atomic_writer "\<lambda>fs p chunks. snd (atomic_upload env fs p chunks False)"
  "\<lambda>fs p. good_root fs root \<and> inside fs root p \<and> temps_ok env" up_bytes for env root
proof
  fix fs p chunks fs' and r :: upload_result
  assume "good_root fs root \<and> inside fs root p \<and> temps_ok env" "snd (atomic_upload env fs p chunks False) = (fs', Inr r)"
  then show "snd chunks = None \<and> files fs' p = Some (concat (fst chunks)) \<and> up_bytes r = int (length (concat (fst chunks)))
      \<and> (\<forall>q. q \<noteq> p \<longrightarrow> node fs' q = node fs q)"
    using atomic_upload_effect [of fs root p env chunks False "fst (atomic_upload env fs p chunks False)" fs' "Inr r"]
    by (cases "atomic_upload env fs p chunks False") simp
next
  fix fs p chunks fs' e
  assume "good_root fs root \<and> inside fs root p \<and> temps_ok env" "snd (atomic_upload env fs p chunks False) = (fs', Inl e)"
  then show "node fs' = node fs"
    using atomic_upload_effect [of fs root p env chunks False "fst (atomic_upload env fs p chunks False)" fs' "Inl e"]
    by (cases "atomic_upload env fs p chunks False") simp
qed

interpretation client_writer: atomic_writer "write_file_from_chunks_atomic temps"
  "\<lambda>fs p. file_place fs p \<and> list_all (\<lambda>r. slash \<notin> set r) temps" "\<lambda>n. n" for temps
  using atomic_write_effect by unfold_locales fastforce+

section \<open>Properties\<close>

text \<open>C2: An upload stores the client's file. The datagrams the server receives are packets of the client's
  stream of the file, damaged by bursts of at most four bytes, unreadable or foreign, in any order and number,
  and lost at will. When the server reports success, the path the client named holds exactly the bytes of the
  client's file, the report counts them, and no other path has changed.\<close>

theorem upload_stores_file:
  assumes server: "store_inv root fs0 fs" "temps_ok env" "slashless cwd"
      "transfer_target fs (ta_cwd a) name = (cwd, cp)" "resolve root fs cwd cp = Inr p"
    and client: "fs_wf cfs" "plain cfs local" "files cfs local = Some d"
      "lookahead (encode_chunks (read_file_chunks cfs local DEFAULT_CHUNK_SIZE) (args_mode a) (args_type a)) = (ps, err)"
    and network: "accepted (args_mode a) (args_type a)" "sc_transfer_id scfg = ctx_wire_id (ta_context a)"
      "\<forall>c e x. (c, Datagram e x) \<in> set ins \<longrightarrow> channel_ok scfg ps e"
    and run: "upload env root fs a name ins = Some (tr, fs', Inr res)" "tr_success res"
  shows "files fs' p = Some d \<and> tr_bytes res = int (length d) \<and> tr_path res = Some p
    \<and> (\<forall>q. q \<noteq> p \<longrightarrow> node fs' q = node fs q)"
proof -
  have root: "good_root fs root" using server(1) by (simp add: store_inv_def)
  note ins = store_inv_resolve(2) [OF server(1,3,5)]
  obtain src where src: "receive_source a ins = Some src"
    and fin: "finished (svc_store env root fs cwd cp (decode_chunks src (args_mode a) (args_type a))) = (tr, fs', Inr res)"
    using run(1) by (auto simp: upload_def server(4))
  obtain tr2 fs2 r2 where at: "atomic_upload env fs p (decode_chunks src (args_mode a) (args_type a)) False = (tr2, fs2, r2)"
    by (metis prod_cases3)
  have e: "fs' = fs2" "upload_reply (fs2, r2) = Inr res" using fin by (auto simp: finished_def svc_store_def at server(5))
  obtain u where u: "r2 = Inr u" "res = result_ok (up_bytes u) (up_path u)"
    using settled_success [OF e(2) run(2)] by auto
  from src have recv: "snd src = None \<Longrightarrow> receiver_source (snd (receive_chunks_rdt (receiver_adapter (ta_context a)) ins)) = Some src"
    by (auto simp: receive_source_def adapter_receive_def split: if_splits)
  have hint: "rc_transfer_id_hint (receiver_adapter (ta_context a)) = Some (sc_transfer_id scfg)"
    by (simp add: receiver_adapter_def network(2))
  have pl: "good_root fs root \<and> inside fs root p \<and> temps_ok env" and wr: "snd (atomic_upload env fs p
      (decode_chunks src (args_mode a) (args_type a)) False) = (fs2, Inr u)" using root ins server(2) at u(1) by simp_all
  note service_writer.delivers [OF client network(1) hint network(3) recv pl wr]
  moreover have "up_path u = p" using atomic_upload_effect [OF root ins server(2) at] by (simp add: u(1))
  ultimately show ?thesis by (simp add: e(1) u(2) result_ok_def)
qed

definition sample_context :: transfer_context where
  "sample_context = \<lparr>ctx_transfer_id = ''T1'', ctx_operation = STOR, ctx_session_id = ''S000001'',
     ctx_endpoint = \<lparr>ep_host = ''127.0.0.1'', ep_port = 6000, ep_mode = PASSIVE\<rparr>,
     ctx_chunk_size = 1024, ctx_timeout_ms = 500, ctx_retry_limit = 10, ctx_max_timeouts = 10, ctx_window_size = 4,
     ctx_total_bytes = Some 3, ctx_transfer_mode = ''S'', ctx_transfer_type = ''I''\<rparr>"

definition sample_args :: transfer_args where
  "sample_args = \<lparr>ta_socket = Some 1, ta_host = Some ''127.0.0.1'', ta_port = Some 6000, ta_event = 1,
     ta_context = sample_context, ta_data_mode = Some PASSIVE, ta_cwd = sample_root, ta_peer_ip = Some ''127.0.0.1''\<rparr>"

definition sample_transfer :: link_cfg where
  "sample_transfer = \<lparr>k_send = sender_adapter (\<lambda>h. h) (ctx_endpoint sample_context) sample_context,
     k_recv = receiver_adapter sample_context, k_addr = (''127.0.0.1'', 5000), k_dup = False\<rparr>"

lemma sample_transfer_ready: "link_ready sample_transfer [[1, 2, 3]]"
  using normalize_transfer_id_range [of "TidStr ''T1''"]
  by (simp add: link_ready_def sample_transfer_def sender_adapter_def receiver_adapter_def sample_context_def
      ctx_wire_id_def sample_names modes_def types_def del: normalize_transfer_id.simps)

text \<open>The datagrams of a transfer of the bytes 1, 2, 3, and what a receiver makes of them.\<close>

lemma sample_stream:
  obtains ins where "receiver_source (snd (receive_chunks_rdt (receiver_adapter sample_context) ins)) = Some ([[1, 2, 3]], None)"
    "\<forall>c e x. (c, Datagram e x) \<in> set ins \<longrightarrow> channel_ok (k_send sample_transfer) [([1, 2, 3], True)] e"
proof -
  obtain p where p: "start_packet (k_send sample_transfer) = Inr p" using ready_start [OF sample_transfer_ready] by blast
  obtain d where d: "data_packet (k_send sample_transfer) 0 ([1, 2, 3], True) = Inr d"
    using ready_data [OF sample_transfer_ready, of 0 "[([1, 2, 3], True)]"] by auto
  note short_stream [OF sample_transfer_ready p d]
  moreover have "k_recv sample_transfer = receiver_adapter sample_context" by (simp add: sample_transfer_def)
  ultimately show ?thesis using p d that by (fastforce simp: channel_ok_def sender_packet_def)
qed

lemma sample_chunks:
  "lookahead (encode_chunks (read_file_chunks clean_tree [''ftp'', ''a''] DEFAULT_CHUNK_SIZE) (Some ''S'') (Some ''I''))
     = ([([1, 2, 3], True)], None)"
  by code_simp

theorem upload_stores_file_witness:
  "\<exists>ins tr fs' res. upload sample_env sample_root clean_tree sample_args ''n'' ins = Some (tr, fs', Inr res)
     \<and> tr_success res \<and> files fs' [''ftp'', ''n''] = Some [1, 2, 3]"
proof -
  obtain ins where ins: "receiver_source (snd (receive_chunks_rdt (receiver_adapter sample_context) ins)) = Some ([[1, 2, 3]], None)"
    "\<forall>c e x. (c, Datagram e x) \<in> set ins \<longrightarrow> channel_ok (k_send sample_transfer) [([1, 2, 3], True)] e"
    by (rule sample_stream)
  have mt: "args_mode sample_args = Some ''S''" "args_type sample_args = Some ''I''" by code_simp+
  have target: "transfer_target clean_tree sample_root ''n'' = (sample_root, ''n'')" by code_simp
  have cwd: "ta_cwd sample_args = sample_root" by (simp add: sample_args_def)
  let ?run = "finished (svc_store sample_env sample_root clean_tree sample_root ''n''
      (decode_chunks ([[1, 2, 3]], None) (Some ''S'') (Some ''I'')))"
  have "receive_source sample_args ins = Some ([[1, 2, 3]], None)"
    using ins(1) by (simp add: receive_source_def adapter_receive_def sample_args_def)
  then have run: "upload sample_env sample_root clean_tree sample_args ''n'' ins = Some ?run"
    by (simp add: upload_def cwd target mt del: receiver_source.simps)
  have ok: "case snd (snd ?run) of Inl e \<Rightarrow> False | Inr res \<Rightarrow> tr_success res" by code_simp
  obtain tr fs' r where r: "?run = (tr, fs', r)" by (metis prod_cases3)
  with ok obtain res where res: "r = Inr res" "tr_success res" by (cases r) auto
  have inv: "store_inv sample_root clean_tree clean_tree"
    using clean_good clean_loop_free by (simp add: store_inv_def same_outside_def)
  have re: "resolve sample_root clean_tree sample_root ''n'' = Inr [''ftp'', ''n'']" by code_simp
  have fs: "temps_ok sample_env" "slashless sample_root" "fs_wf clean_tree" "plain clean_tree [''ftp'', ''a'']"
    "files clean_tree [''ftp'', ''a''] = Some [1, 2, 3]" "accepted (Some ''S'') (Some ''I'')" by code_simp+
  have id: "sc_transfer_id (k_send sample_transfer) = ctx_wire_id (ta_context sample_args)"
    by (simp add: sample_transfer_def sender_adapter_def sample_args_def)
  from upload_stores_file [OF inv fs(1,2) _ re fs(3-5) _ _ id ins(2) run [unfolded r res(1)] res(2)]
  have "files fs' [''ftp'', ''n''] = Some [1, 2, 3]" by (simp add: cwd target mt sample_chunks fs(6))
  then show ?thesis using run r res by auto
qed

text \<open>C4: A download writes the server's file. Under the same network, the client's receive_file_rdt either
  returns True and the path it saves to holds exactly the bytes of the server's file, nothing else having
  changed, or it returns False and its file system is as it was.\<close>

theorem download_writes_file:
  assumes server: "fs_wf fs" "plain fs p" "files fs p = Some d"
      "lookahead (encode_chunks (read_file_chunks fs p DEFAULT_CHUNK_SIZE) (Some mode) (Some typ)) = (ps, err)"
    and network: "accepted (Some mode) (Some typ)"
      "\<forall>c e x. (c, Datagram e x) \<in> set (te_data env) \<longrightarrow> channel_ok scfg ps e"
    and client: "file_place cfs save" "list_all (\<lambda>r. slash \<notin> set r) (te_temps env)"
    and run: "receive_file_rdt env cfs save (sc_transfer_id scfg) mode typ = Some (cfs', ok)"
  shows "if ok then files cfs' save = Some d \<and> (\<forall>q. q \<noteq> save \<longrightarrow> node cfs' q = node cfs q) else node cfs' = node cfs"
proof -
  let ?cfg = "\<lparr>rc_transfer_id_hint = Some (sc_transfer_id scfg), rc_timeout_ms = 1000, rc_max_timeouts = 5,
      rc_expected_mode = Some mode, rc_expected_type = Some typ\<rparr>"
  obtain src where src: "receiver_source (snd (receive_chunks_rdt ?cfg (te_data env))) = Some src"
    using run by (cases "receiver_source (snd (receive_chunks_rdt ?cfg (te_data env)))")
      (simp_all add: receive_file_rdt_def del: receiver_source.simps)
  obtain fs1 r where w1: "write_file_from_chunks_atomic (te_temps env) cfs save (decode_chunks src (Some mode) (Some typ)) = (fs1, r)"
    by (metis surj_pair)
  have ok: "fs1 = cfs'" "ok \<longleftrightarrow> (\<exists>n. r = Inr n)"
    using run src w1 by (cases r; simp add: receive_file_rdt_def del: receiver_source.simps)+
  note wr = w1 [unfolded ok(1)]
  have pl: "file_place cfs save \<and> list_all (\<lambda>r. slash \<notin> set r) (te_temps env)" using client by simp
  have hint: "rc_transfer_id_hint ?cfg = Some (sc_transfer_id scfg)" by simp
  show ?thesis
  proof (cases r)
    case (Inl e)
    with client_writer.keeps [OF pl] wr ok show ?thesis by simp
  next
    case (Inr n)
    with client_writer.delivers [OF server network(1) hint network(2) src pl] wr ok show ?thesis by simp
  qed
qed

theorem download_writes_file_witness:
  "\<exists>ins cfs'. receive_file_rdt \<lparr>te_local_ip = ''127.0.0.1'', te_local_port = 6000, te_temps = [''abc''], te_data = ins,
        te_host_of = (\<lambda>h. h)\<rparr> clean_tree [''etc'', ''x''] (ctx_wire_id sample_context) ''S'' ''I'' = Some (cfs', True)
     \<and> files cfs' [''etc'', ''x''] = Some [1, 2, 3]"
proof -
  let ?K = "sample_transfer\<lparr>k_recv := (receiver_adapter sample_context)\<lparr>rc_timeout_ms := 1000, rc_max_timeouts := 5\<rparr>\<rparr>"
  have ready: "link_ready ?K [[1, 2, 3]]" using sample_transfer_ready by (simp add: link_ready_def sample_transfer_def Let_def)
  obtain p where p: "start_packet (k_send ?K) = Inr p" using ready_start [OF ready] by blast
  obtain d where d: "data_packet (k_send ?K) 0 ([1, 2, 3], True) = Inr d"
    using ready_data [OF ready, of 0 "[([1, 2, 3], True)]"] by auto
  define ins where "ins = [(False, Datagram p (k_addr ?K)), (False, Datagram d (k_addr ?K))] @ replicate 3 (False, Timeout)"
  let ?env = "\<lparr>te_local_ip = ''127.0.0.1'', te_local_port = 6000, te_temps = [''abc''], te_data = ins, te_host_of = (\<lambda>h. h)\<rparr>"
  have chan: "\<forall>c e x. (c, Datagram e x) \<in> set (te_data ?env) \<longrightarrow> channel_ok (k_send sample_transfer) [([1, 2, 3], True)] e"
    using p d by (fastforce simp: channel_ok_def sender_packet_def ins_def)
  have cfg: "k_recv ?K = \<lparr>rc_transfer_id_hint = Some (sc_transfer_id (k_send sample_transfer)), rc_timeout_ms = 1000,
      rc_max_timeouts = 5, rc_expected_mode = Some ''S'', rc_expected_type = Some ''I''\<rparr>"
    by (simp add: receiver_adapter_def sample_transfer_def sender_adapter_def sample_context_def)
  have id: "sc_transfer_id (k_send sample_transfer) = ctx_wire_id sample_context"
    by (simp add: sample_transfer_def sender_adapter_def)
  let ?w = "write_file_from_chunks_atomic [''abc''] clean_tree [''etc'', ''x''] (decode_chunks ([[1, 2, 3]], None) (Some ''S'') (Some ''I''))"
  have "case snd ?w of Inl e \<Rightarrow> False | Inr n \<Rightarrow> True" by code_simp
  then obtain cfs' n where w: "?w = (cfs', Inr n)" by (cases ?w; cases "snd ?w") auto
  have run: "receive_file_rdt ?env clean_tree [''etc'', ''x''] (sc_transfer_id (k_send sample_transfer)) ''S'' ''I'' = Some (cfs', True)"
    using short_stream [OF ready p d, folded ins_def, unfolded cfg] w
    by (simp add: receive_file_rdt_def del: receiver_source.simps)
  have fs: "fs_wf clean_tree" "plain clean_tree [''ftp'', ''a'']" "files clean_tree [''ftp'', ''a''] = Some [1, 2, 3]"
    "accepted (Some ''S'') (Some ''I'')" "file_place clean_tree [''etc'', ''x'']" by code_simp+
  from download_writes_file [OF fs(1-3) sample_chunks fs(4) chan fs(5) _ run]
  have "files cfs' [''etc'', ''x''] = Some [1, 2, 3]" by (simp add: slash_def)
  then show ?thesis using run id by auto
qed

section \<open>An upload that goes through\<close>

text \<open>What the receiver of a link hears is a script of answers.\<close>

lemma link_script: "link_reach K chunks l \<Longrightarrow> \<exists>ins. l_receiver l = snd (receive_chunks_rdt (k_recv K) ins)"
proof (induction rule: link_reach.induct)
  case reach_init
  then show ?case by (intro exI [of _ "[]"]) (simp add: link_init_def receive_chunks_rdt_def)
next
  case (reach_step l l')
  then obtain ins where ins: "l_receiver l = snd (receive_chunks_rdt (k_recv K) ins)" by blast
  from reach_step.hyps(2) have "l_receiver l' = l_receiver l
      \<or> (\<exists>i out. receiver_step (k_recv K) i (l_receiver l) = (out, l_receiver l'))"
    by (cases rule: link_step.cases) (simp_all, blast+)
  then show ?case
  proof (elim disjE exE)
    fix i out assume "receiver_step (k_recv K) i (l_receiver l) = (out, l_receiver l')"
    then have "l_receiver l' = snd (receive_chunks_rdt (k_recv K) (ins @ [i]))"
      unfolding receive_chunks_rdt_def receiver_run_append using ins
      by (simp add: receive_chunks_rdt_def)
    then show ?thesis by blast
  qed (use ins in auto)
qed

text \<open>C3: An upload can succeed. When the server's side is ready, that is the target lies in an existing
  directory, a temporary name is free, the disk does not fill up and nobody aborts, then from the start of the
  transfer the network can behave so that the client's sender returns the full size and the server's upload
  reports success with the client's file stored.\<close>

theorem upload_can_succeed:
  assumes server: "store_inv root fs0 fs" "temps_ok env" "slashless cwd" "ta_socket a \<noteq> None"
      "transfer_target fs (ta_cwd a) name = (cwd, cp)" "resolve root fs cwd cp = Inr p"
      "is_dir fs (butlast p)" "\<not> is_dir fs p"
      "list_ex (\<lambda>r. node fs (temp_path (butlast p) (temp_prefix p) ''.part'' r) = None) (ue_temps env)"
      "\<forall>k. \<not> ue_cancel env k \<and> \<not> ue_full env k"
    and client: "fs_wf cfs" "plain cfs local" "files cfs local = Some d"
      "encode_chunks (read_file_chunks cfs local DEFAULT_CHUNK_SIZE) (args_mode a) (args_type a) = (ws, None)"
    and ready: "accepted (args_mode a) (args_type a)" "link_ready K ws" "k_recv K = receiver_adapter (ta_context a)"
  shows "\<exists>l ins tr fs' res. link_reach K (ws, None) l \<and> s_pc (l_sender l) = SendReturned (int (length (concat ws)))
    \<and> l_receiver l = snd (receive_chunks_rdt (k_recv K) ins)
    \<and> upload env root fs a name ins = Some (tr, fs', Inr res) \<and> tr_success res \<and> files fs' p = Some d"
proof -
  have root: "good_root fs root" using server(1) by (simp add: store_inv_def)
  note ins = store_inv_resolve(2) [OF server(1,3,6)]
  from can_complete [OF ready(2)] obtain l where l: "link_reach K (ws, None) l"
    "s_pc (l_sender l) = SendReturned (int (length (concat ws)))" "r_pc (l_receiver l) = RecvReturned"
    "r_yielded (l_receiver l) = (if ws = [] then [[]] else ws)" by blast
  from link_script [OF l(1)] obtain heard where heard: "l_receiver l = snd (receive_chunks_rdt (k_recv K) heard)" by blast
  let ?src = "(if ws = [] then [[]] else ws, None)"
  let ?dec = "decode_chunks ?src (args_mode a) (args_type a)"
  have src: "receive_source a heard = Some ?src"
    using server(4) l(3,4) heard ready(3) by (simp add: receive_source_def adapter_receive_def)
  have dec: "snd ?dec = None" "concat (fst ?dec) = d"
    using dispatch_delivered [OF ready(1) client(4) [unfolded file_chunks [OF client(1-3)]]] chunks_of_concat [of 1024 d]
    by simp_all
  have "p \<noteq> []" using server(8) wf_root good_rootD(1) [OF root] by auto
  then have place: "file_place fs p"
    using server(7,8) good_rootD(1) [OF root] insideD(1,2) [OF ins] by (simp add: file_place_def names_ok_def)
  from atomic_upload_succeeds [OF place server(2,9,10) dec(1)] obtain tr fs' u where
    up: "atomic_upload env fs p ?dec False = (tr, fs', Inr u)" by blast
  have "files fs' p = Some d" using atomic_upload_effect [OF root ins server(2) up] dec(2) by simp
  moreover have "upload env root fs a name heard = Some (tr, fs', Inr (result_ok (up_bytes u) (up_path u)))"
    by (simp add: upload_def server(5) src finished_def svc_store_def server(6) up upload_reply_def del: receiver_source.simps)
  ultimately show ?thesis using l(1,2) heard by (intro exI conjI) (assumption | simp add: result_ok_def)+
qed

theorem upload_can_succeed_witness:
  "\<exists>l ins tr fs' res. link_reach sample_transfer ([[1, 2, 3]], None) l \<and> s_pc (l_sender l) = SendReturned 3
     \<and> l_receiver l = snd (receive_chunks_rdt (receiver_adapter sample_context) ins)
     \<and> upload (sample_env\<lparr>ue_full := \<lambda>k. False\<rparr>) sample_root clean_tree sample_args ''d/n'' ins = Some (tr, fs', Inr res)
     \<and> tr_success res \<and> files fs' [''ftp'', ''d'', ''n''] = Some [1, 2, 3]"
proof -
  let ?env = "sample_env\<lparr>ue_full := \<lambda>k. False\<rparr>" and ?p = "[''ftp'', ''d'', ''n'']"
  have inv: "store_inv sample_root clean_tree clean_tree"
    using clean_good clean_loop_free by (simp add: store_inv_def same_outside_def)
  have server: "temps_ok ?env" "slashless sample_root" "transfer_target clean_tree sample_root ''d/n'' = (sample_root, ''d/n'')"
    "resolve sample_root clean_tree sample_root ''d/n'' = Inr ?p" "is_dir clean_tree (butlast ?p)" "\<not> is_dir clean_tree ?p"
    "list_ex (\<lambda>r. node clean_tree (temp_path (butlast ?p) (temp_prefix ?p) ''.part'' r) = None) (ue_temps ?env)"
    by code_simp+
  have quiet: "\<forall>k. \<not> ue_cancel ?env k \<and> \<not> ue_full ?env k" by (simp add: sample_env_def)
  have client: "fs_wf clean_tree" "plain clean_tree [''ftp'', ''a'']" "files clean_tree [''ftp'', ''a''] = Some [1, 2, 3]"
    "encode_chunks (read_file_chunks clean_tree [''ftp'', ''a''] DEFAULT_CHUNK_SIZE) (Some ''S'') (Some ''I'') = ([[1, 2, 3]], None)"
    "accepted (Some ''S'') (Some ''I'')" by code_simp+
  have args: "args_mode sample_args = Some ''S''" "args_type sample_args = Some ''I''" by code_simp+
  have a: "ta_cwd sample_args = sample_root" "ta_socket sample_args \<noteq> None" "ta_context sample_args = sample_context"
    by (simp_all add: sample_args_def)
  have k: "k_recv sample_transfer = receiver_adapter (ta_context sample_args)" by (simp add: sample_transfer_def a)
  have "\<exists>l ins tr fs' res. link_reach sample_transfer ([[1, 2, 3]], None) l
      \<and> s_pc (l_sender l) = SendReturned (int (length (concat [[1, 2, 3 :: byte]])))
      \<and> l_receiver l = snd (receive_chunks_rdt (k_recv sample_transfer) ins)
      \<and> upload ?env sample_root clean_tree sample_args ''d/n'' ins = Some (tr, fs', Inr res) \<and> tr_success res
      \<and> files fs' ?p = Some [1, 2, 3]"
    by (rule upload_can_succeed [OF inv server(1,2) a(2) _ server(4-7) quiet client(1-3) _ _ sample_transfer_ready k])
      (simp_all add: server(3) client(4,5) args a(1))
  then show ?thesis by (simp add: k a(3))
qed

end
