(* ===== verification/FTP_CLI.thy ===== *)
theory FTP_CLI
  imports FTP_Client
begin

text \<open>
  src/client/ftp_cli.py, the terminal client, with Python's shlex.split, and the session of
  src/client/demo_transfer.py. What is typed is a script; each line comes with what the client's system
  and network give the transfer it may start. The replies a transfer prints on its way and the command
  line options are left out.
\<close>

section \<open>shlex.split\<close>

text \<open>The states of the POSIX lexer: between words, in a word, in quotes, and after a backslash outside or in quotes.\<close>

datatype shlex_state = Blank | InWord | Quoted char | Escaped "char option"

definition shlex_space :: "char \<Rightarrow> bool" where
  "shlex_space c \<longleftrightarrow> ord_char c \<in> {9, 10, 13, 32}"

definition single_quote :: char where
  "single_quote = char_of (39::nat)"

definition double_quote :: char where
  "double_quote = char_of (34::nat)"

definition backslash :: char where
  "backslash = char_of (92::nat)"

definition is_quote :: "char \<Rightarrow> bool" where
  "is_quote c \<longleftrightarrow> c = single_quote \<or> c = double_quote"

text \<open>The token read so far is a word unless it is empty and nothing of it was quoted.\<close>

definition token :: "string \<Rightarrow> bool \<Rightarrow> string list" where
  "token t inq = (if t = [] \<and> \<not> inq then [] else [t])"

definition more_tokens :: "string list \<Rightarrow> exn + string list \<Rightarrow> exn + string list" where
  "more_tokens ts r = (case r of Inl e \<Rightarrow> Inl e | Inr us \<Rightarrow> Inr (ts @ us))"

definition after_escape :: "char option \<Rightarrow> char \<Rightarrow> string" where
  "after_escape q c = (if q = None \<or> c = backslash \<or> q = Some c then [c] else [backslash, c])"

fun shlex_read :: "shlex_state \<Rightarrow> string \<Rightarrow> bool \<Rightarrow> string \<Rightarrow> exn + string list" where
  "shlex_read (Quoted q) t inq [] = Inl (ValueError ''No closing quotation'')"
| "shlex_read (Escaped q) t inq [] = Inl (ValueError ''No escaped character'')"
| "shlex_read Blank t inq [] = Inr (token t inq)"
| "shlex_read InWord t inq [] = Inr (token t inq)"
| "shlex_read (Quoted q) t inq (c # s) =
     (if c = q then shlex_read InWord t True s
      else if c = backslash \<and> q = double_quote then shlex_read (Escaped (Some q)) t True s
      else shlex_read (Quoted q) (t @ [c]) True s)"
| "shlex_read (Escaped q) t inq (c # s) =
     shlex_read (case q of None \<Rightarrow> InWord | Some x \<Rightarrow> Quoted x) (t @ after_escape q c) inq s"
| "shlex_read Blank t inq (c # s) =
     (if shlex_space c then more_tokens (token t inq) (shlex_read Blank [] False s)
      else if c = backslash then shlex_read (Escaped None) t inq s
      else if is_quote c then shlex_read (Quoted c) t inq s
      else shlex_read InWord [c] inq s)"
| "shlex_read InWord t inq (c # s) =
     (if shlex_space c then more_tokens (token t inq) (shlex_read Blank [] False s)
      else if is_quote c then shlex_read (Quoted c) t inq s
      else if c = backslash then shlex_read (Escaped None) t inq s
      else shlex_read InWord (t @ [c]) inq s)"

definition shlex_split :: "string \<Rightarrow> exn + string list" where
  "shlex_split s = shlex_read Blank [] False s"

section \<open>One command\<close>

text \<open>A local name, relative to the directory the client was started in.\<close>

definition local_path :: "path \<Rightarrow> string \<Rightarrow> path" where
  "local_path pwd s = (if starts_with s [slash] then split_on slash s else pwd @ split_on slash s)"

definition local_isfile :: "file_system \<Rightarrow> path \<Rightarrow> string \<Rightarrow> bool" where
  "local_isfile fs pwd s = path_isfile fs (local_path pwd s)"

definition upload_arguments :: "file_system \<Rightarrow> path \<Rightarrow> string list \<Rightarrow> exn + (string \<times> string)" where
  "upload_arguments fs pwd parts =
     (if length parts \<noteq> 2 \<and> length parts \<noteq> 3
      then Inl (ValueError (''Usage: '' @ ascii_upper (hd parts) @ '' <local-file> [remote-file]''))
      else
        let local_file = parts ! 1 in
        if \<not> local_isfile fs pwd local_file then Inl (ValueError (''Local file not found: '' @ local_file))
        else Inr (local_file, if length parts = 3 then parts ! 2 else remote_base local_file))"

definition completed :: "bool \<Rightarrow> (string \<times> bool) client_op" where
  "completed ok = return_op (if ok then ''226 Transfer complete'' else ''Transfer failed'', False)"

definition run_command :: "client_env \<Rightarrow> path \<Rightarrow> string \<Rightarrow> string \<Rightarrow> (string \<times> bool) client_op" where
  "run_command env pwd line data_mode c =
     (case shlex_split line of
        Inl e \<Rightarrow> raise_op e c
      | Inr [] \<Rightarrow> return_op ([], False) c
      | Inr (first # args) \<Rightarrow>
          let command = ascii_upper first in
          if command = ''STOR'' \<or> command = ''APPE'' then
            (case upload_arguments (cl_fs c) pwd (first # args) of
               Inl e \<Rightarrow> raise_op e c
             | Inr (local_file, remote_file) \<Rightarrow>
                 bind_op (upload_file env (local_path pwd local_file) remote_file command data_mode) completed c)
          else if command = ''STOU'' then
            (if length args \<noteq> 1 \<or> \<not> local_isfile (cl_fs c) pwd (hd args)
             then raise_op (ValueError ''Usage: STOU <local-file>'') c
             else bind_op (upload_unique_file env (local_path pwd (hd args)) data_mode) completed c)
          else if command = ''RETR'' then
            (if length args \<noteq> 1 then raise_op (ValueError ''Usage: RETR <remote-file>'') c
             else bind_op (download_file env (hd args) data_mode) completed c)
          else bind_op (send_command line) (\<lambda>reply. return_op (strip reply, command = ''QUIT'')) c)"

section \<open>The session\<close>

datatype typed = Typed client_env string | EndOfInput | Interrupted

datatype cli_end = ExitCode int | Escaping exn

fun caught_by_loop :: "exn \<Rightarrow> bool" where
  "caught_by_loop (OSErr k m) = True"
| "caught_by_loop (RuntimeError m) = True"
| "caught_by_loop (ValueError m) = True"
| "caught_by_loop e = False"

definition shown :: "string \<Rightarrow> string list" where
  "shown result = (if result = [] then [] else [result])"

text \<open>The while loop: the lines printed, how it ends, and quit_sent; None while it waits.\<close>

fun cli_loop :: "path \<Rightarrow> string \<Rightarrow> typed list \<Rightarrow> client \<Rightarrow> (client \<times> string list \<times> cli_end \<times> bool) option" where
  "cli_loop pwd data_mode [] c = None"
| "cli_loop pwd data_mode (EndOfInput # ts) c = Some (c, [[]], ExitCode 0, False)"
| "cli_loop pwd data_mode (Interrupted # ts) c = Some (c, [[]], ExitCode 130, False)"
| "cli_loop pwd data_mode (Typed env line # ts) c =
     (case run_command env pwd (strip line) data_mode c of
        None \<Rightarrow> None
      | Some (c1, Inr (result, True)) \<Rightarrow> Some (c1, shown result, ExitCode 0, True)
      | Some (c1, Inr (result, False)) \<Rightarrow>
          map_option (\<lambda>(c2, out, r). (c2, shown result @ out, r)) (cli_loop pwd data_mode ts c1)
      | Some (c1, Inl e) \<Rightarrow>
          if caught_by_loop e
          then map_option (\<lambda>(c2, out, r). (c2, (''Error: '' @ exn_text e) # out, r)) (cli_loop pwd data_mode ts c1)
          else Some (c1, [], Escaping e, False))"

text \<open>main from the connected socket on; its finally clause closes the client unless QUIT was sent.\<close>

definition closing :: "cli_end \<Rightarrow> client \<Rightarrow> (client \<times> cli_end) option" where
  "closing r c = map_option (\<lambda>(c', x). (c', case x of Inl e \<Rightarrow> Escaping e | Inr u \<Rightarrow> r)) (close_op c)"

definition cli_main :: "path \<Rightarrow> string \<Rightarrow> typed list \<Rightarrow> client \<Rightarrow> (client \<times> string list \<times> cli_end) option" where
  "cli_main pwd data_mode ts c =
     (case connect c of
        None \<Rightarrow> None
      | Some (c1, Inl e) \<Rightarrow> map_option (\<lambda>(c2, r). (c2, [], r)) (closing (Escaping e) c1)
      | Some (c1, Inr greeting) \<Rightarrow>
          (case cli_loop pwd data_mode ts c1 of
             None \<Rightarrow> None
           | Some (c2, out, r, quit_sent) \<Rightarrow>
               if quit_sent then Some (c2, strip greeting # out, r)
               else map_option (\<lambda>(c3, r'). (c3, strip greeting # out, r')) (closing r c2)))"

section \<open>The demonstration\<close>

definition demo_remote :: "string \<Rightarrow> string option \<Rightarrow> string" where
  "demo_remote local_file remote =
     (case remote of
        Some (c # s) \<Rightarrow> c # s
      | _ \<Rightarrow> last (split_on backslash (remote_base local_file)))"

definition demo_body :: "client_env \<Rightarrow> client_env \<Rightarrow> path \<Rightarrow> string \<Rightarrow> string \<Rightarrow> string \<Rightarrow> string \<Rightarrow> string \<Rightarrow> string \<Rightarrow> int client_op" where
  "demo_body env1 env2 pwd account password transfer_mode_arg local_file remote data_mode =
     bind_op connect (\<lambda>greeting. bind_op (login account password) (\<lambda>u.
     bind_op (set_mode transfer_mode_arg) (\<lambda>reply.
     bind_op (upload_file env1 (local_path pwd local_file) remote ''STOR'' data_mode) (\<lambda>stored.
     if \<not> stored then return_op 1
     else bind_op (download_file env2 remote data_mode) (\<lambda>got. return_op (if got then 0 else 1))))))"

definition demo_main :: "client_env \<Rightarrow> client_env \<Rightarrow> path \<Rightarrow> string \<Rightarrow> string \<Rightarrow> string \<Rightarrow> string \<Rightarrow> string option \<Rightarrow> string
    \<Rightarrow> client \<Rightarrow> (client \<times> cli_end) option" where
  "demo_main env1 env2 pwd account password transfer_mode_arg local_file remote data_mode c =
     (case demo_body env1 env2 pwd account password transfer_mode_arg local_file (demo_remote local_file remote) data_mode c of
        None \<Rightarrow> None
      | Some (c1, Inl e) \<Rightarrow> closing (Escaping e) c1
      | Some (c1, Inr code) \<Rightarrow> closing (ExitCode code) c1)"

section \<open>Words\<close>

definition plain_text :: "string \<Rightarrow> bool" where
  "plain_text s \<longleftrightarrow> (\<forall>c\<in>set s. \<not> is_quote c \<and> c \<noteq> backslash \<and> (is_space c \<longrightarrow> shlex_space c))"

lemma shlex_space_space: "shlex_space c \<Longrightarrow> is_space c"
  by (auto simp: shlex_space_def is_space_def)

lemma words_not_Nil: "\<not> is_space c \<Longrightarrow> words_of (c # s) \<noteq> []"
  by (auto split: list.splits)

lemma shlex_in_word:
  "plain_text s \<Longrightarrow> t \<noteq> [] \<Longrightarrow>
     shlex_read InWord t False s =
       Inr (case s of [] \<Rightarrow> [t] | c # s' \<Rightarrow> if is_space c then t # words_of s else (t @ hd (words_of s)) # tl (words_of s))
   \<and> shlex_read Blank [] False s = Inr (words_of s)"
proof (induction s arbitrary: t)
  case (Cons c s)
  then have c: "\<not> is_quote c" "c \<noteq> backslash" "is_space c \<longleftrightarrow> shlex_space c" and s: "plain_text s"
    using shlex_space_space by (auto simp: plain_text_def)
  from Cons.IH [OF s] Cons.prems(2) have blank: "shlex_read Blank [] False s = Inr (words_of s)" by blast
  note word = Cons.IH [OF s, of "[c]"] Cons.IH [OF s, of "t @ [c]"]
  show ?case
    using c blank word Cons.prems(2) words_not_Nil
    by (cases s) (auto simp: token_def more_tokens_def split: list.splits)
qed (simp add: token_def)

text \<open>Without quotes and backslashes the terminal sees the words the client and the server see.\<close>

lemma shlex_plain: "plain_text s \<Longrightarrow> shlex_split s = Inr (words_of s)"
  using shlex_in_word [of s "[CHR ''x'']"] by (simp add: shlex_split_def)

lemma shlex_quoted:
  "single_quote \<notin> set n \<Longrightarrow> shlex_read (Quoted single_quote) t inq (n @ [single_quote]) = Inr [t @ n]"
  by (induction n arbitrary: t inq) (auto simp: token_def single_quote_def double_quote_def)

text \<open>Every name without a single quote can be typed between two of them.\<close>

lemma shlex_typeable:
  assumes "single_quote \<notin> set n"
  shows "shlex_split (''RETR '' @ [single_quote] @ n @ [single_quote]) = Inr [''RETR'', n]"
proof -
  have q: "is_quote single_quote" "\<not> shlex_space single_quote" "single_quote \<noteq> backslash"
    "shlex_space CHR '' ''" "\<forall>c\<in>set ''RETR''. \<not> is_quote c \<and> \<not> shlex_space c \<and> c \<noteq> backslash" by code_simp+
  show ?thesis
    using shlex_quoted [OF assms, of "[]"] q by (simp add: shlex_split_def token_def more_tokens_def)
qed

section \<open>Every session is taken leave of\<close>

lemma receive_op_lines: "receive_op reader c = Some (c', r) \<Longrightarrow> cl_lines c' = cl_lines c"
  by (auto simp: receive_op_def split: option.splits prod.splits sum.splits)

lemma record_negotiation_lines [simp]: "cl_lines (record_negotiation value reply c) = cl_lines c"
  by (auto simp: record_negotiation_def Let_def split: list.split)

lemma send_command_lines: "send_command line c = Some (c', r) \<Longrightarrow> cl_lines c' = cl_lines c @ [encode_text (line @ crlf)]"
  unfolding send_command_def bind_op_def recv_reply_def recv_listing_reply_def
  by (auto split: option.splits prod.splits sum.splits if_splits dest!: receive_op_lines)

definition leaves :: "client \<Rightarrow> bool" where
  "leaves c \<longleftrightarrow> (\<exists>line first args. cl_lines c \<noteq> [] \<and> last (cl_lines c) = encode_text (line @ crlf)
     \<and> shlex_split line = Inr (first # args) \<and> ascii_upper first = ''QUIT'')"

lemma send_leaves:
  "send_command line c = Some (c', r) \<Longrightarrow> shlex_split line = Inr (first # args) \<Longrightarrow> ascii_upper first = ''QUIT'' \<Longrightarrow> leaves c'"
  using send_command_lines [of line c c' r] by (auto simp: leaves_def)

lemma close_leaves: "close_op c = Some (c', r) \<Longrightarrow> leaves c'"
proof -
  assume c: "close_op c = Some (c', r)"
  then obtain x where "send_command ''QUIT'' c = Some (c', x)"
    by (auto simp: close_op_def split: option.splits prod.splits sum.splits exn.splits)
  moreover have "shlex_split ''QUIT'' = Inr [''QUIT'']" "ascii_upper ''QUIT'' = ''QUIT''" by code_simp+
  ultimately show ?thesis by (rule send_leaves)
qed

lemma completed_stays: "bind_op m completed c \<noteq> Some (c', Inr (result, True))"
  by (auto simp: bind_op_def completed_def return_op_def split: option.splits prod.splits sum.splits)

lemma run_command_leaves:
  assumes "run_command env pwd line data_mode c = Some (c', Inr (result, True))"
  shows "leaves c'"
proof (cases "shlex_split line")
  case (Inl e)
  with assms show ?thesis by (simp add: run_command_def raise_op_def)
next
  case (Inr words)
  with assms obtain first args where w: "shlex_split line = Inr (first # args)"
    by (cases words) (auto simp: run_command_def return_op_def)
  with assms have "bind_op (send_command line) (\<lambda>reply. return_op (strip reply, ascii_upper first = ''QUIT'')) c
      = Some (c', Inr (result, True))"
    using completed_stays by (auto simp: run_command_def Let_def raise_op_def split: if_splits sum.splits prod.splits)
  then have "ascii_upper first = ''QUIT'' \<and> (\<exists>r. send_command line c = Some (c', r))"
    by (auto simp: bind_op_def return_op_def split: option.splits prod.splits sum.splits)
  with send_leaves w show ?thesis by blast
qed

lemma cli_loop_leaves: "cli_loop pwd data_mode ts c = Some (c', out, r, True) \<Longrightarrow> leaves c'"
proof (induction pwd data_mode ts c arbitrary: out rule: cli_loop.induct)
  case (4 pwd data_mode env line ts c)
  then obtain c1 x where run: "run_command env pwd (strip line) data_mode c = Some (c1, x)" by (auto split: option.splits)
  show ?case
  proof (cases x)
    case (Inl e)
    with 4 run show ?thesis by (auto split: if_splits)
  next
    case (Inr res)
    then obtain result b where res: "x = Inr (result, b)" by (cases res) auto
    show ?thesis
    proof (cases b)
      case True
      with 4 run res run_command_leaves show ?thesis by auto
    next
      case False
      with 4 run res show ?thesis by auto
    qed
  qed
qed auto

text \<open>However the session ends, the last line the server was sent is a QUIT.\<close>

lemma cli_main_leaves:
  assumes "cli_main pwd data_mode ts c = Some (c', out, r)"
  shows "leaves c'"
proof -
  have closed: "leaves c2" if "closing q c1 = Some (c2, q')" for q c1 c2 q'
    using that close_leaves by (auto simp: closing_def)
  from assms obtain c1 x where "connect c = Some (c1, x)" by (auto simp: cli_main_def split: option.splits)
  with assms closed cli_loop_leaves show ?thesis
    by (cases x) (auto simp: cli_main_def split: option.splits if_splits)
qed

end
